(* ===== verification/C_Prelude.thy ===== *)
theory C_Prelude
  imports Main "HOL-Library.Word" "HOL-Library.Signed_Division"
begin

text \<open>
  What every component of the development shares: the C integer types as
  words of their width, C's signed division and remainder, arrays as lists
  updated by index, and the generic facts about them.

  \<open>int\<close> is \<open>32 word\<close> read by \<^const>\<open>sint\<close>, \<open>unsigned int\<close> is \<open>32 word\<close> read
  by \<^const>\<open>unat\<close>; addition, subtraction and multiplication wrap, which is
  what the compiler the makefiles name produces for the operations that ISO C
  leaves undefined on overflow. Properties that need the absence of overflow
  say so.
\<close>

unbundle bit_operations_syntax

named_theorems c_int \<comment> \<open>signed 32-bit arithmetic when nothing overflows\<close>

type_synonym cint = "32 word"
type_synonym cuint = "32 word"
type_synonym byte = "8 word"

section \<open>Signed comparison, division and remainder of C\<close>

definition c_less :: "cint \<Rightarrow> cint \<Rightarrow> bool" where
  "c_less a b \<longleftrightarrow> sint a < sint b"

definition c_le :: "cint \<Rightarrow> cint \<Rightarrow> bool" where
  "c_le a b \<longleftrightarrow> sint a \<le> sint b"

definition c_div :: "cint \<Rightarrow> cint \<Rightarrow> cint" where
  "c_div a b = word_of_int (sint a sdiv sint b)"

definition c_mod :: "cint \<Rightarrow> cint \<Rightarrow> cint" where
  "c_mod a b = word_of_int (sint a smod sint b)"

definition int_fits :: "int \<Rightarrow> bool" where
  "int_fits k \<longleftrightarrow> - (2 ^ 31) \<le> k \<and> k < 2 ^ 31"

lemma int_fits_sint [simp, intro]: "int_fits (sint (x :: cint))"
  using sint_greater_eq [of x] sint_less [of x] by (simp add: int_fits_def)

lemma sint_of_int [c_int]: "int_fits k \<Longrightarrow> sint (word_of_int k :: cint) = k"
  by (simp add: int_fits_def sint_sbintrunc' signed_take_bit_int_eq_self)

lemma sint_add [c_int]: "int_fits (sint a + sint b) \<Longrightarrow> sint (a + b :: cint) = sint a + sint b"
  by (simp add: int_fits_def sint_word_ariths signed_take_bit_int_eq_self)

lemma sint_sub [c_int]: "int_fits (sint a - sint b) \<Longrightarrow> sint (a - b :: cint) = sint a - sint b"
  by (simp add: int_fits_def sint_word_ariths signed_take_bit_int_eq_self)

lemma sint_mult [c_int]: "int_fits (sint a * sint b) \<Longrightarrow> sint (a * b :: cint) = sint a * sint b"
  by (simp add: int_fits_def sint_word_ariths signed_take_bit_int_eq_self)

lemma word_of_sint [simp]: "(word_of_int (sint x) :: cint) = x"
  by simp

lemma sint_inject [simp]: "sint (x :: cint) = sint y \<longleftrightarrow> x = y"
  by (metis word_of_sint)

lemma sint_of_nat [c_int]: "n < 2 ^ 31 \<Longrightarrow> sint (word_of_nat n :: cint) = int n"
proof -
  assume n: "n < 2 ^ 31"
  have "sint (word_of_int (int n) :: cint) = int n"
    by (rule sint_of_int) (use n in \<open>simp add: int_fits_def\<close>)
  then show ?thesis by simp
qed

section \<open>Arrays\<close>

text \<open>A write through an index that is in range; the callers keep it in range.\<close>

lemma nth_update_cases:
  "i < length xs \<Longrightarrow> xs[i := v] ! j = (if i = j then v else xs ! j)"
  by simp

lemma takeWhile_append_stop:
  "\<forall>x\<in>set xs. P x \<Longrightarrow> \<not> P y \<Longrightarrow> takeWhile P (xs @ y # ys) = xs"
  by (induction xs) auto

lemma dropWhile_append_stop:
  "\<forall>x\<in>set xs. P x \<Longrightarrow> \<not> P y \<Longrightarrow> dropWhile P (xs @ y # ys) = y # ys"
  by (induction xs) auto

lemma takeWhile_all: "\<forall>x\<in>set xs. P x \<Longrightarrow> takeWhile P xs = xs"
  by (simp add: takeWhile_eq_all_conv)

lemma dropWhile_all: "\<forall>x\<in>set xs. P x \<Longrightarrow> dropWhile P xs = []"
  by simp

end
