(* ===== verification/C_Strings.thy ===== *)
theory C_Strings
  imports C_Prelude "HOL-Library.Sublist" "HOL-Library.Char_ord"
begin

text \<open>
  The C string functions the programs call: \<open>strlen\<close>, \<open>strcmp\<close>, \<open>strstr\<close>,
  \<open>isdigit\<close>, \<open>atoi\<close>, the \<open>%d\<close> of \<open>sprintf\<close> and \<open>sscanf\<close>. A C string is the
  list of its bytes without the terminating NUL; \<open>cstr\<close> reads one out of a
  character array. \<open>strcmp\<close> compares bytes as \<open>unsigned char\<close> and returns the
  sign of the difference, the only thing ISO C promises of it. \<open>atoi\<close> and
  \<open>%d\<close> are the C library's \<open>strtol\<close>: the value is clamped to 64 bits and then
  cut to the 32 bits of an \<open>int\<close>.
\<close>

section \<open>Character arrays, comparison, search\<close>

abbreviation NUL :: char where "NUL \<equiv> CHR 0x00"
abbreviation CR :: char where "CR \<equiv> CHR 0x0D"
abbreviation LF :: char where "LF \<equiv> CHR 0x0A"

definition char_code :: "char \<Rightarrow> nat" where
  "char_code c = of_char c"

definition cstr :: "string \<Rightarrow> string" where
  "cstr buf = takeWhile (\<lambda>c. c \<noteq> NUL) buf"

fun strcmp :: "string \<Rightarrow> string \<Rightarrow> int" where
  "strcmp [] [] = 0"
| "strcmp [] (y # ys) = -1"
| "strcmp (x # xs) [] = 1"
| "strcmp (x # xs) (y # ys) =
     (if x = y then strcmp xs ys
      else if char_code x < char_code y then -1 else 1)"

fun strstr :: "string \<Rightarrow> string \<Rightarrow> nat option" where
  "strstr [] needle = (if needle = [] then Some 0 else None)"
| "strstr (c # cs) needle =
     (if prefix needle (c # cs) then Some 0 else map_option Suc (strstr cs needle))"

lemma char_code_inject [simp]: "char_code x = char_code y \<longleftrightarrow> x = y"
  by (simp add: char_code_def)

lemma cstr_append_NUL: "NUL \<notin> set s \<Longrightarrow> cstr (s @ NUL # t) = s"
  unfolding cstr_def by (rule takeWhile_append_stop) auto

lemma NUL_notin_cstr [simp]: "NUL \<notin> set (cstr s)"
  by (auto simp: cstr_def dest: set_takeWhileD)

lemma strcmp_refl [simp]: "strcmp s s = 0"
  by (induction s) auto

lemma strcmp_eq_0 [simp]: "strcmp s t = 0 \<longleftrightarrow> s = t"
  by (induction s t rule: strcmp.induct) auto

lemma strcmp_flip: "strcmp t s = - strcmp s t"
  by (induction s t rule: strcmp.induct) auto

lemma strcmp_trans: "strcmp s t < 0 \<Longrightarrow> strcmp t u < 0 \<Longrightarrow> strcmp s u < 0"
proof (induction s t arbitrary: u rule: strcmp.induct)
  case (2 y ys u)
  then show ?case by (cases u) auto
next
  case (4 x xs y ys u)
  then show ?case by (cases u) (auto split: if_splits)
qed auto

lemma strcmp_total: "strcmp s t < 0 \<or> s = t \<or> strcmp t s < 0"
  using strcmp_flip [of s t] strcmp_eq_0 [of s t] by linarith

text \<open>A search returns the first place where the needle stands.\<close>

lemma strstr_Some:
  "strstr s n = Some i \<Longrightarrow> i \<le> length s \<and> prefix n (drop i s)"
  by (induction s arbitrary: i) (auto split: if_splits)

lemma strstr_first: "strstr s n = Some i \<Longrightarrow> j < i \<Longrightarrow> \<not> prefix n (drop j s)"
proof (induction s arbitrary: i j)
  case (Cons c s)
  then show ?case by (cases j) (auto split: if_splits)
qed (auto split: if_splits)

lemma strstr_None: "strstr s n = None \<longleftrightarrow> \<not> sublist n s"
  by (induction s) (auto simp: sublist_Cons_right)

lemma strstr_not_None: "strstr s n \<noteq> None \<longleftrightarrow> sublist n s"
  by (simp add: strstr_None)

lemma sublist_singleton: "sublist [c] s \<longleftrightarrow> c \<in> set s"
  by (induction s) (auto simp: sublist_Cons_right)

lemma strstr_char_notin: "c \<notin> set s \<Longrightarrow> strstr s (c # n) = None"
  by (simp add: strstr_None) (metis list.set_intros(1) set_mono_sublist subsetD)

lemma strstr_at:
  assumes "c \<notin> set s"
  shows "strstr (s @ (c # n) @ t) (c # n) = Some (length s)"
  using assms by (induction s) auto

section \<open>Digits\<close>

definition isdigit :: "char \<Rightarrow> bool" where
  "isdigit c \<longleftrightarrow> 48 \<le> char_code c \<and> char_code c \<le> 57"

definition isspace :: "char \<Rightarrow> bool" where
  "isspace c \<longleftrightarrow> char_code c = 32 \<or> (9 \<le> char_code c \<and> char_code c \<le> 13)"

definition digit_val :: "char \<Rightarrow> nat" where
  "digit_val c = char_code c - 48"

definition digit_char :: "nat \<Rightarrow> char" where
  "digit_char d = char_of (48 + d)"

definition digits_val :: "string \<Rightarrow> nat" where
  "digits_val s = foldl (\<lambda>n c. 10 * n + digit_val c) 0 s"

fun dec_nat :: "nat \<Rightarrow> string" where
  "dec_nat n = (if n < 10 then [digit_char n] else dec_nat (n div 10) @ [digit_char (n mod 10)])"

declare dec_nat.simps [simp del]

lemma char_code_digit_char [simp]: "d < 10 \<Longrightarrow> char_code (digit_char d) = 48 + d"
  by (simp add: char_code_def digit_char_def of_char_of take_bit_eq_mod)

lemma isdigit_digit_char [simp]: "d < 10 \<Longrightarrow> isdigit (digit_char d)"
  by (simp add: isdigit_def)

lemma digit_val_digit_char [simp]: "d < 10 \<Longrightarrow> digit_val (digit_char d) = d"
  by (simp add: digit_val_def)

lemma dec_nat_digits: "\<forall>c\<in>set (dec_nat n). isdigit c"
proof (induction n rule: dec_nat.induct)
  case (1 n)
  then show ?case by (subst dec_nat.simps) (auto simp del: isdigit_digit_char intro!: isdigit_digit_char)
qed

lemma dec_nat_nonempty [simp]: "dec_nat n \<noteq> []"
  by (subst dec_nat.simps) simp

lemma digits_val_snoc [simp]: "digits_val (s @ [c]) = 10 * digits_val s + digit_val c"
  by (simp add: digits_val_def)

lemma digits_val_dec_nat [simp]: "digits_val (dec_nat n) = n"
proof (induction n rule: dec_nat.induct)
  case (1 n)
  show ?case
  proof (cases "n < 10")
    case True
    then show ?thesis by (subst dec_nat.simps) (simp add: digits_val_def)
  next
    case False
    with 1 show ?thesis by (subst dec_nat.simps) simp
  qed
qed

lemma isdigit_not_special:
  assumes "isdigit c"
  shows "\<not> isspace c" and "c \<noteq> CHR ''-''" and "c \<noteq> CHR ''+''" and "c \<noteq> NUL"
    and "c \<noteq> LF" and "c \<noteq> CR" and "c \<noteq> CHR '' ''"
  using assms by (auto simp: isdigit_def isspace_def char_code_def)

section \<open>strtol, atoi, %d\<close>

definition clamp_long :: "int \<Rightarrow> int" where
  "clamp_long k = max (- (2 ^ 63)) (min (2 ^ 63 - 1) k)"

fun sign_split :: "string \<Rightarrow> bool \<times> string" where
  "sign_split [] = (False, [])"
| "sign_split (c # cs) =
     (if c = CHR ''-'' then (True, cs) else if c = CHR ''+'' then (False, cs) else (False, c # cs))"

definition signed_val :: "bool \<Rightarrow> string \<Rightarrow> int" where
  "signed_val neg ds = clamp_long (if neg then - int (digits_val ds) else int (digits_val ds))"

text \<open>The value \<open>%d\<close> stores and the input left; \<open>None\<close> when nothing matches.\<close>

definition scan_d :: "string \<Rightarrow> (cint \<times> string) option" where
  "scan_d s =
     (case sign_split (dropWhile isspace s) of (neg, r) \<Rightarrow>
        let ds = takeWhile isdigit r
        in if ds = [] then None
           else Some (word_of_int (signed_val neg ds), dropWhile isdigit r))"

definition atoi :: "string \<Rightarrow> cint" where
  "atoi s = (case scan_d s of None \<Rightarrow> 0 | Some (v, _) \<Rightarrow> v)"

definition fmt_d :: "cint \<Rightarrow> string" where
  "fmt_d w = (if sint w < 0 then CHR ''-'' # dec_nat (nat (- sint w)) else dec_nat (nat (sint w)))"

definition fmt_3d :: "cint \<Rightarrow> cint \<Rightarrow> cint \<Rightarrow> string" where
  "fmt_3d a b c = fmt_d a @ '' '' @ fmt_d b @ '' '' @ fmt_d c"

text \<open>
  \<open>sscanf(s, "%d %d %d", &a, &b, &c)\<close>: each conversion that fails leaves its
  variable and the later ones as they were.
\<close>

definition sscanf_3d :: "string \<Rightarrow> cint \<times> cint \<times> cint \<Rightarrow> cint \<times> cint \<times> cint" where
  "sscanf_3d s m =
     (case m of (a0, b0, c0) \<Rightarrow>
        case scan_d s of None \<Rightarrow> (a0, b0, c0)
        | Some (a, s1) \<Rightarrow>
            (case scan_d (dropWhile isspace s1) of None \<Rightarrow> (a, b0, c0)
             | Some (b, s2) \<Rightarrow>
                 (case scan_d (dropWhile isspace s2) of None \<Rightarrow> (a, b, c0)
                  | Some (c, _) \<Rightarrow> (a, b, c))))"

lemma clamp_long_id [simp]: "int_fits k \<Longrightarrow> clamp_long k = k"
  by (simp add: clamp_long_def int_fits_def)

lemma fmt_d_nonempty [simp]: "fmt_d w \<noteq> []"
  by (simp add: fmt_d_def)

lemma hd_dec_nat: "isdigit (hd (dec_nat n))"
  using dec_nat_digits [of n] by simp

lemma fmt_d_hd: "\<not> isspace (hd (fmt_d w))"
  using hd_dec_nat isdigit_not_special(1)
  by (auto simp: fmt_d_def isspace_def char_code_def)

lemma fmt_d_chars: "c \<in> set (fmt_d w) \<Longrightarrow> isdigit c \<or> c = CHR ''-''"
  using dec_nat_digits by (auto simp: fmt_d_def split: if_splits)

lemma fmt_d_clean:
  "c \<in> set (fmt_d w) \<Longrightarrow> c \<noteq> NUL \<and> c \<noteq> LF \<and> c \<noteq> CR"
  using fmt_d_chars [of c w] isdigit_not_special [of c] by auto

lemma fmt_3d_clean:
  "c \<in> set (fmt_3d x y z) \<Longrightarrow> c \<noteq> NUL \<and> c \<noteq> LF \<and> c \<noteq> CR"
  using fmt_d_clean by (auto simp: fmt_3d_def)

lemma dropWhile_isspace_fmt_d: "dropWhile isspace (fmt_d w @ t) = fmt_d w @ t"
  by (cases "fmt_d w") (use fmt_d_hd [of w] in auto)

lemma sign_split_digit: "isdigit (hd s) \<Longrightarrow> sign_split s = (False, s)"
  by (cases s) (use isdigit_not_special in auto)

text \<open>What \<open>%d\<close> prints, \<open>%d\<close> reads back, whatever non-digit follows.\<close>

lemma takeWhile_dec_nat:
  "\<not> (t \<noteq> [] \<and> isdigit (hd t)) \<Longrightarrow> takeWhile isdigit (dec_nat n @ t) = dec_nat n"
  using dec_nat_digits [of n] by (cases t) (auto simp: takeWhile_append)

lemma dropWhile_dec_nat:
  "\<not> (t \<noteq> [] \<and> isdigit (hd t)) \<Longrightarrow> dropWhile isdigit (dec_nat n @ t) = t"
  using dec_nat_digits [of n] by (cases t) (auto simp: dropWhile_append)

lemma scan_d_fmt_d:
  assumes "\<not> (t \<noteq> [] \<and> isdigit (hd t))"
  shows "scan_d (fmt_d w @ t) = Some (w, t)"
proof (cases "sint w < 0")
  case True
  have fits: "int_fits (sint w)" by simp
  have "scan_d (fmt_d w @ t) =
    Some (word_of_int (signed_val True (dec_nat (nat (- sint w)))), t)"
    using True dropWhile_isspace_fmt_d [of w t] assms
    by (simp add: scan_d_def fmt_d_def takeWhile_dec_nat dropWhile_dec_nat)
  also have "signed_val True (dec_nat (nat (- sint w))) = sint w"
    using True fits by (simp add: signed_val_def)
  finally show ?thesis by simp
next
  case False
  have fits: "int_fits (sint w)" by simp
  have "isdigit (hd (dec_nat (nat (sint w)) @ t))" by (simp add: hd_append hd_dec_nat)
  then have "scan_d (fmt_d w @ t) =
    Some (word_of_int (signed_val False (dec_nat (nat (sint w)))), t)"
    using False dropWhile_isspace_fmt_d [of w t] assms
    by (simp add: scan_d_def fmt_d_def takeWhile_dec_nat dropWhile_dec_nat sign_split_digit)
  also have "signed_val False (dec_nat (nat (sint w))) = sint w"
    using False fits by (simp add: signed_val_def)
  finally show ?thesis by simp
qed

lemma atoi_fmt_d: "atoi (fmt_d w) = w"
  using scan_d_fmt_d [of "[]" w] by (simp add: atoi_def)

lemma isspace_blank [simp]: "isspace CHR '' ''"
  by (simp add: isspace_def char_code_def)

lemma dropWhile_isspace_fmt_d_end: "dropWhile isspace (fmt_d w) = fmt_d w"
  using dropWhile_isspace_fmt_d [of w "[]"] by simp

lemma scan_d_fmt_d_space: "scan_d (fmt_d w @ CHR '' '' # t) = Some (w, CHR '' '' # t)"
  by (rule scan_d_fmt_d) (simp add: isdigit_def char_code_def)

lemma sscanf_3d_fmt_3d [simp]: "sscanf_3d (fmt_3d a b c) m = (a, b, c)"
  using scan_d_fmt_d [of "[]" c]
  by (cases m)
    (simp add: sscanf_3d_def fmt_3d_def scan_d_fmt_d_space dropWhile_isspace_fmt_d
      dropWhile_isspace_fmt_d_end)

lemma fmt_3d_inject: "fmt_3d a b c = fmt_3d a' b' c' \<longleftrightarrow> a = a' \<and> b = b' \<and> c = c'"
  by (metis Pair_inject sscanf_3d_fmt_3d)

section \<open>Evaluation on concrete strings\<close>

lemmas string_eval = cstr_def isdigit_def isspace_def char_code_def digit_val_def digits_val_def
  scan_d_def atoi_def signed_val_def clamp_long_def

lemma char_of_digit:
  "char_of (48 :: nat) = CHR ''0''" "char_of (49 :: nat) = CHR ''1''" "char_of (50 :: nat) = CHR ''2''"
  "char_of (51 :: nat) = CHR ''3''" "char_of (52 :: nat) = CHR ''4''" "char_of (53 :: nat) = CHR ''5''"
  "char_of (54 :: nat) = CHR ''6''" "char_of (55 :: nat) = CHR ''7''" "char_of (56 :: nat) = CHR ''8''"
  "char_of (57 :: nat) = CHR ''9''"
  by code_simp+

lemmas fmt_eval = fmt_3d_def fmt_d_def dec_nat.simps digit_char_def char_of_digit

section \<open>fgets and %s\<close>

text \<open>\<open>fgets\<close> with a buffer of \<open>n + 1\<close> bytes: the line with its end, at most \<open>n\<close> bytes of it.\<close>

definition fgets :: "nat \<Rightarrow> string \<Rightarrow> (string \<times> string) option" where
  "fgets n s =
     (if s = [] then None
      else let l = takeWhile (\<lambda>c. c \<noteq> LF) (take n s)
           in if length l < length (take n s) then Some (l @ [LF], drop (length l + 1) s)
              else Some (l, drop n s))"

text \<open>\<open>%s\<close> with a width.\<close>

definition scan_s :: "nat \<Rightarrow> string \<Rightarrow> (string \<times> string) option" where
  "scan_s w s =
     (let t = dropWhile isspace s; u = takeWhile (\<lambda>c. \<not> isspace c) (take w t)
      in if u = [] then None else Some (u, drop (length u) t))"

lemma fgets_line:
  assumes "\<forall>c\<in>set l. c \<noteq> LF" and "length l < n"
  shows "fgets n (l @ LF # s) = Some (l @ [LF], s)"
proof -
  obtain k where k: "n - length l = Suc k" using assms(2) by (metis Suc_diff_Suc)
  have tk: "take n (l @ LF # s) = l @ LF # take k s" using assms(2) k by simp
  have "takeWhile (\<lambda>c. c \<noteq> LF) (l @ LF # take k s) = l" using takeWhile_append_stop [OF assms(1)] by simp
  then show ?thesis unfolding fgets_def Let_def tk by simp
qed

lemma fgets_length: "fgets n s = Some (l, r) \<Longrightarrow> length l \<le> n"
  by (auto simp: fgets_def Let_def length_takeWhile_le intro: order_trans [OF length_takeWhile_le] split: if_splits)

lemma isspace_char [simp]: "isspace CHR '' ''" "isspace LF" "\<not> isdigit CHR '' ''" "\<not> isdigit LF" "\<not> isspace CHR '',''"
  by (simp_all add: isspace_def isdigit_def char_code_def)

text \<open>\<open>%s\<close> reads a word up to white space or the end.\<close>

lemma scan_s_word:
  assumes "w \<noteq> []" and "\<forall>c\<in>set w. \<not> isspace c" and "length w \<le> k" and "t = [] \<or> isspace (hd t)" and "isspace s"
  shows "scan_s k (s # w @ t) = Some (w, t)"
proof -
  have skip: "dropWhile isspace (s # w @ t) = w @ t" using assms by (cases w) auto
  have "takeWhile (\<lambda>c. \<not> isspace c) (take k (w @ t)) = w"
  proof (cases "take (k - length w) t")
    case Nil
    have "take k (w @ t) = w" using assms(3) Nil unfolding take_append by simp
    then show ?thesis using assms(2) takeWhile_all [of w "\<lambda>c. \<not> isspace c"] by simp
  next
    case (Cons c cs)
    then have "isspace c" using assms(4) by (cases t; cases "k - length w") auto
    then show ?thesis
      using assms(2,3) Cons takeWhile_append_stop [of w "\<lambda>c. \<not> isspace c" c cs] by simp
  qed
  then show ?thesis using assms(1) skip by (simp add: scan_s_def Let_def)
qed

end
