(* ===== verification/Booking_Store.thy ===== *)
theory Booking_Store
  imports C_Strings
begin

text \<open>
  What the csiebooking servers share: the \<open>bookingRecord\<close> file, as the bytes
  that \<open>read\<close> and \<open>write\<close> move, with the \<open>record\<close> struct they hold (four
  little-endian 32-bit integers), and the POSIX record locks that \<open>fcntl\<close>
  keeps on it, per process and byte range. The lock table is used through the
  interface \<open>record_locks\<close>, whose laws the model of \<open>fcntl\<close> is shown to have.
\<close>

section \<open>The record struct and its bytes\<close>

record booking =
  b_id :: cint
  bookingState :: "cint list"

definition le32 :: "cint \<Rightarrow> byte list" where
  "le32 w = [ucast w, ucast (drop_bit 8 w), ucast (drop_bit 16 w), ucast (drop_bit 24 w)]"

fun unle32 :: "byte list \<Rightarrow> cint" where
  "unle32 (a # b # c # d # _) =
     ucast a OR push_bit 8 (ucast b) OR push_bit 16 (ucast c) OR push_bit 24 (ucast d)"
| "unle32 _ = 0"

definition record_bytes :: "booking \<Rightarrow> byte list" where
  "record_bytes r = le32 (b_id r) @ concat (map le32 (bookingState r))"

definition bytes_record :: "byte list \<Rightarrow> booking" where
  "bytes_record bs =
     \<lparr>b_id = unle32 (take 4 bs),
      bookingState = [unle32 (take 4 (drop 4 bs)), unle32 (take 4 (drop 8 bs)), unle32 (take 4 (drop 12 bs))]\<rparr>"

lemma length_le32 [simp]: "length (le32 w) = 4"
  by (simp add: le32_def)

lemma unle32_le32 [simp]: "unle32 (le32 w) = w"
proof (rule bit_word_eqI)
  fix n assume "n < LENGTH(32)"
  then show "bit (unle32 (le32 w)) n = bit w n"
    by (cases "24 \<le> n"; cases "16 \<le> n"; cases "8 \<le> n") (auto simp: le32_def bit_simps)
qed

lemma length_record_bytes [simp]:
  "length (bookingState r) = 3 \<Longrightarrow> length (record_bytes r) = 16"
  by (auto simp: record_bytes_def length_Suc_conv numeral_3_eq_3)

lemma bytes_record_bytes [simp]:
  assumes "length (bookingState r) = 3"
  shows "bytes_record (record_bytes r) = r"
proof -
  obtain x y z where "bookingState r = [x, y, z]"
    using assms by (auto simp: numeral_3_eq_3 length_Suc_conv)
  then show ?thesis
    by (cases r) (simp add: bytes_record_def record_bytes_def)
qed

lemma length_bytes_record [simp]: "length (bookingState (bytes_record bs)) = 3"
  by (simp add: bytes_record_def)

text \<open>\<open>read\<close> and \<open>write\<close> of \<open>n\<close> bytes at a file offset.\<close>

definition file_read :: "byte list \<Rightarrow> nat \<Rightarrow> nat \<Rightarrow> byte list" where
  "file_read f off n = take n (drop off f)"

definition file_write :: "byte list \<Rightarrow> nat \<Rightarrow> byte list \<Rightarrow> byte list" where
  "file_write f off bs =
     (let g = f @ replicate (off - length f) 0
      in take off g @ bs @ drop (off + length bs) g)"

text \<open>A short read overwrites only the front of the struct it reads into.\<close>

definition read_into :: "byte list \<Rightarrow> booking \<Rightarrow> booking" where
  "read_into bs r = bytes_record (bs @ drop (length bs) (record_bytes r))"

lemma read_into_full [simp]:
  "length bs = 16 \<Longrightarrow> length (bookingState r) = 3 \<Longrightarrow> read_into bs r = bytes_record bs"
  by (simp add: read_into_def)

lemma length_read_into [simp]: "length (bookingState (read_into bs r)) = 3"
  by (simp add: read_into_def)

text \<open>The file as the booking records it holds.\<close>

definition nth_record :: "byte list \<Rightarrow> nat \<Rightarrow> booking" where
  "nth_record f i = bytes_record (file_read f (16 * i) 16)"

lemma length_file_write [simp]:
  "off + length bs \<le> length f \<Longrightarrow> length (file_write f off bs) = length f"
  by (simp add: file_write_def Let_def)

lemma file_read_write_same:
  "off + length bs \<le> length f \<Longrightarrow> file_read (file_write f off bs) off (length bs) = bs"
  by (simp add: file_read_def file_write_def Let_def)

lemma file_read_write_other:
  assumes "off + length bs \<le> length f" and "off' + n \<le> off \<or> off + length bs \<le> off'"
  shows "file_read (file_write f off bs) off' n = file_read f off' n"
proof -
  have w: "file_write f off bs = take off f @ bs @ drop (off + length bs) f"
    using assms by (simp add: file_write_def Let_def)
  show ?thesis
  proof (cases "off' + n \<le> off")
    case True
    with assms have "n \<le> length (drop off' (take off f))" by simp
    with True assms show ?thesis by (simp add: w file_read_def drop_take)
  next
    case False
    with assms have "off + length bs \<le> off'" by simp
    with assms show ?thesis by (simp add: w file_read_def min_def)
  qed
qed

lemma nth_record_write_same:
  "16 * i + 16 \<le> length f \<Longrightarrow> length (bookingState r) = 3 \<Longrightarrow>
    nth_record (file_write f (16 * i) (record_bytes r)) i = r"
  using file_read_write_same [of "16 * i" "record_bytes r" f] by (simp add: nth_record_def)

lemma nth_record_write_other:
  "16 * i + 16 \<le> length f \<Longrightarrow> length (bookingState r) = 3 \<Longrightarrow> i \<noteq> j \<Longrightarrow>
    nth_record (file_write f (16 * i) (record_bytes r)) j = nth_record f j"
  using file_read_write_other [of "16 * i" "record_bytes r" f "16 * j" 16]
  by (cases "i < j") (simp_all add: nth_record_def)

section \<open>POSIX record locks\<close>

datatype ltype = F_RDLCK | F_WRLCK | F_UNLCK

text \<open>The bytes from \<open>fl_start\<close> up to, not including, \<open>fl_end\<close>.\<close>

record flock =
  fl_owner :: nat
  fl_type :: ltype
  fl_start :: int
  fl_end :: int

definition fl_overlap :: "int \<Rightarrow> int \<Rightarrow> flock \<Rightarrow> bool" where
  "fl_overlap s e f \<longleftrightarrow> s < fl_end f \<and> fl_start f < e"

definition fl_conflict :: "nat \<Rightarrow> ltype \<Rightarrow> int \<Rightarrow> int \<Rightarrow> flock \<Rightarrow> bool" where
  "fl_conflict p ty s e f \<longleftrightarrow>
     fl_owner f \<noteq> p \<and> fl_overlap s e f \<and> (ty = F_WRLCK \<or> fl_type f = F_WRLCK)"

text \<open>What remains of an entry when its owner gives up the bytes of a range.\<close>

definition fl_carve :: "nat \<Rightarrow> int \<Rightarrow> int \<Rightarrow> flock \<Rightarrow> flock list" where
  "fl_carve p s e f =
     (if fl_owner f = p \<and> fl_overlap s e f
      then (if fl_start f < s then [f\<lparr>fl_end := s\<rparr>] else [])
           @ (if e < fl_end f then [f\<lparr>fl_start := e\<rparr>] else [])
      else [f])"

definition fcntl_setlk :: "nat \<Rightarrow> ltype \<Rightarrow> int \<Rightarrow> int \<Rightarrow> flock list \<Rightarrow> flock list option" where
  "fcntl_setlk p ty s e ls =
     (if ty = F_UNLCK then Some (concat (map (fl_carve p s e) ls))
      else if list_ex (fl_conflict p ty s e) ls then None
      else Some (\<lparr>fl_owner = p, fl_type = ty, fl_start = s, fl_end = e\<rparr>
                 # concat (map (fl_carve p s e) ls)))"

text \<open>Closing the file, or the end of the process, drops all its locks.\<close>

definition fcntl_release :: "nat \<Rightarrow> flock list \<Rightarrow> flock list" where
  "fcntl_release p ls = filter (\<lambda>f. fl_owner f \<noteq> p) ls"

definition fl_holds :: "flock list \<Rightarrow> nat \<Rightarrow> ltype \<Rightarrow> int \<Rightarrow> bool" where
  "fl_holds ls p ty b \<longleftrightarrow>
     list_ex (\<lambda>f. fl_owner f = p \<and> fl_type f = ty \<and> fl_start f \<le> b \<and> b < fl_end f) ls"

definition fl_wf :: "flock list \<Rightarrow> bool" where
  "fl_wf ls \<longleftrightarrow> list_all (\<lambda>f. fl_start f < fl_end f \<and> fl_type f \<noteq> F_UNLCK) ls"

section \<open>The lock interface\<close>

text \<open>
  What the servers rely on: a lock is refused exactly when another process
  holds a conflicting one on some byte of the range; a granted lock replaces
  whatever the process held there and touches nothing else; unlocking never
  fails. \<open>locks_compatible\<close> is the promise that follows: a byte locked for
  writing is locked by nobody else.
\<close>

definition locks_compatible :: "(nat \<Rightarrow> ltype \<Rightarrow> int \<Rightarrow> bool) \<Rightarrow> bool" where
  "locks_compatible h \<longleftrightarrow> (\<forall>p q t b. p \<noteq> q \<longrightarrow> h p F_WRLCK b \<longrightarrow> \<not> h q t b)"

locale record_locks =
  fixes setlk :: "nat \<Rightarrow> ltype \<Rightarrow> int \<Rightarrow> int \<Rightarrow> 'l \<Rightarrow> 'l option"
    and release :: "nat \<Rightarrow> 'l \<Rightarrow> 'l"
    and holds :: "'l \<Rightarrow> nat \<Rightarrow> ltype \<Rightarrow> int \<Rightarrow> bool"
    and wf_locks :: "'l \<Rightarrow> bool"
  assumes setlk_wf: "\<lbrakk>wf_locks L; s < e; setlk p ty s e L = Some L'\<rbrakk> \<Longrightarrow> wf_locks L'"
    and unlock_total: "setlk p F_UNLCK s e L \<noteq> None"
    and unlock_holds: "\<lbrakk>wf_locks L; s < e; setlk p F_UNLCK s e L = Some L'\<rbrakk> \<Longrightarrow>
      holds L' q t b \<longleftrightarrow> holds L q t b \<and> \<not> (q = p \<and> s \<le> b \<and> b < e)"
    and lock_holds: "\<lbrakk>wf_locks L; s < e; ty \<noteq> F_UNLCK; setlk p ty s e L = Some L'\<rbrakk> \<Longrightarrow>
      holds L' q t b \<longleftrightarrow> (if q = p \<and> s \<le> b \<and> b < e then t = ty else holds L q t b)"
    and lock_refused: "\<lbrakk>wf_locks L; s < e; ty \<noteq> F_UNLCK\<rbrakk> \<Longrightarrow>
      setlk p ty s e L = None \<longleftrightarrow>
        (\<exists>q t b. q \<noteq> p \<and> s \<le> b \<and> b < e \<and> holds L q t b \<and> (ty = F_WRLCK \<or> t = F_WRLCK))"
    and release_wf: "wf_locks L \<Longrightarrow> wf_locks (release p L)"
    and release_holds: "holds (release p L) q t b \<longleftrightarrow> holds L q t b \<and> q \<noteq> p"
    and holds_kind: "wf_locks L \<Longrightarrow> \<not> holds L p F_UNLCK b"
begin

lemma lock_granted_free:
  assumes "wf_locks L" "s < e" "ty \<noteq> F_UNLCK" "setlk p ty s e L = Some L'"
    and "q \<noteq> p" "s \<le> b" "b < e" "holds L q t b"
  shows "ty \<noteq> F_WRLCK" and "t \<noteq> F_WRLCK"
  using lock_refused [OF assms(1-3), of p] assms(4-8) by auto

lemma compatible_setlk:
  assumes wf: "wf_locks L" and se: "s < e" and step: "setlk p ty s e L = Some L'"
    and comp: "locks_compatible (holds L)"
  shows "locks_compatible (holds L')"
proof (cases "ty = F_UNLCK")
  case True
  with unlock_holds [OF wf se] step comp show ?thesis
    by (auto simp: locks_compatible_def)
next
  case False
  note new = lock_holds [OF wf se False step] and free = lock_granted_free [OF wf se False step]
  show ?thesis
    unfolding locks_compatible_def new
    using comp by (auto simp: locks_compatible_def dest: free split: if_splits)
qed

lemma compatible_release:
  "locks_compatible (holds L) \<Longrightarrow> locks_compatible (holds (release p L))"
  by (auto simp: locks_compatible_def release_holds)

lemma granted_range:
  assumes "wf_locks L" "s < e" "ty \<noteq> F_UNLCK" "setlk p ty s e L = Some L'" "s \<le> b" "b < e"
  shows "holds L' p t b \<longleftrightarrow> t = ty"
  using lock_holds [OF assms(1-4)] assms(5,6) by simp

lemma granted_frame:
  assumes "wf_locks L" "s < e" "ty \<noteq> F_UNLCK" "setlk p ty s e L = Some L'"
    and "q \<noteq> p \<or> b < s \<or> e \<le> b"
  shows "holds L' q t b \<longleftrightarrow> holds L q t b"
  using lock_holds [OF assms(1-4)] assms(5) by auto

end

section \<open>fcntl provides it\<close>

lemma fl_holds_Nil [simp]: "\<not> fl_holds [] p t b"
  by (simp add: fl_holds_def)

lemma fl_holds_Cons:
  "fl_holds (f # ls) p t b \<longleftrightarrow>
     fl_owner f = p \<and> fl_type f = t \<and> fl_start f \<le> b \<and> b < fl_end f \<or> fl_holds ls p t b"
  by (simp add: fl_holds_def)

lemma fl_holds_append: "fl_holds (ls @ ls') p t b \<longleftrightarrow> fl_holds ls p t b \<or> fl_holds ls' p t b"
  by (simp add: fl_holds_def)

lemma fl_holds_carve:
  "fl_holds (fl_carve p s e f) q t b \<longleftrightarrow> fl_holds [f] q t b \<and> \<not> (q = p \<and> s \<le> b \<and> b < e)"
  by (auto simp: fl_carve_def fl_overlap_def fl_holds_def)

lemma fl_holds_carve_all:
  "fl_holds (concat (map (fl_carve p s e) ls)) q t b \<longleftrightarrow>
     fl_holds ls q t b \<and> \<not> (q = p \<and> s \<le> b \<and> b < e)"
proof (induction ls)
  case (Cons f ls)
  then show ?case
    using fl_holds_carve [of p s e f q t b] by (auto simp: fl_holds_append fl_holds_Cons)
qed simp

lemma fl_wf_carve: "fl_wf [f] \<Longrightarrow> s < e \<Longrightarrow> fl_wf (fl_carve p s e f)"
  by (auto simp: fl_wf_def fl_carve_def fl_overlap_def)

lemma fl_wf_carve_all: "fl_wf ls \<Longrightarrow> s < e \<Longrightarrow> fl_wf (concat (map (fl_carve p s e) ls))"
proof (induction ls)
  case (Cons f ls)
  then show ?case using fl_wf_carve [of f s e p] by (auto simp: fl_wf_def)
qed (simp add: fl_wf_def)

lemma fl_overlap_byte: "fl_start f < fl_end f \<Longrightarrow> s < e \<Longrightarrow>
  fl_overlap s e f \<longleftrightarrow> (\<exists>b. s \<le> b \<and> b < e \<and> fl_start f \<le> b \<and> b < fl_end f)"
  by (auto simp: fl_overlap_def intro!: exI [of _ "max s (fl_start f)"])

lemma fl_conflict_byte:
  assumes "fl_wf ls" "s < e"
  shows "list_ex (fl_conflict p ty s e) ls \<longleftrightarrow>
    (\<exists>q t b. q \<noteq> p \<and> s \<le> b \<and> b < e \<and> fl_holds ls q t b \<and> (ty = F_WRLCK \<or> t = F_WRLCK))"
proof -
  have "fl_conflict p ty s e f \<longleftrightarrow> fl_owner f \<noteq> p \<and> (ty = F_WRLCK \<or> fl_type f = F_WRLCK)
      \<and> (\<exists>b. s \<le> b \<and> b < e \<and> fl_start f \<le> b \<and> b < fl_end f)" if "f \<in> set ls" for f
    using that assms fl_overlap_byte [of f s e]
    by (auto simp: fl_wf_def list_all_iff fl_conflict_def)
  then show ?thesis
    by (simp add: list_ex_iff fl_holds_def) blast
qed

interpretation fcntl: record_locks fcntl_setlk fcntl_release fl_holds fl_wf
proof (unfold_locales, goal_cases)
  case (1 L s e p ty L')
  then show ?case
    using fl_wf_carve_all [of L s e p] by (auto simp: fcntl_setlk_def fl_wf_def split: if_splits)
next
  case (2 p s e L)
  then show ?case by (simp add: fcntl_setlk_def)
next
  case (3 L s e p L' q t b)
  then show ?case by (auto simp: fcntl_setlk_def fl_holds_carve_all)
next
  case (4 L s e ty p L' q t b)
  then show ?case
    by (auto simp: fcntl_setlk_def fl_holds_Cons fl_holds_carve_all split: if_splits)
next
  case (5 L s e ty p)
  then show ?case
    using fl_conflict_byte [of L s e p ty] by (simp add: fcntl_setlk_def)
next
  case (6 L p)
  then show ?case by (auto simp: fcntl_release_def fl_wf_def list_all_iff)
next
  case (7 p L q t b)
  then show ?case by (auto simp: fcntl_release_def fl_holds_def list_ex_iff)
next
  case (8 L p b)
  then show ?case by (auto simp: fl_wf_def fl_holds_def list_all_iff list_ex_iff)
qed

end
