(* ===== verification/Booking_Server.thy ===== *)
theory Booking_Server
  imports Booking_Store
begin

text \<open>
  One csiebooking server process (\<open>csiebooking/server.c\<close>), built with
  \<open>READ_SERVER\<close> or \<open>WRITE_SERVER\<close>: its request table, its lock counters, and
  one iteration of the \<open>select\<close> loop of \<open>main\<close>. The kernel is the state the
  processes share (the record file, the lock table) and the trace of what was
  sent and closed. What \<open>select\<close>, \<open>accept\<close> and \<open>read\<close> return is an argument of
  the iteration. A handler ends in \<open>Ok\<close> of the new state, in \<open>Exit\<close> when the
  code calls \<open>exit\<close>, or in \<open>Undef\<close> where the code has undefined behaviour.
\<close>

section \<open>State\<close>

datatype kind = READ_SERVER | WRITE_SERVER

record request =
  host :: string
  conn_fd :: int
  buf :: string
  buf_len :: nat
  rid :: cint
  wait_for_write :: bool

record server =
  requestP :: "nat \<Rightarrow> request"
  readlock :: "nat \<Rightarrow> cint"
  writelock :: "nat \<Rightarrow> bool"
  temp :: booking
  master_set :: "nat set"
  listen_fd :: nat
  maxfd :: nat
  fpos :: nat

datatype net_event = Sent int string | Closed int

record kernel =
  disk :: "byte list"
  locks :: "flock list"
  out :: "(nat \<times> net_event) list"

datatype 'a outcome = Ok 'a | Exit | Undef

type_synonym st = "server \<times> kernel"

section \<open>Reading a line from a client\<close>

datatype read_result = Rd_err | Rd_data string

definition IAC_IP :: string where
  "IAC_IP = [CHR 0xFF, CHR 0xF4]"

text \<open>The line ends at \<open>p1\<close>: copy it, put a NUL over the end of line.\<close>

definition take_line :: "request \<Rightarrow> string \<Rightarrow> nat \<Rightarrow> request" where
  "take_line rq s p1 = rq\<lparr>buf := take p1 s @ NUL # drop (p1 + 1) (buf rq), buf_len := p1\<rparr>"

text \<open>The local buffer: zeroed, then \<open>read\<close> into.\<close>

definition fill_buf :: "string \<Rightarrow> string" where
  "fill_buf bs = bs @ replicate (512 - length bs) NUL"

definition handle_read :: "request \<Rightarrow> read_result \<Rightarrow> (int \<times> request) outcome" where
  "handle_read rq r =
     (case r of
        Rd_err \<Rightarrow> Ok (-1, rq)
      | Rd_data bs \<Rightarrow>
          if bs = [] then Ok (0, rq)
          else
            let b = fill_buf bs
            in if NUL \<notin> set b then Undef
               else case strstr (cstr b) [CR, LF] of
                      Some p1 \<Rightarrow> Ok (1, take_line rq (cstr b) p1)
                    | None \<Rightarrow>
                        (case strstr (cstr b) [LF] of
                           Some p1 \<Rightarrow> Ok (1, take_line rq (cstr b) p1)
                         | None \<Rightarrow> if take 2 b = IAC_IP then Ok (0, rq) else Exit))"

section \<open>Messages\<close>

definition msg_ask :: string where
  "msg_ask = ''Please enter your id (to check your booking state):'' @ [LF]"

definition msg_error :: string where
  "msg_error = ''[Error] Operation failed. Please try again.'' @ [LF]"

definition msg_locked :: string where
  "msg_locked = ''Locked.'' @ [LF]"

definition msg_over :: string where
  "msg_over = ''[Error] Sorry, but you cannot book more than 15 items in total.'' @ [LF]"

definition msg_under :: string where
  "msg_under = ''[Error] Sorry, but you cannot book less than 0 items.'' @ [LF]"

definition show_state :: "cint list \<Rightarrow> string" where
  "show_state bs =
     ''Food: '' @ fmt_d (bs ! 0) @ '' booked'' @ [LF]
     @ ''Concert: '' @ fmt_d (bs ! 1) @ '' booked'' @ [LF]
     @ ''Electronics: '' @ fmt_d (bs ! 2) @ '' booked'' @ [LF]"

definition msg_state_read :: "cint list \<Rightarrow> string" where
  "msg_state_read bs = show_state bs @ [LF] @ ''(Type Exit to leave...)'' @ [LF]"

definition msg_state_write :: "cint list \<Rightarrow> string" where
  "msg_state_write bs = show_state bs @ [LF]
     @ ''Please input your booking command. (Food, Concert, Electronics. ''
     @ ''Positive/negative value increases/decreases the booking amount.):'' @ [LF]"

definition msg_updated :: "cint \<Rightarrow> cint list \<Rightarrow> string" where
  "msg_updated i bs =
     ''Bookings for user '' @ fmt_d i @ '' are updated, the new booking state is:'' @ [LF]
     @ show_state bs"

section \<open>Kernel calls\<close>

definition send :: "nat \<Rightarrow> int \<Rightarrow> string \<Rightarrow> kernel \<Rightarrow> kernel" where
  "send p fd s k = k\<lparr>out := out k @ [(p, Sent fd s)]\<rparr>"

definition close_fd :: "nat \<Rightarrow> int \<Rightarrow> kernel \<Rightarrow> kernel" where
  "close_fd p fd k = k\<lparr>out := out k @ [(p, Closed fd)]\<rparr>"

text \<open>\<open>None\<close> is the return value -1.\<close>

definition lock_reg :: "nat \<Rightarrow> ltype \<Rightarrow> int \<Rightarrow> int \<Rightarrow> kernel \<Rightarrow> kernel option" where
  "lock_reg p ty off len k =
     map_option (\<lambda>ls. k\<lparr>locks := ls\<rparr>) (fcntl_setlk p ty off (off + len) (locks k))"

text \<open>\<open>sizeof(record) * (id - 1)\<close>: an \<open>int\<close> widened to a 64-bit \<open>size_t\<close>, read as \<open>off_t\<close>.\<close>

definition lock_offset :: "cint \<Rightarrow> int" where
  "lock_offset i = sint (16 * word_of_int (sint (i - 1)) :: 64 word)"

definition unlock :: "nat \<Rightarrow> nat \<Rightarrow> server \<Rightarrow> kernel \<Rightarrow> kernel" where
  "unlock p c sv k =
     (case lock_reg p F_UNLCK (lock_offset (rid (requestP sv c))) 16 k of None \<Rightarrow> k | Some k' \<Rightarrow> k')"

text \<open>\<open>lseek(file_fd, sizeof(record) * (id - 1), SEEK_SET)\<close>, then \<open>read\<close> or \<open>write\<close> of \<open>temp\<close>.\<close>

definition load_record :: "nat \<Rightarrow> server \<Rightarrow> kernel \<Rightarrow> server" where
  "load_record i sv k =
     (let bs = file_read (disk k) (16 * (i - 1)) 16
      in sv\<lparr>temp := read_into bs (temp sv), fpos := 16 * (i - 1) + length bs\<rparr>)"

definition store_record :: "nat \<Rightarrow> st \<Rightarrow> st" where
  "store_record i s =
     (case s of (sv, k) \<Rightarrow>
        (sv\<lparr>fpos := 16 * (i - 1) + 16\<rparr>,
         k\<lparr>disk := file_write (disk k) (16 * (i - 1)) (record_bytes (temp sv))\<rparr>))"

section \<open>Requests\<close>

definition set_request :: "nat \<Rightarrow> request \<Rightarrow> server \<Rightarrow> server" where
  "set_request c rq sv = sv\<lparr>requestP := (requestP sv)(c := rq)\<rparr>"

definition init_request :: "request \<Rightarrow> request" where
  "init_request rq = rq\<lparr>conn_fd := -1, buf_len := 0, rid := 0, wait_for_write := False\<rparr>"

definition free_request :: "request \<Rightarrow> request" where
  "free_request rq = init_request rq"

definition endConnection :: "nat \<Rightarrow> nat \<Rightarrow> st \<Rightarrow> st" where
  "endConnection p c s =
     (case s of (sv, k) \<Rightarrow>
        (set_request c (free_request (requestP sv c)) (sv\<lparr>master_set := master_set sv - {c}\<rparr>),
         close_fd p (conn_fd (requestP sv c)) k))"

text \<open>Answer and hang up.\<close>

definition refuse :: "nat \<Rightarrow> nat \<Rightarrow> string \<Rightarrow> st \<Rightarrow> st" where
  "refuse p c msg s =
     (case s of (sv, k) \<Rightarrow> endConnection p c (sv, send p (conn_fd (requestP sv c)) msg k))"

section \<open>The client sends its id\<close>

fun id_loop :: "string \<Rightarrow> bool \<Rightarrow> bool" where
  "id_loop [] valid = valid"
| "id_loop (c # cs) valid = (if isdigit c then id_loop cs True else False)"

definition id_index :: "cint \<Rightarrow> cint" where
  "id_index i = i - 902000"

text \<open>The request with the id read from its line, and whether the id is valid.\<close>

definition check_id :: "request \<Rightarrow> request \<times> bool" where
  "check_id rq =
     (let s = cstr (buf rq)
      in if id_loop s True
         then let rq' = rq\<lparr>rid := atoi s\<rparr>; i = id_index (rid rq')
              in (rq', \<not> (c_less i 1 \<or> c_less 20 i))
         else (rq, False))"

definition lock_slot :: "cint \<Rightarrow> nat" where
  "lock_slot i = nat (sint (id_index i))"

definition show_record :: "kind \<Rightarrow> nat \<Rightarrow> nat \<Rightarrow> st \<Rightarrow> st" where
  "show_record kd p c s =
     (case s of (sv, k) \<Rightarrow>
        let i = lock_slot (rid (requestP sv c));
            sv1 = load_record i sv k;
            m = (case kd of READ_SERVER \<Rightarrow> msg_state_read (bookingState (temp sv1))
                 | WRITE_SERVER \<Rightarrow> msg_state_write (bookingState (temp sv1)))
        in (set_request c ((requestP sv1 c)\<lparr>wait_for_write := True\<rparr>) sv1,
            send p (conn_fd (requestP sv c)) m k))"

definition open_read :: "nat \<Rightarrow> nat \<Rightarrow> st \<Rightarrow> st" where
  "open_read p c s =
     (case s of (sv, k) \<Rightarrow>
        let i = lock_slot (rid (requestP sv c))
        in case lock_reg p F_RDLCK (lock_offset (rid (requestP sv c))) 16 k of
             None \<Rightarrow> refuse p c msg_locked (sv, k)
           | Some k' \<Rightarrow>
               show_record READ_SERVER p c
                 (sv\<lparr>readlock := (readlock sv)(i := readlock sv i + 1)\<rparr>, k'))"

definition open_write :: "nat \<Rightarrow> nat \<Rightarrow> st \<Rightarrow> st" where
  "open_write p c s =
     (case s of (sv, k) \<Rightarrow>
        let i = lock_slot (rid (requestP sv c))
        in if \<not> writelock sv i
           then (case lock_reg p F_WRLCK (lock_offset (rid (requestP sv c))) 16 k of
                   None \<Rightarrow> refuse p c msg_locked (sv, k)
                 | Some k' \<Rightarrow>
                     show_record WRITE_SERVER p c (sv\<lparr>writelock := (writelock sv)(i := True)\<rparr>, k'))
           else refuse p c msg_locked (sv, k))"

definition enter_id :: "kind \<Rightarrow> nat \<Rightarrow> nat \<Rightarrow> read_result \<Rightarrow> st \<Rightarrow> st outcome" where
  "enter_id kd p c r s =
     (case s of (sv, k) \<Rightarrow>
        case handle_read (requestP sv c) r of
          Exit \<Rightarrow> Exit
        | Undef \<Rightarrow> Undef
        | Ok (ret, rq) \<Rightarrow>
            if ret \<le> 0 then Ok (endConnection p c (set_request c rq sv, k))
            else case check_id rq of (rq', valid) \<Rightarrow>
              let s1 = (set_request c rq' sv, k)
              in if \<not> valid then Ok (refuse p c msg_error s1)
                 else case kd of READ_SERVER \<Rightarrow> Ok (open_read p c s1)
                      | WRITE_SERVER \<Rightarrow> Ok (open_write p c s1))"

section \<open>The client speaks after its id\<close>

definition leave_read :: "nat \<Rightarrow> nat \<Rightarrow> st \<Rightarrow> st" where
  "leave_read p c s =
     (case s of (sv, k) \<Rightarrow>
        let i = lock_slot (rid (requestP sv c));
            sv1 = sv\<lparr>readlock := (readlock sv)(i := readlock sv i - 1)\<rparr>;
            k1 = (if readlock sv1 i = 0 then unlock p c sv1 k else k)
        in endConnection p c (sv1, k1))"

definition after_id_read :: "nat \<Rightarrow> nat \<Rightarrow> read_result \<Rightarrow> st \<Rightarrow> st outcome" where
  "after_id_read p c r s =
     (case s of (sv, k) \<Rightarrow>
        case handle_read (requestP sv c) r of
          Exit \<Rightarrow> Exit
        | Undef \<Rightarrow> Undef
        | Ok (ret, rq) \<Rightarrow>
            let s1 = (set_request c rq sv, k)
            in if ret \<le> 0 then Ok (leave_read p c s1)
               else if strcmp ''Exit'' (cstr (buf rq)) = 0 then Ok (leave_read p c s1)
               else Ok s1)"

definition leave_write :: "nat \<Rightarrow> nat \<Rightarrow> st \<Rightarrow> st" where
  "leave_write p c s =
     (case s of (sv, k) \<Rightarrow>
        let i = lock_slot (rid (requestP sv c))
        in endConnection p c (sv\<lparr>writelock := (writelock sv)(i := False)\<rparr>, unlock p c sv k))"

definition leave_write_with :: "nat \<Rightarrow> nat \<Rightarrow> string \<Rightarrow> st \<Rightarrow> st" where
  "leave_write_with p c msg s =
     (case s of (sv, k) \<Rightarrow> leave_write p c (sv, send p (conn_fd (requestP sv c)) msg k))"

definition new_state :: "cint list \<Rightarrow> cint \<times> cint \<times> cint \<Rightarrow> cint list" where
  "new_state bs m = (case m of (m0, m1, m2) \<Rightarrow> map2 (+) bs [m0, m1, m2])"

definition sum_state :: "cint list \<Rightarrow> cint" where
  "sum_state bs = foldl (+) 0 bs"

definition apply_booking :: "nat \<Rightarrow> nat \<Rightarrow> cint \<times> cint \<times> cint \<Rightarrow> st \<Rightarrow> st" where
  "apply_booking p c m s =
     (case s of (sv, k) \<Rightarrow>
        let i = lock_slot (rid (requestP sv c));
            sv1 = load_record i sv k;
            new = new_state (bookingState (temp sv1)) m
        in if c_less 15 (sum_state new) then leave_write_with p c msg_over (sv1, k)
           else if list_ex (\<lambda>x. c_less x 0) new then leave_write_with p c msg_under (sv1, k)
           else
             let sv2 = load_record i sv1 k;
                 sv3 = sv2\<lparr>temp := (temp sv2)\<lparr>bookingState := new\<rparr>\<rparr>;
                 k1 = send p (conn_fd (requestP sv3 c)) (msg_updated (rid (requestP sv3 c)) new) k
             in leave_write p c (store_record i (sv3, k1)))"

text \<open>\<open>junk\<close>: what the three uninitialised \<open>int\<close>s on the stack hold.\<close>

definition after_id_write ::
  "nat \<Rightarrow> nat \<Rightarrow> read_result \<Rightarrow> cint \<times> cint \<times> cint \<Rightarrow> st \<Rightarrow> st outcome" where
  "after_id_write p c r junk s =
     (case s of (sv, k) \<Rightarrow>
        case handle_read (requestP sv c) r of
          Exit \<Rightarrow> Exit
        | Undef \<Rightarrow> Undef
        | Ok (ret, rq) \<Rightarrow>
            let s1 = (set_request c rq sv, k)
            in if ret \<le> 0 then Ok (leave_write p c s1)
               else
                 let line = cstr (buf rq); m = sscanf_3d line junk
                 in if strcmp (case m of (a, b, d) \<Rightarrow> fmt_3d a b d) line \<noteq> 0
                    then Ok (leave_write_with p c msg_error s1)
                    else Ok (apply_booking p c m s1))"

section \<open>The select loop\<close>

definition serve ::
  "kind \<Rightarrow> nat \<Rightarrow> nat \<Rightarrow> read_result \<Rightarrow> cint \<times> cint \<times> cint \<Rightarrow> st \<Rightarrow> st outcome" where
  "serve kd p c r junk s =
     (if \<not> wait_for_write (requestP (fst s) c) then enter_id kd p c r s
      else case kd of READ_SERVER \<Rightarrow> after_id_read p c r s
           | WRITE_SERVER \<Rightarrow> after_id_write p c r junk s)"

text \<open>\<open>accept\<close> fails with an errno that is retried, with another one, or gives a descriptor.\<close>

datatype accept_result = Acc_again | Acc_fail | Acc_ok nat string

definition accept_conn :: "nat \<Rightarrow> accept_result \<Rightarrow> st \<Rightarrow> st outcome" where
  "accept_conn p a s =
     (case s of (sv, k) \<Rightarrow>
        case a of
          Acc_again \<Rightarrow> Ok s
        | Acc_fail \<Rightarrow> Exit
        | Acc_ok fd h \<Rightarrow>
            Ok (set_request fd ((requestP sv fd)\<lparr>conn_fd := int fd, host := h\<rparr>)
                  (sv\<lparr>master_set := insert fd (master_set sv)\<rparr>),
                send p (int fd) msg_ask k))"

record loop_input =
  li_ready :: "nat set"
  li_accept :: accept_result
  li_read :: read_result
  li_junk :: "cint \<times> cint \<times> cint"

definition loop_iter :: "kind \<Rightarrow> nat \<Rightarrow> loop_input \<Rightarrow> st \<Rightarrow> st outcome" where
  "loop_iter kd p inp s =
     (case s of (sv, k) \<Rightarrow>
        if li_ready inp = {} then Ok s
        else if listen_fd sv \<in> li_ready inp then accept_conn p (li_accept inp) s
        else case find (\<lambda>i. i \<in> li_ready inp) [3..<maxfd sv] of
               None \<Rightarrow> Ok s
             | Some c \<Rightarrow> serve kd p c (li_read inp) (li_junk inp) s)"

text \<open>
  \<open>init_server\<close> and the start of \<open>main\<close>: \<open>mem\<close> is what \<open>malloc\<close> returned, \<open>lfd\<close>
  the listening descriptor, \<open>n\<close> the size of the descriptor table.
\<close>

definition init_server :: "nat \<Rightarrow> nat \<Rightarrow> string \<Rightarrow> (nat \<Rightarrow> request) \<Rightarrow> nat \<Rightarrow> request" where
  "init_server lfd n hostname mem =
     (let tbl = (\<lambda>i. if i < n then init_request (mem i) else mem i)
      in tbl(lfd := (tbl lfd)\<lparr>conn_fd := int lfd, host := hostname\<rparr>))"

definition start_server :: "nat \<Rightarrow> nat \<Rightarrow> string \<Rightarrow> (nat \<Rightarrow> request) \<Rightarrow> server" where
  "start_server lfd n hostname mem =
     \<lparr>requestP = init_server lfd n hostname mem, readlock = (\<lambda>_. 0), writelock = (\<lambda>_. False),
      temp = \<lparr>b_id = 0, bookingState = [0, 0, 0]\<rparr>, master_set = {lfd}, listen_fd = lfd,
      maxfd = n, fpos = 0\<rparr>"

section \<open>Lines and commands\<close>

lemma cstr_take_line [simp]:
  "NUL \<notin> set s \<Longrightarrow> cstr (buf (take_line rq s p)) = take p s"
  using cstr_append_NUL [of "take p s" "drop (p + 1) (buf rq)"]
  by (auto simp: take_line_def dest: in_set_takeD)

lemma take_line_frame [simp]:
  "conn_fd (take_line rq s p) = conn_fd rq" "rid (take_line rq s p) = rid rq"
  "wait_for_write (take_line rq s p) = wait_for_write rq" "host (take_line rq s p) = host rq"
  by (simp_all add: take_line_def)

text \<open>A line the client ends with LF, or CR LF, arrives whole and without its end.\<close>

lemma handle_read_line:
  assumes "NUL \<notin> set s" "LF \<notin> set s" "CR \<notin> set s" "length s < 510" "e = [LF] \<or> e = [CR, LF]"
  shows "\<exists>rq'. handle_read rq (Rd_data (s @ e)) = Ok (1, rq') \<and> cstr (buf rq') = s
     \<and> rid rq' = rid rq \<and> conn_fd rq' = conn_fd rq \<and> wait_for_write rq' = wait_for_write rq"
proof -
  have clean: "NUL \<notin> set (s @ e)" and ne: "s @ e \<noteq> []" using assms(1,5) by auto
  have "512 - length (s @ e) = Suc (511 - length (s @ e))" using assms(4,5) by auto
  then have b: "fill_buf (s @ e) = (s @ e) @ NUL # replicate (511 - length (s @ e)) NUL"
    by (simp only: fill_buf_def replicate.simps)
  then have NUL: "NUL \<in> set (fill_buf (s @ e))" by simp
  have cs: "cstr (fill_buf (s @ e)) = s @ e"
    unfolding b using clean by (rule cstr_append_NUL)
  have "strstr (s @ e) [CR, LF] = Some (length s)
    \<or> strstr (s @ e) [CR, LF] = None \<and> strstr (s @ e) [LF] = Some (length s)"
  proof (cases "e = [LF]")
    case True
    have "CR \<notin> set (s @ e)" using assms(3) True by simp
    then show ?thesis
      using strstr_char_notin [of CR "s @ e" "[LF]"] strstr_at [of LF s "[]" "[]"] assms(2) True by simp
  next
    case False
    then have "e = [CR, LF]" using assms(5) by blast
    then show ?thesis using strstr_at [of CR s "[LF]" "[]"] assms(3) by simp
  qed
  then have "handle_read rq (Rd_data (s @ e)) = Ok (1, take_line rq (s @ e) (length s))"
    using NUL ne by (auto simp only: handle_read_def read_result.case Let_def cs if_False
        option.case not_True_eq_False if_True not_not)
  moreover have "cstr (buf (take_line rq (s @ e) (length s))) = s"
    using clean by simp
  ultimately show ?thesis by simp
qed

lemma handle_read_frame:
  "handle_read rq r = Ok (ret, rq') \<Longrightarrow>
     rid rq' = rid rq \<and> conn_fd rq' = conn_fd rq \<and> wait_for_write rq' = wait_for_write rq"
  by (auto simp: handle_read_def Let_def split: read_result.splits if_splits option.splits)

lemma id_loop_digits: "id_loop s v \<longleftrightarrow> (if s = [] then v else list_all isdigit s)"
  by (induction s v rule: id_loop.induct) auto

end
