(* ===== verification/Booking_Inv.thy ===== *)
theory Booking_Inv
  imports Booking_Server
begin

text \<open>
  The invariant of one csiebooking server and its agreement with the kernel's
  lock table. A session is an open connection whose id has been accepted.
  \<open>sv_inv\<close> ties the two lock arrays to the sessions: \<open>readlock[i]\<close> counts
  them, \<open>writelock[i]\<close> says there is exactly one. \<open>lock_view\<close> says that the
  process holds precisely the 16 bytes of each id it has a session on. Every
  handler keeps both and leaves the locks of other processes alone.
\<close>


definition valid_rid :: "cint \<Rightarrow> bool" where
  "valid_rid r \<longleftrightarrow> 902001 \<le> sint r \<and> sint r \<le> 902020"

definition sessions :: "server \<Rightarrow> nat \<Rightarrow> nat set" where
  "sessions sv i = {c \<in> master_set sv. wait_for_write (requestP sv c)
                      \<and> lock_slot (rid (requestP sv c)) = i}"

definition region :: "nat \<Rightarrow> int \<Rightarrow> bool" where
  "region i b \<longleftrightarrow> 16 * (902000 + int i - 1) \<le> b \<and> b < 16 * (902000 + int i)"

definition lock_kind :: "kind \<Rightarrow> ltype" where
  "lock_kind kd = (case kd of READ_SERVER \<Rightarrow> F_RDLCK | WRITE_SERVER \<Rightarrow> F_WRLCK)"

definition counters_ok :: "kind \<Rightarrow> server \<Rightarrow> bool" where
  "counters_ok kd sv \<longleftrightarrow>
     (case kd of
        READ_SERVER \<Rightarrow> \<forall>i. readlock sv i = word_of_nat (card (sessions sv i))
      | WRITE_SERVER \<Rightarrow> \<forall>i. card (sessions sv i) = (if writelock sv i then 1 else 0))"

definition sv_base :: "server \<Rightarrow> bool" where
  "sv_base sv \<longleftrightarrow>
     master_set sv \<subseteq> {..<maxfd sv} \<and> maxfd sv < 2 ^ 31 \<and> listen_fd sv \<in> master_set sv
     \<and> (\<forall>c<maxfd sv. wait_for_write (requestP sv c) \<longrightarrow>
          c \<in> master_set sv \<and> c \<noteq> listen_fd sv \<and> valid_rid (rid (requestP sv c)))
     \<and> (\<forall>c\<in>master_set sv. conn_fd (requestP sv c) = int c)
     \<and> length (bookingState (temp sv)) = 3"

definition sv_inv :: "kind \<Rightarrow> server \<Rightarrow> bool" where
  "sv_inv kd sv \<longleftrightarrow> sv_base sv \<and> counters_ok kd sv"

definition lock_view :: "kind \<Rightarrow> nat \<Rightarrow> server \<Rightarrow> kernel \<Rightarrow> bool" where
  "lock_view kd p sv k \<longleftrightarrow>
     (\<forall>t b. fl_holds (locks k) p t b \<longleftrightarrow>
        t = lock_kind kd \<and> (\<exists>i. region i b \<and> sessions sv i \<noteq> {}))"

definition kernel_ok :: "kernel \<Rightarrow> bool" where
  "kernel_ok k \<longleftrightarrow> fl_wf (locks k) \<and> locks_compatible (fl_holds (locks k))"

text \<open>What a handler of process \<open>p\<close> guarantees.\<close>

definition keeps :: "kind \<Rightarrow> nat \<Rightarrow> st \<Rightarrow> st \<Rightarrow> bool" where
  "keeps kd p s s' \<longleftrightarrow>
     (case s of (sv, k) \<Rightarrow> case s' of (sv', k') \<Rightarrow>
        sv_inv kd sv' \<and> lock_view kd p sv' k' \<and> kernel_ok k'
        \<and> (\<forall>q t b. q \<noteq> p \<longrightarrow> fl_holds (locks k') q t b = fl_holds (locks k) q t b))"

lemma lock_kind_neq [simp]: "lock_kind kd \<noteq> F_UNLCK"
  by (cases kd) (simp_all add: lock_kind_def)

lemma region_unique: "region i b \<Longrightarrow> region j b \<Longrightarrow> i = j"
  by (auto simp: region_def)

lemma region_inhabited: "region i (16 * (902000 + int i - 1))"
  by (simp add: region_def)

section \<open>Ids, slots and offsets\<close>

lemma sint_numeral_cint [simp]:
  "sint (902000 :: cint) = 902000" "sint (1 :: cint) = 1" "sint (20 :: cint) = 20" "sint (15 :: cint) = 15"
  by simp_all

lemma valid_rid_index:
  "valid_rid r \<Longrightarrow> sint (id_index r) = sint r - 902000"
  unfolding id_index_def by (subst sint_sub) (simp_all add: valid_rid_def int_fits_def)

lemma valid_rid_slot:
  "valid_rid r \<Longrightarrow> int (lock_slot r) = sint r - 902000"
  by (simp add: lock_slot_def valid_rid_index) (simp add: valid_rid_def)

lemma valid_rid_slot_range: "valid_rid r \<Longrightarrow> 1 \<le> lock_slot r \<and> lock_slot r \<le> 20"
  using valid_rid_slot [of r] by (auto simp: valid_rid_def)

lemma sint_of_int64: "- (2 ^ 63) \<le> k \<Longrightarrow> k < 2 ^ 63 \<Longrightarrow> sint (word_of_int k :: 64 word) = k"
  by (simp add: sint_sbintrunc' signed_take_bit_int_eq_self)

lemma lock_offset_valid:
  assumes "valid_rid r"
  shows "lock_offset r = 16 * (902000 + int (lock_slot r) - 1)"
proof -
  have b: "902001 \<le> sint r" "sint r \<le> 902020" using assms by (simp_all add: valid_rid_def)
  have s: "sint (r - 1) = sint r - 1"
    by (subst sint_sub) (use b in \<open>simp_all add: int_fits_def\<close>)
  have "16 * word_of_int (sint (r - 1)) = (word_of_int (16 * (sint r - 1)) :: 64 word)"
    unfolding s by simp
  then have "lock_offset r = sint (word_of_int (16 * (sint r - 1)) :: 64 word)"
    unfolding lock_offset_def by (rule arg_cong)
  also have "\<dots> = 16 * (sint r - 1)"
    by (rule sint_of_int64) (use b in simp_all)
  finally show ?thesis using valid_rid_slot [OF assms] by simp
qed

lemma region_offset:
  "valid_rid r \<Longrightarrow> region (lock_slot r) b \<longleftrightarrow> lock_offset r \<le> b \<and> b < lock_offset r + 16"
  by (auto simp: region_def lock_offset_valid)

lemma check_id_valid:
  "check_id rq = (rq', True) \<Longrightarrow> valid_rid (rid rq') \<and> rq' = rq\<lparr>rid := atoi (cstr (buf rq))\<rparr>"
proof -
  assume a: "check_id rq = (rq', True)"
  let ?i = "atoi (cstr (buf rq))"
  have r: "rq' = rq\<lparr>rid := ?i\<rparr>" and i: "1 \<le> sint (id_index ?i)" "sint (id_index ?i) \<le> 20"
    using a by (auto simp: check_id_def Let_def c_less_def split: if_splits)
  have "?i = id_index ?i + 902000" by (simp add: id_index_def)
  then have "sint ?i = sint (id_index ?i + 902000)" by (rule arg_cong)
  also have "\<dots> = sint (id_index ?i) + 902000"
    by (subst sint_add) (use i in \<open>simp_all add: int_fits_def\<close>)
  finally show ?thesis using i r by (simp add: valid_rid_def)
qed

section \<open>Opening and closing a session\<close>

lemma finite_sessions [simp]: "sv_inv kd sv \<Longrightarrow> finite (sessions sv i)"
  by (rule finite_subset [of _ "{..<maxfd sv}"]) (auto simp: sv_inv_def sv_base_def sessions_def)

lemma card_sessions: "sv_inv kd sv \<Longrightarrow> card (sessions sv i) < 2 ^ 31"
proof -
  assume inv: "sv_inv kd sv"
  then have "sessions sv i \<subseteq> {..<maxfd sv}" by (auto simp: sv_inv_def sv_base_def sessions_def)
  then have "card (sessions sv i) \<le> maxfd sv" by (metis card_lessThan card_mono finite_lessThan)
  with inv show ?thesis by (simp add: sv_inv_def sv_base_def)
qed

lemma kernel_ok_cong: "kernel_ok k \<Longrightarrow> locks k' = locks k \<Longrightarrow> kernel_ok k'"
  by (simp add: kernel_ok_def)

text \<open>
  A granted lock on the bytes of id \<open>r\<close> is what the lock view of the table with
  one more session asks for.
\<close>

lemma lock_reg_grant:
  assumes ok: "kernel_ok k" and view: "lock_view kd p sv k" and r: "valid_rid r"
    and lock: "lock_reg p (lock_kind kd) (lock_offset r) 16 k = Some k'"
    and sess: "\<And>i. sessions sv' i = (if i = lock_slot r then insert c (sessions sv i) else sessions sv i)"
  shows "lock_view kd p sv' k'" and "kernel_ok k'"
    and "q \<noteq> p \<Longrightarrow> fl_holds (locks k') q t b = fl_holds (locks k) q t b"
proof -
  obtain ls where ls: "fcntl_setlk p (lock_kind kd) (lock_offset r) (lock_offset r + 16) (locks k) = Some ls"
    and k': "k' = k\<lparr>locks := ls\<rparr>"
    using lock by (auto simp: lock_reg_def)
  have wf: "fl_wf (locks k)" and comp: "locks_compatible (fl_holds (locks k))"
    using ok by (simp_all add: kernel_ok_def)
  have se: "lock_offset r < lock_offset r + 16" by simp
  note new = fcntl.lock_holds [OF wf se lock_kind_neq ls]
  show "lock_view kd p sv' k'"
    unfolding lock_view_def
  proof (intro allI)
    fix t b
    have new': "fl_holds (locks k') p t b \<longleftrightarrow>
      (if region (lock_slot r) b then t = lock_kind kd else fl_holds (locks k) p t b)"
      unfolding k' region_offset [OF r] by (simp add: new)
    show "fl_holds (locks k') p t b \<longleftrightarrow> t = lock_kind kd \<and> (\<exists>i. region i b \<and> sessions sv' i \<noteq> {})"
    proof (cases "region (lock_slot r) b")
      case True
      then show ?thesis using new' sess [of "lock_slot r"] by auto
    next
      case False
      then have "\<forall>i. region i b \<longrightarrow> sessions sv' i = sessions sv i" using sess by auto
      with False view new' show ?thesis by (auto simp: lock_view_def)
    qed
  qed
  show "kernel_ok k'"
    unfolding kernel_ok_def k'
    using fcntl.setlk_wf [OF wf se ls] fcntl.compatible_setlk [OF wf se ls comp] by simp
  show "q \<noteq> p \<Longrightarrow> fl_holds (locks k') q t b = fl_holds (locks k) q t b"
    unfolding k' by (simp add: new)
qed

text \<open>Unlocking the bytes of an id on which no session is left.\<close>

lemma unlock_view:
  assumes ok: "kernel_ok k" and view: "lock_view kd p sv k" and r: "valid_rid (rid (requestP sv0 c))"
    and sess: "\<And>i. i \<noteq> lock_slot (rid (requestP sv0 c)) \<Longrightarrow> sessions sv' i = sessions sv i"
    and empty: "sessions sv' (lock_slot (rid (requestP sv0 c))) = {}"
  shows "lock_view kd p sv' (unlock p c sv0 k)" and "kernel_ok (unlock p c sv0 k)"
    and "q \<noteq> p \<Longrightarrow> fl_holds (locks (unlock p c sv0 k)) q t b = fl_holds (locks k) q t b"
proof -
  let ?r = "rid (requestP sv0 c)"
  obtain ls where ls: "fcntl_setlk p F_UNLCK (lock_offset ?r) (lock_offset ?r + 16) (locks k) = Some ls"
    using fcntl.unlock_total by fastforce
  then have k': "unlock p c sv0 k = k\<lparr>locks := ls\<rparr>"
    by (simp add: unlock_def lock_reg_def)
  have wf: "fl_wf (locks k)" and comp: "locks_compatible (fl_holds (locks k))"
    using ok by (simp_all add: kernel_ok_def)
  have se: "lock_offset ?r < lock_offset ?r + 16" by simp
  note new = fcntl.unlock_holds [OF wf se ls]
  show "lock_view kd p sv' (unlock p c sv0 k)"
    unfolding lock_view_def
  proof (intro allI)
    fix t b
    have new': "fl_holds (locks (unlock p c sv0 k)) p t b \<longleftrightarrow>
      fl_holds (locks k) p t b \<and> \<not> region (lock_slot ?r) b"
      unfolding k' region_offset [OF r] by (simp add: new)
    show "fl_holds (locks (unlock p c sv0 k)) p t b \<longleftrightarrow>
      t = lock_kind kd \<and> (\<exists>i. region i b \<and> sessions sv' i \<noteq> {})"
    proof (cases "region (lock_slot ?r) b")
      case True
      then have "\<not> (\<exists>i. region i b \<and> sessions sv' i \<noteq> {})"
        using region_unique [of _ b "lock_slot ?r"] empty by blast
      with True show ?thesis unfolding new' by blast
    next
      case False
      then have "region i b \<Longrightarrow> sessions sv' i = sessions sv i" for i
        using sess [of i] by blast
      with False view new' show ?thesis by (auto simp: lock_view_def)
    qed
  qed
  show "kernel_ok (unlock p c sv0 k)"
    unfolding kernel_ok_def k'
    using fcntl.setlk_wf [OF wf se ls] fcntl.compatible_setlk [OF wf se ls comp] by simp
  show "q \<noteq> p \<Longrightarrow> fl_holds (locks (unlock p c sv0 k)) q t b = fl_holds (locks k) q t b"
    unfolding k' by (simp add: new)
qed

section \<open>The request table\<close>

lemma sessions_set_request:
  "c \<in> master_set sv \<Longrightarrow> sessions (set_request c rq sv) i =
     (if wait_for_write rq \<and> lock_slot (rid rq) = i then insert c (sessions sv i)
      else sessions sv i - {c})"
  by (auto simp: sessions_def set_request_def)

lemma sessions_frame:
  "sessions (sv\<lparr>readlock := rl\<rparr>) i = sessions sv i"
  "sessions (sv\<lparr>writelock := wl\<rparr>) i = sessions sv i"
  "sessions (sv\<lparr>temp := t\<rparr>) i = sessions sv i"
  "sessions (sv\<lparr>fpos := o'\<rparr>) i = sessions sv i"
  by (simp_all add: sessions_def)

lemma sessions_endConnection:
  "endConnection p c (sv, k) = (sv', k') \<Longrightarrow> sessions sv' i = sessions sv i - {c}"
  by (auto simp: sessions_def set_request_def endConnection_def)

lemma endConnection_frame:
  "endConnection p c (sv, k) = (sv', k') \<Longrightarrow>
     locks k' = locks k \<and> disk k' = disk k \<and> readlock sv' = readlock sv
     \<and> writelock sv' = writelock sv \<and> temp sv' = temp sv
     \<and> listen_fd sv' = listen_fd sv \<and> maxfd sv' = maxfd sv"
  by (auto simp: set_request_def endConnection_def close_fd_def)

lemma base_frame:
  "sv_base (sv\<lparr>readlock := rl\<rparr>) = sv_base sv"
  "sv_base (sv\<lparr>writelock := wl\<rparr>) = sv_base sv"
  "sv_base (sv\<lparr>fpos := o'\<rparr>) = sv_base sv"
  by (simp_all add: sv_base_def)

lemma base_temp: "sv_base sv \<Longrightarrow> length (bookingState t) = 3 \<Longrightarrow> sv_base (sv\<lparr>temp := t\<rparr>)"
  by (simp add: sv_base_def)

lemma base_set_request:
  "\<lbrakk>sv_base sv; c \<in> master_set sv; conn_fd rq = int c;
    wait_for_write rq \<Longrightarrow> c \<noteq> listen_fd sv \<and> valid_rid (rid rq)\<rbrakk> \<Longrightarrow> sv_base (set_request c rq sv)"
  by (auto simp: sv_base_def set_request_def)

lemma base_endConnection:
  assumes "sv_base sv" "c \<noteq> listen_fd sv" "endConnection p c (sv, k) = (sv', k')"
  shows "sv_base sv'"
proof -
  have sv': "sv' = set_request c (free_request (requestP sv c)) (sv\<lparr>master_set := master_set sv - {c}\<rparr>)"
    using assms(3) by (simp add: endConnection_def)
  show ?thesis
    using assms(1,2) unfolding sv' sv_base_def set_request_def free_request_def init_request_def
    by auto
qed

lemma counters_cong:
  "\<lbrakk>counters_ok kd sv; readlock sv' = readlock sv; writelock sv' = writelock sv;
    \<And>i. sessions sv' i = sessions sv i\<rbrakk> \<Longrightarrow> counters_ok kd sv'"
  by (cases kd) (simp_all add: counters_ok_def)

lemma lock_view_cong:
  "\<lbrakk>lock_view kd p sv k; locks k' = locks k; \<And>i. (sessions sv' i = {}) = (sessions sv i = {})\<rbrakk> \<Longrightarrow>
    lock_view kd p sv' k'"
  by (simp add: lock_view_def)

lemma keepsI:
  "\<lbrakk>sv_base sv'; counters_ok kd sv'; lock_view kd p sv' k'; kernel_ok k';
    \<And>q t b. q \<noteq> p \<Longrightarrow> fl_holds (locks k') q t b = fl_holds (locks k) q t b\<rbrakk> \<Longrightarrow>
    keeps kd p (sv, k) (sv', k')"
  by (simp add: keeps_def sv_inv_def)

text \<open>A step that touches no session and no lock.\<close>

lemma keeps_quiet:
  assumes "sv_inv kd sv" "lock_view kd p sv k" "kernel_ok k" "sv_base sv'" "locks k' = locks k"
    and "readlock sv' = readlock sv" "writelock sv' = writelock sv"
    and "\<And>i. sessions sv' i = sessions sv i"
  shows "keeps kd p (sv, k) (sv', k')"
proof (rule keepsI)
  show "counters_ok kd sv'"
    by (rule counters_cong [of kd sv]) (use assms in \<open>simp_all add: sv_inv_def\<close>)
  show "lock_view kd p sv' k'"
    by (rule lock_view_cong [of kd p sv k]) (use assms in simp_all)
  show "kernel_ok k'" by (rule kernel_ok_cong [of k]) (use assms in simp_all)
qed (use assms in simp_all)

lemma not_session: "\<not> wait_for_write (requestP sv c) \<Longrightarrow> sessions sv i - {c} = sessions sv i"
  by (auto simp: sessions_def)

lemma endConnection_keeps:
  assumes inv: "sv_inv kd sv" and view: "lock_view kd p sv k" and ok: "kernel_ok k"
    and c: "c \<noteq> listen_fd sv" "\<not> wait_for_write (requestP sv c)"
  shows "keeps kd p (sv, k) (endConnection p c (sv, k))"
proof -
  obtain sv' k' where e: "endConnection p c (sv, k) = (sv', k')" by fastforce
  note frame = endConnection_frame [OF e]
  show ?thesis unfolding e
  proof (rule keeps_quiet [OF inv view ok])
    show "sv_base sv'"
      using base_endConnection [OF _ c(1) e] inv by (simp add: sv_inv_def)
    show "sessions sv' i = sessions sv i" for i
      using sessions_endConnection [OF e] not_session [OF c(2)] by simp
  qed (use frame in simp_all)
qed

lemma refuse_keeps:
  assumes inv: "sv_inv kd sv" and view: "lock_view kd p sv k" and ok: "kernel_ok k"
    and c: "c \<noteq> listen_fd sv" "\<not> wait_for_write (requestP sv c)"
  shows "keeps kd p (sv, k) (refuse p c msg (sv, k))"
proof -
  let ?k = "send p (conn_fd (requestP sv c)) msg k"
  have l: "locks ?k = locks k" by (simp add: send_def)
  have "keeps kd p (sv, ?k) (endConnection p c (sv, ?k))"
  proof (rule endConnection_keeps [OF inv _ _ c])
    show "lock_view kd p sv ?k" by (rule lock_view_cong [OF view l]) simp
    show "kernel_ok ?k" using ok l by (rule kernel_ok_cong)
  qed
  then show ?thesis by (simp add: refuse_def keeps_def l split: prod.splits)
qed

section \<open>Opening\<close>

lemma load_record_frame:
  "requestP (load_record i sv k) = requestP sv" "readlock (load_record i sv k) = readlock sv"
  "writelock (load_record i sv k) = writelock sv" "master_set (load_record i sv k) = master_set sv"
  "listen_fd (load_record i sv k) = listen_fd sv" "maxfd (load_record i sv k) = maxfd sv"
  "length (bookingState (temp (load_record i sv k))) = 3"
  by (simp_all add: load_record_def Let_def)

lemma base_load_record: "sv_base sv \<Longrightarrow> sv_base (load_record i sv k)"
  by (simp add: sv_base_def load_record_frame)

lemma sessions_load_record [simp]: "sessions (load_record i sv k) j = sessions sv j"
  by (simp add: sessions_def load_record_frame)

lemma base_conn: "sv_base sv \<Longrightarrow> c \<in> master_set sv \<Longrightarrow> conn_fd (requestP sv c) = int c"
  by (simp add: sv_base_def)

text \<open>\<open>show_record\<close> marks the request as past its id: one more session.\<close>

lemma show_record_effect:
  assumes "show_record kd p c (sv, k) = (sv', k')" and base: "sv_base sv" and c: "c \<in> master_set sv"
    "c \<noteq> listen_fd sv" and r: "valid_rid (rid (requestP sv c))"
  shows "sv_base sv'" "locks k' = locks k" "disk k' = disk k" "readlock sv' = readlock sv" "writelock sv' = writelock sv"
    and "sessions sv' i = (if i = lock_slot (rid (requestP sv c)) then insert c (sessions sv i)
                           else sessions sv i - {c})"
proof -
  let ?i = "lock_slot (rid (requestP sv c))" and ?rq = "(requestP sv c)\<lparr>wait_for_write := True\<rparr>"
  let ?m = "case kd of READ_SERVER \<Rightarrow> msg_state_read (bookingState (temp (load_record ?i sv k)))
     | WRITE_SERVER \<Rightarrow> msg_state_write (bookingState (temp (load_record ?i sv k)))"
  have sv': "sv' = set_request c ?rq (load_record ?i sv k)" and k': "k' = send p (conn_fd (requestP sv c)) ?m k"
    using assms(1) by (simp_all add: show_record_def Let_def load_record_frame)
  show "sv_base sv'"
    unfolding sv' by (rule base_set_request) (use base c r in
      \<open>simp_all add: base_load_record load_record_frame base_conn\<close>)
  show "locks k' = locks k" "disk k' = disk k" by (simp_all add: k' send_def)
  show "readlock sv' = readlock sv" "writelock sv' = writelock sv"
    by (simp_all add: sv' set_request_def load_record_frame)
  show "sessions sv' i = (if i = ?i then insert c (sessions sv i) else sessions sv i - {c})"
    unfolding sv' using c by (simp add: sessions_set_request load_record_frame)
qed

lemma open_session_keeps:
  assumes inv: "sv_inv kd sv" and view: "lock_view kd p sv k" and ok: "kernel_ok k"
    and c: "c \<in> master_set sv" "c \<noteq> listen_fd sv" "\<not> wait_for_write (requestP sv c)"
    and r: "valid_rid (rid (requestP sv c))"
    and lock: "lock_reg p (lock_kind kd) (lock_offset (rid (requestP sv c))) 16 k = Some k1"
    and show_r: "show_record kd p c (sv1, k1) = (sv', k')"
    and sv1: "sv_base sv1" "requestP sv1 = requestP sv" "master_set sv1 = master_set sv" "listen_fd sv1 = listen_fd sv"
    and counters: "(\<And>i. sessions sv' i = (if i = lock_slot (rid (requestP sv c))
        then insert c (sessions sv i) else sessions sv i)) \<Longrightarrow> counters_ok kd sv'"
  shows "keeps kd p (sv, k) (sv', k')"
proof -
  let ?i = "lock_slot (rid (requestP sv c))"
  have eff: "sv_base sv'" "locks k' = locks k1"
    "sessions sv' i = (if i = ?i then insert c (sessions sv i) else sessions sv i)" for i
    using show_record_effect [OF show_r sv1(1)] c r sv1 not_session [OF c(3)]
    by (auto simp: sessions_def)
  note grant = lock_reg_grant [OF ok view r lock eff(3)]
  show ?thesis
  proof (rule keepsI)
    show "lock_view kd p sv' k'" by (rule lock_view_cong [OF grant(1) eff(2)]) simp
    show "kernel_ok k'" using grant(2) eff(2) by (rule kernel_ok_cong)
    show "counters_ok kd sv'" using eff(3) by (rule counters)
  qed (use eff grant(3) in simp_all)
qed

lemma fresh_session: "\<not> wait_for_write (requestP sv c) \<Longrightarrow> c \<notin> sessions sv i"
  by (simp add: sessions_def)

lemma open_read_keeps:
  assumes inv: "sv_inv READ_SERVER sv" and view: "lock_view READ_SERVER p sv k" and ok: "kernel_ok k"
    and c: "c \<in> master_set sv" "c \<noteq> listen_fd sv" "\<not> wait_for_write (requestP sv c)"
    and r: "valid_rid (rid (requestP sv c))"
  shows "keeps READ_SERVER p (sv, k) (open_read p c (sv, k))"
proof (cases "lock_reg p F_RDLCK (lock_offset (rid (requestP sv c))) 16 k")
  case None
  then show ?thesis using refuse_keeps [OF inv view ok c(2,3)] by (simp add: open_read_def)
next
  case (Some k1)
  let ?i = "lock_slot (rid (requestP sv c))"
  let ?sv1 = "sv\<lparr>readlock := (readlock sv)(?i := readlock sv ?i + 1)\<rparr>"
  obtain sv' k' where s': "show_record READ_SERVER p c (?sv1, k1) = (sv', k')" by fastforce
  have base: "sv_base ?sv1" using inv by (simp add: sv_inv_def base_frame)
  have rl: "readlock sv' = readlock ?sv1"
    using show_record_effect(4) [OF s' base] c r by simp
  have "keeps READ_SERVER p (sv, k) (sv', k')"
  proof (rule open_session_keeps [OF inv view ok c r _ s' base])
    show "lock_reg p (lock_kind READ_SERVER) (lock_offset (rid (requestP sv c))) 16 k = Some k1"
      using Some by (simp add: lock_kind_def)
    assume sess: "\<And>i. sessions sv' i = (if i = ?i then insert c (sessions sv i) else sessions sv i)"
    show "counters_ok READ_SERVER sv'"
      using inv fresh_session [OF c(3)]
      by (auto simp: counters_ok_def sess rl sv_inv_def finite_sessions [OF inv])
  qed simp_all
  then show ?thesis using Some s' by (simp add: open_read_def Let_def)
qed

lemma open_write_keeps:
  assumes inv: "sv_inv WRITE_SERVER sv" and view: "lock_view WRITE_SERVER p sv k" and ok: "kernel_ok k"
    and c: "c \<in> master_set sv" "c \<noteq> listen_fd sv" "\<not> wait_for_write (requestP sv c)"
    and r: "valid_rid (rid (requestP sv c))"
  shows "keeps WRITE_SERVER p (sv, k) (open_write p c (sv, k))"
proof (cases "\<not> writelock sv (lock_slot (rid (requestP sv c)))
    \<and> lock_reg p F_WRLCK (lock_offset (rid (requestP sv c))) 16 k \<noteq> None")
  case False
  then show ?thesis using refuse_keeps [OF inv view ok c(2,3)]
    by (auto simp: open_write_def Let_def)
next
  case True
  let ?i = "lock_slot (rid (requestP sv c))"
  let ?sv1 = "sv\<lparr>writelock := (writelock sv)(?i := True)\<rparr>"
  obtain k1 where k1: "lock_reg p F_WRLCK (lock_offset (rid (requestP sv c))) 16 k = Some k1"
    using True by blast
  obtain sv' k' where s': "show_record WRITE_SERVER p c (?sv1, k1) = (sv', k')" by fastforce
  have base: "sv_base ?sv1" using inv by (simp add: sv_inv_def base_frame)
  have wl: "writelock sv' = writelock ?sv1"
    using show_record_effect(5) [OF s' base] c r by simp
  have "keeps WRITE_SERVER p (sv, k) (sv', k')"
  proof (rule open_session_keeps [OF inv view ok c r _ s' base])
    show "lock_reg p (lock_kind WRITE_SERVER) (lock_offset (rid (requestP sv c))) 16 k = Some k1"
      using k1 by (simp add: lock_kind_def)
    assume sess: "\<And>i. sessions sv' i = (if i = ?i then insert c (sessions sv i) else sessions sv i)"
    have "card (sessions sv ?i) = 0"
      using inv True by (simp add: sv_inv_def counters_ok_def)
    then have "sessions sv ?i = {}" using finite_sessions [OF inv] by simp
    then show "counters_ok WRITE_SERVER sv'"
      using inv by (auto simp: counters_ok_def sess wl sv_inv_def)
  qed simp_all
  then show ?thesis using True k1 s' by (simp add: open_write_def Let_def)
qed

section \<open>Lines read into a request\<close>

lemma keeps_start: "keeps kd p (sv1, k) s' \<Longrightarrow> keeps kd p (sv2, k) s'"
  by (simp add: keeps_def)

lemma set_request_inv:
  assumes inv: "sv_inv kd sv" and view: "lock_view kd p sv k" and c: "c \<in> master_set sv" "c \<noteq> listen_fd sv"
    and rq: "conn_fd rq = conn_fd (requestP sv c)" "wait_for_write rq = wait_for_write (requestP sv c)"
    "wait_for_write rq \<Longrightarrow> rid rq = rid (requestP sv c)"
  shows "sv_inv kd (set_request c rq sv)" "lock_view kd p (set_request c rq sv) k"
    and "sessions (set_request c rq sv) i = sessions sv i"
proof -
  have sess: "sessions (set_request c rq sv) i = sessions sv i" for i
    using c rq by (auto simp: sessions_set_request) (auto simp: sessions_def)
  have base: "sv_base sv" "c < maxfd sv" using inv c by (auto simp: sv_inv_def sv_base_def)
  have "counters_ok kd (set_request c rq sv)"
    by (rule counters_cong [of kd sv]) (use inv sess in \<open>simp_all add: sv_inv_def set_request_def\<close>)
  moreover have "sv_base (set_request c rq sv)"
    by (rule base_set_request [OF base(1) c(1)])
      (use base rq c base_conn [OF base(1) c(1)] in \<open>simp_all add: sv_base_def\<close>)
  ultimately show "sv_inv kd (set_request c rq sv)" by (simp add: sv_inv_def)
  show "lock_view kd p (set_request c rq sv) k" by (rule lock_view_cong [OF view]) (simp_all add: sess)
  show "sessions (set_request c rq sv) i = sessions sv i" by (rule sess)
qed

lemma set_request_frame:
  "master_set (set_request c rq sv) = master_set sv" "listen_fd (set_request c rq sv) = listen_fd sv"
  "requestP (set_request c rq sv) c = rq"
  by (simp_all add: set_request_def)

lemma check_id_frame:
  "check_id rq = (rq', v) \<Longrightarrow> conn_fd rq' = conn_fd rq \<and> wait_for_write rq' = wait_for_write rq"
  by (auto simp: check_id_def Let_def split: if_splits)

lemma enter_id_keeps:
  assumes inv: "sv_inv kd sv" and view: "lock_view kd p sv k" and ok: "kernel_ok k"
    and c: "c \<in> master_set sv" "c \<noteq> listen_fd sv" "\<not> wait_for_write (requestP sv c)"
    and e: "enter_id kd p c r (sv, k) = Ok s'"
  shows "keeps kd p (sv, k) s'"
proof -
  obtain ret rq where h: "handle_read (requestP sv c) r = Ok (ret, rq)"
    using e by (auto simp: enter_id_def split: outcome.splits)
  note f = handle_read_frame [OF h]
  obtain rq' v where chk: "check_id rq = (rq', v)" by fastforce
  note f' = check_id_frame [OF chk]
  have i1: "sv_inv kd (set_request c rq sv)" "lock_view kd p (set_request c rq sv) k"
    using set_request_inv [OF inv view c(1,2), of rq] f c(3) by simp_all
  have i2: "sv_inv kd (set_request c rq' sv)" "lock_view kd p (set_request c rq' sv) k"
    using set_request_inv [OF inv view c(1,2), of rq'] f f' c(3) by simp_all
  note c1 = set_request_frame [of c rq sv] and c2 = set_request_frame [of c rq' sv]
  show ?thesis
  proof (cases "ret \<le> 0")
    case True
    then have "s' = endConnection p c (set_request c rq sv, k)"
      using e h by (simp add: enter_id_def)
    then show ?thesis
      using endConnection_keeps [OF i1 ok, of c] c f c1 by (auto intro: keeps_start)
  next
    case False
    note w = i2 ok
    have nw: "\<not> wait_for_write rq'" using f f' c(3) by simp
    show ?thesis
    proof (cases v)
      case False
      then have "s' = refuse p c msg_error (set_request c rq' sv, k)"
        using e h \<open>\<not> ret \<le> 0\<close> chk by (simp add: enter_id_def Let_def)
      then show ?thesis
        using refuse_keeps [OF w, of c msg_error] c nw c2 by (auto intro: keeps_start)
    next
      case True
      have "check_id rq = (rq', True)" using chk True by simp
      then have r: "valid_rid (rid rq')" using check_id_valid by blast
      have "s' = (case kd of READ_SERVER \<Rightarrow> open_read p c (set_request c rq' sv, k)
                 | WRITE_SERVER \<Rightarrow> open_write p c (set_request c rq' sv, k))"
        using e h \<open>\<not> ret \<le> 0\<close> chk True by (cases kd) (simp_all add: enter_id_def Let_def)
      then show ?thesis
        using open_read_keeps [of "set_request c rq' sv" p k c] open_write_keeps [of "set_request c rq' sv" p k c]
          w r c nw c2 by (cases kd) (auto intro: keeps_start)
    qed
  qed
qed

section \<open>Closing\<close>

lemma session_facts:
  assumes inv: "sv_inv kd sv" and c: "c \<in> master_set sv" "wait_for_write (requestP sv c)"
  shows "c \<in> sessions sv (lock_slot (rid (requestP sv c)))" "valid_rid (rid (requestP sv c))"
    "c \<noteq> listen_fd sv"
    and "i \<noteq> lock_slot (rid (requestP sv c)) \<Longrightarrow> sessions sv i - {c} = sessions sv i"
  using assms by (auto simp: sessions_def sv_inv_def sv_base_def)

lemma leave_read_keeps:
  assumes inv: "sv_inv READ_SERVER sv" and view: "lock_view READ_SERVER p sv k" and ok: "kernel_ok k"
    and c: "c \<in> master_set sv" "wait_for_write (requestP sv c)"
  shows "keeps READ_SERVER p (sv, k) (leave_read p c (sv, k))"
proof -
  let ?i = "lock_slot (rid (requestP sv c))"
  let ?sv1 = "sv\<lparr>readlock := (readlock sv)(?i := readlock sv ?i - 1)\<rparr>"
  let ?k1 = "if readlock ?sv1 ?i = 0 then unlock p c ?sv1 k else k"
  note f = session_facts [OF inv c]
  obtain sv' k' where s': "endConnection p c (?sv1, ?k1) = (sv', k')" by fastforce
  note frame = endConnection_frame [OF s']
  have sess: "sessions sv' j = sessions sv j - {c}" for j
    using sessions_endConnection [OF s'] by (simp add: sessions_frame)
  have fin: "finite (sessions sv j)" for j using inv by simp
  have pos: "card (sessions sv ?i) = Suc (card (sessions sv' ?i))"
    unfolding sess using f(1) fin by (metis card_Suc_Diff1)
  have rl: "readlock sv j = word_of_nat (card (sessions sv j))" for j
    using inv by (simp add: sv_inv_def counters_ok_def)
  have rl': "readlock ?sv1 ?i = word_of_nat (card (sessions sv' ?i))"
    by (simp add: rl pos)
  have small: "card (sessions sv' ?i) < 2 ^ 31"
    using card_sessions [OF inv, of ?i] pos by simp
  have zero: "readlock ?sv1 ?i = 0 \<longleftrightarrow> sessions sv' ?i = {}"
  proof -
    have "readlock ?sv1 ?i = 0 \<longleftrightarrow> sint (readlock ?sv1 ?i) = 0"
      using sint_inject [of "readlock ?sv1 ?i" 0] by simp
    also have "\<dots> \<longleftrightarrow> card (sessions sv' ?i) = 0" unfolding rl' sint_of_nat [OF small] by simp
    finally show ?thesis using fin sess by simp
  qed
  have "keeps READ_SERVER p (sv, k) (sv', k')"
  proof (rule keepsI)
    show "sv_base sv'"
      using base_endConnection [OF _ _ s'] inv f(3) by (simp add: sv_inv_def base_frame)
    show "counters_ok READ_SERVER sv'"
      using rl rl' frame f(4) by (auto simp: counters_ok_def sess pos)
    have k': "locks k' = locks ?k1" using frame by simp
    have "lock_view READ_SERVER p sv' ?k1 \<and> kernel_ok ?k1 \<and>
      (\<forall>q t b. q \<noteq> p \<longrightarrow> fl_holds (locks ?k1) q t b = fl_holds (locks k) q t b)"
    proof (cases "readlock ?sv1 ?i = 0")
      case True
      then have "sessions sv' ?i = {}" using zero by blast
      then show ?thesis
        using True unlock_view [OF ok view, where ?sv0.0 = ?sv1 and c = c and sv' = sv'] f(2,4) sess
        by simp
    next
      case False
      then have "(sessions sv' j = {}) = (sessions sv j = {})" for j
        using f(1,4) zero sess by (cases "j = ?i") auto
      then have "lock_view READ_SERVER p sv' k" by (rule lock_view_cong [OF view refl])
      with False ok show ?thesis by simp
    qed
    then show "lock_view READ_SERVER p sv' k'" "kernel_ok k'"
      "q \<noteq> p \<Longrightarrow> fl_holds (locks k') q t b = fl_holds (locks k) q t b" for q t b
      using k' lock_view_cong [of READ_SERVER p sv' ?k1 k' sv'] kernel_ok_cong [of ?k1 k'] by metis+
  qed
  then show ?thesis using s' by (simp add: leave_read_def Let_def)
qed

lemma leave_write_keeps:
  assumes inv: "sv_inv WRITE_SERVER sv" and view: "lock_view WRITE_SERVER p sv k" and ok: "kernel_ok k"
    and c: "c \<in> master_set sv" "wait_for_write (requestP sv c)"
  shows "keeps WRITE_SERVER p (sv, k) (leave_write p c (sv, k))"
proof -
  let ?i = "lock_slot (rid (requestP sv c))"
  let ?sv1 = "sv\<lparr>writelock := (writelock sv)(?i := False)\<rparr>"
  note f = session_facts [OF inv c]
  obtain sv' k' where s': "endConnection p c (?sv1, unlock p c sv k) = (sv', k')" by fastforce
  note frame = endConnection_frame [OF s']
  have sess: "sessions sv' j = sessions sv j - {c}" for j
    using sessions_endConnection [OF s'] by (simp add: sessions_frame)
  have fin: "finite (sessions sv j)" for j using inv by simp
  have one: "card (sessions sv j) = (if writelock sv j then 1 else 0)" for j
    using inv by (simp add: sv_inv_def counters_ok_def)
  have "card (sessions sv ?i) \<le> 1" using one by simp
  then have "\<forall>d\<in>sessions sv ?i. d = c"
    using f(1) card_le_Suc0_iff_eq [OF fin [of ?i]] by auto
  then have empty: "sessions sv' ?i = {}" using sess by auto
  note ul = unlock_view [OF ok view f(2), of sv']
  have "keeps WRITE_SERVER p (sv, k) (sv', k')"
  proof (rule keepsI)
    show "sv_base sv'"
      using base_endConnection [OF _ _ s'] inv f(3) by (simp add: sv_inv_def base_frame)
    show "counters_ok WRITE_SERVER sv'"
      using one frame f(4) empty by (auto simp: counters_ok_def) (simp_all add: sess)
    have k': "locks k' = locks (unlock p c sv k)" using frame by simp
    have u: "lock_view WRITE_SERVER p sv' (unlock p c sv k)" "kernel_ok (unlock p c sv k)"
      using ul sess f(4) empty by simp_all
    show "lock_view WRITE_SERVER p sv' k'" by (rule lock_view_cong [OF u(1) k']) simp
    show "kernel_ok k'" using u(2) k' by (rule kernel_ok_cong)
    show "q \<noteq> p \<Longrightarrow> fl_holds (locks k') q t b = fl_holds (locks k) q t b" for q t b
      using ul(3) sess f(4) empty k' by simp
  qed
  then show ?thesis using s' by (simp add: leave_write_def Let_def)
qed

section \<open>Bookings\<close>

text \<open>Loading and changing \<open>temp\<close>, and sending, disturb neither the sessions nor the locks.\<close>

lemma temp_inv:
  assumes inv: "sv_inv kd sv" and view: "lock_view kd p sv k"
    and same: "requestP sv' = requestP sv" "master_set sv' = master_set sv" "readlock sv' = readlock sv"
    "writelock sv' = writelock sv" "listen_fd sv' = listen_fd sv" "maxfd sv' = maxfd sv"
    "length (bookingState (temp sv')) = 3" "locks k' = locks k"
  shows "sv_inv kd sv'" "lock_view kd p sv' k'"
proof -
  have sess: "sessions sv' i = sessions sv i" for i by (simp add: sessions_def same)
  have "counters_ok kd sv'"
    by (rule counters_cong [of kd sv]) (use inv same sess in \<open>simp_all add: sv_inv_def\<close>)
  then show "sv_inv kd sv'" using inv same by (simp add: sv_inv_def sv_base_def)
  show "lock_view kd p sv' k'" by (rule lock_view_cong [OF view same(8)]) (simp add: sess)
qed

lemma keeps_frame_start:
  "keeps kd p (sv1, k1) s' \<Longrightarrow> locks k1 = locks k2 \<Longrightarrow> keeps kd p (sv2, k2) s'"
  by (auto simp: keeps_def)

lemma leave_write_with_keeps:
  assumes inv: "sv_inv WRITE_SERVER sv" and view: "lock_view WRITE_SERVER p sv k" and ok: "kernel_ok k"
    and c: "c \<in> master_set sv" "wait_for_write (requestP sv c)"
  shows "keeps WRITE_SERVER p (sv, k) (leave_write_with p c msg (sv, k))"
proof -
  let ?k = "send p (conn_fd (requestP sv c)) msg k"
  have l: "locks ?k = locks k" by (simp add: send_def)
  have "keeps WRITE_SERVER p (sv, ?k) (leave_write p c (sv, ?k))"
    by (rule leave_write_keeps [OF inv _ _ c])
      (rule lock_view_cong [OF view l], simp, rule kernel_ok_cong [OF ok l])
  then show ?thesis unfolding leave_write_with_def using l by (auto intro: keeps_frame_start)
qed

lemma store_record_frame:
  "store_record i (sv, k) = (sv', k') \<Longrightarrow>
     requestP sv' = requestP sv \<and> master_set sv' = master_set sv \<and> readlock sv' = readlock sv
     \<and> writelock sv' = writelock sv \<and> listen_fd sv' = listen_fd sv \<and> maxfd sv' = maxfd sv
     \<and> temp sv' = temp sv \<and> locks k' = locks k"
  by (auto simp: store_record_def)

lemma length_new_state [simp]: "length bs = 3 \<Longrightarrow> length (new_state bs m) = 3"
  by (simp add: new_state_def split: prod.splits)

lemma apply_booking_keeps:
  assumes inv: "sv_inv WRITE_SERVER sv" and view: "lock_view WRITE_SERVER p sv k" and ok: "kernel_ok k"
    and c: "c \<in> master_set sv" "wait_for_write (requestP sv c)"
  shows "keeps WRITE_SERVER p (sv, k) (apply_booking p c m (sv, k))"
proof -
  let ?i = "lock_slot (rid (requestP sv c))"
  let ?sv1 = "load_record ?i sv k"
  let ?new = "new_state (bookingState (temp ?sv1)) m"
  let ?sv2 = "load_record ?i ?sv1 k"
  let ?sv3 = "?sv2\<lparr>temp := (temp ?sv2)\<lparr>bookingState := ?new\<rparr>\<rparr>"
  let ?k1 = "send p (conn_fd (requestP ?sv3 c)) (msg_updated (rid (requestP ?sv3 c)) ?new) k"
  obtain sv4 k2 where st: "store_record ?i (?sv3, ?k1) = (sv4, k2)" by fastforce
  note fr = store_record_frame [OF st]
  have f1: "requestP ?sv1 = requestP sv" "master_set ?sv1 = master_set sv"
    by (simp_all add: load_record_frame)
  have i1: "sv_inv WRITE_SERVER ?sv1" "lock_view WRITE_SERVER p ?sv1 k"
    by (rule temp_inv [OF inv view]; simp add: load_record_frame)+
  have lw: "keeps WRITE_SERVER p (sv, k) (leave_write_with p c msg (?sv1, k))" for msg
    using leave_write_with_keeps [OF i1 ok, of c msg] c f1 by (auto intro: keeps_start)
  have l2: "locks k2 = locks k" using fr by (simp add: send_def)
  have i4: "sv_inv WRITE_SERVER sv4" "lock_view WRITE_SERVER p sv4 k2"
    by (rule temp_inv [OF inv view]; use fr l2 in \<open>simp add: load_record_frame\<close>)+
  have "keeps WRITE_SERVER p (sv4, k2) (leave_write p c (sv4, k2))"
    by (rule leave_write_keeps [OF i4 kernel_ok_cong [OF ok l2]])
      (use c fr in \<open>simp_all add: load_record_frame\<close>)
  then have "keeps WRITE_SERVER p (sv, k) (leave_write p c (store_record ?i (?sv3, ?k1)))"
    unfolding st using l2 by (rule keeps_frame_start)
  then show ?thesis using lw by (simp add: apply_booking_def Let_def)
qed

section \<open>Every iteration keeps the invariant\<close>

lemma after_id_keeps:
  assumes inv: "sv_inv kd sv" and view: "lock_view kd p sv k" and ok: "kernel_ok k"
    and c: "c \<in> master_set sv" "wait_for_write (requestP sv c)"
    and e: "(case kd of READ_SERVER \<Rightarrow> after_id_read p c r (sv, k)
             | WRITE_SERVER \<Rightarrow> after_id_write p c r junk (sv, k)) = Ok s'"
  shows "keeps kd p (sv, k) s'"
proof -
  obtain ret rq where h: "handle_read (requestP sv c) r = Ok (ret, rq)"
    using e by (cases kd) (auto simp: after_id_read_def after_id_write_def split: outcome.splits)
  note f = handle_read_frame [OF h]
  have cl: "c \<noteq> listen_fd sv" using session_facts [OF inv c] by simp
  let ?sv1 = "set_request c rq sv"
  have i1: "sv_inv kd ?sv1" "lock_view kd p ?sv1 k" "\<And>i. sessions ?sv1 i = sessions sv i"
    using set_request_inv [OF inv view c(1) cl, of rq] f by simp_all
  have c1: "c \<in> master_set ?sv1" "wait_for_write (requestP ?sv1 c)"
    using c f by (simp_all add: set_request_frame)
  have quiet: "keeps kd p (sv, k) (?sv1, k)"
    using i1 ok by (simp add: keeps_def)
  show ?thesis
  proof (cases kd)
    case READ_SERVER
    then have "s' = leave_read p c (?sv1, k) \<or> s' = (?sv1, k)"
      using e h by (auto simp: after_id_read_def Let_def split: if_splits)
    then show ?thesis
      using quiet leave_read_keeps [of ?sv1 p k c] i1 ok c1 READ_SERVER by (auto intro: keeps_start)
  next
    case WRITE_SERVER
    let ?m = "sscanf_3d (cstr (buf rq)) junk"
    have "s' = leave_write p c (?sv1, k) \<or> s' = leave_write_with p c msg_error (?sv1, k)
       \<or> s' = apply_booking p c ?m (?sv1, k)"
      using e h WRITE_SERVER by (auto simp: after_id_write_def Let_def split: if_splits)
    then show ?thesis
      using leave_write_keeps [of ?sv1 p k c] leave_write_with_keeps [of ?sv1 p k c msg_error]
        apply_booking_keeps [of ?sv1 p k c ?m] i1 ok c1 WRITE_SERVER by (auto intro: keeps_start)
  qed
qed

lemma serve_keeps:
  assumes "sv_inv kd sv" "lock_view kd p sv k" "kernel_ok k" "c \<in> master_set sv" "c \<noteq> listen_fd sv"
    and "serve kd p c r junk (sv, k) = Ok s'"
  shows "keeps kd p (sv, k) s'"
proof (cases "wait_for_write (requestP sv c)")
  case True
  with assms show ?thesis
    by (intro after_id_keeps [of kd sv p k c r junk]) (simp_all add: serve_def)
next
  case False
  with assms show ?thesis by (intro enter_id_keeps) (simp_all add: serve_def)
qed

text \<open>
  What the system calls of one iteration may return: \<open>select\<close> reports members of
  the set it was given, \<open>accept\<close> an unused descriptor, \<open>read\<close> at most 512 bytes.
\<close>

definition input_ok :: "server \<Rightarrow> loop_input \<Rightarrow> bool" where
  "input_ok sv inp \<longleftrightarrow>
     li_ready inp \<subseteq> master_set sv
     \<and> (case li_accept inp of Acc_ok fd _ \<Rightarrow> fd \<notin> master_set sv \<and> fd < maxfd sv | _ \<Rightarrow> True)
     \<and> (case li_read inp of Rd_data bs \<Rightarrow> length bs \<le> 512 | Rd_err \<Rightarrow> True)"

lemma accept_keeps:
  assumes inv: "sv_inv kd sv" and view: "lock_view kd p sv k" and ok: "kernel_ok k"
    and a: "accept_conn p a (sv, k) = Ok s'"
    and fd: "\<And>fd h. a = Acc_ok fd h \<Longrightarrow> fd \<notin> master_set sv \<and> fd < maxfd sv"
  shows "keeps kd p (sv, k) s'"
proof (cases a)
  case Acc_again
  then have "s' = (sv, k)" using a by (simp add: accept_conn_def)
  with inv view ok show ?thesis by (simp add: keeps_def)
next
  case Acc_fail
  with a show ?thesis by (simp add: accept_conn_def)
next
  case (Acc_ok c h)
  let ?rq = "(requestP sv c)\<lparr>conn_fd := int c, host := h\<rparr>"
  let ?sv' = "set_request c ?rq (sv\<lparr>master_set := insert c (master_set sv)\<rparr>)"
  have s': "s' = (?sv', send p (int c) msg_ask k)" using a Acc_ok by (simp add: accept_conn_def)
  have new: "c \<notin> master_set sv" "c < maxfd sv" using fd Acc_ok by auto
  then have nw: "\<not> wait_for_write (requestP sv c)" using inv by (auto simp: sv_inv_def sv_base_def)
  show ?thesis unfolding s'
  proof (rule keeps_quiet [OF inv view ok])
    show "sv_base ?sv'"
      using inv new unfolding sv_inv_def sv_base_def set_request_def by auto
    show "sessions ?sv' i = sessions sv i" for i
      using nw by (auto simp: sessions_def set_request_def)
  qed (simp_all add: send_def set_request_def)
qed

lemma loop_iter_keeps:
  assumes "sv_inv kd sv" "lock_view kd p sv k" "kernel_ok k" "input_ok sv inp"
    and e: "loop_iter kd p inp (sv, k) = Ok s'"
  shows "keeps kd p (sv, k) s'"
proof -
  have same: "keeps kd p (sv, k) (sv, k)" using assms(1-3) by (simp add: keeps_def)
  show ?thesis
  proof (cases "li_ready inp = {} \<or> listen_fd sv \<in> li_ready inp")
    case True
    have fd: "li_accept inp = Acc_ok fd h \<Longrightarrow> fd \<notin> master_set sv \<and> fd < maxfd sv" for fd h
      using assms(4) by (simp add: input_ok_def)
    show ?thesis
      using True e same accept_keeps [OF assms(1-3) _ fd, of "li_accept inp" s']
      by (auto simp: loop_iter_def split: if_splits)
  next
    case False
    then have *: "s' = (sv, k) \<or> (\<exists>c. c \<in> li_ready inp \<and> serve kd p c (li_read inp) (li_junk inp) (sv, k) = Ok s')"
      using e by (auto simp: loop_iter_def find_Some_iff split: option.splits)
    then show ?thesis
    proof
      assume "\<exists>c. c \<in> li_ready inp \<and> serve kd p c (li_read inp) (li_junk inp) (sv, k) = Ok s'"
      then obtain c where c: "c \<in> li_ready inp" "serve kd p c (li_read inp) (li_junk inp) (sv, k) = Ok s'"
        by blast
      then show ?thesis
        using False assms(4) by (intro serve_keeps [OF assms(1-3) _ _ c(2)]) (auto simp: input_ok_def)
    qed (simp add: same)
  qed
qed

lemma start_server_inv:
  assumes "lfd < n" "n < 2 ^ 31"
  shows "sv_inv kd (start_server lfd n hn mem)" and "sessions (start_server lfd n hn mem) i = {}"
proof -
  have sess: "sessions (start_server lfd n hn mem) i = {}" for i
    using assms by (auto simp: sessions_def start_server_def init_server_def init_request_def Let_def)
  show "sessions (start_server lfd n hn mem) i = {}" by (rule sess)
  have "counters_ok kd (start_server lfd n hn mem)"
    by (cases kd) (simp_all add: counters_ok_def sess, simp_all add: start_server_def)
  then show "sv_inv kd (start_server lfd n hn mem)"
    using assms by (auto simp: sv_inv_def sv_base_def start_server_def init_server_def init_request_def Let_def)
qed

end
