(* ===== verification/Booking_System.thy ===== *)
theory Booking_System
  imports Booking_Inv
begin

text \<open>
  Several csiebooking servers on one record file: the processes, read servers
  and write servers in any number, that share the kernel. A step starts a
  process, runs one iteration of its \<open>select\<close> loop, or ends it; the kernel
  drops the locks of a process that ends. The lemmas say what one iteration
  may do to the file, that every reachable world agrees with the lock table,
  and from that the exclusion the README promises.
\<close>

section \<open>What an iteration does to the file\<close>

definition within_limits :: "cint list \<Rightarrow> bool" where
  "within_limits bs \<longleftrightarrow> \<not> c_less 15 (sum_state bs) \<and> list_all (\<lambda>x. \<not> c_less x 0) bs"

text \<open>\<open>wrote sv sv' i d d'\<close>: a session on id \<open>i\<close> ended and its record was rewritten.\<close>

definition wrote :: "server \<Rightarrow> server \<Rightarrow> nat \<Rightarrow> byte list \<Rightarrow> byte list \<Rightarrow> bool" where
  "wrote sv sv' i d d' \<longleftrightarrow>
     (\<exists>c r. c \<in> sessions sv i \<and> c \<notin> sessions sv' i \<and> length (bookingState r) = 3
        \<and> within_limits (bookingState r) \<and> d' = file_write d (16 * (i - 1)) (record_bytes r))"

lemma disk_unlock [simp]: "disk (unlock p c sv k) = disk k"
  by (auto simp: unlock_def lock_reg_def split: option.splits)

lemma disk_send [simp]: "disk (send p fd s k) = disk k" and locks_send [simp]: "locks (send p fd s k) = locks k"
  by (simp_all add: send_def)

lemma disk_endConnection: "disk (snd (endConnection p c s)) = disk (snd s)"
  by (simp add: endConnection_def close_fd_def split: prod.splits)

lemma disk_refuse: "disk (snd (refuse p c msg s)) = disk (snd s)"
  by (simp add: refuse_def disk_endConnection split: prod.splits)

lemma disk_show_record: "disk (snd (show_record kd p c s)) = disk (snd s)"
  by (simp add: show_record_def Let_def split: prod.splits)

lemma disk_open_read: "disk (snd (open_read p c s)) = disk (snd s)"
  by (auto simp: open_read_def Let_def disk_refuse disk_show_record lock_reg_def
      split: prod.splits option.splits)

lemma disk_open_write: "disk (snd (open_write p c s)) = disk (snd s)"
  by (auto simp: open_write_def Let_def disk_refuse disk_show_record lock_reg_def
      split: prod.splits option.splits)

lemma disk_enter_id: "enter_id kd p c r s = Ok s' \<Longrightarrow> disk (snd s') = disk (snd s)"
  by (auto simp: enter_id_def Let_def disk_endConnection disk_refuse disk_open_read disk_open_write
      split: prod.splits outcome.splits if_splits kind.splits)

lemma disk_leave_read: "disk (snd (leave_read p c s)) = disk (snd s)"
  by (simp add: leave_read_def Let_def disk_endConnection split: prod.splits)

lemma disk_leave_write: "disk (snd (leave_write p c s)) = disk (snd s)"
  by (simp add: leave_write_def Let_def disk_endConnection split: prod.splits)

lemma disk_leave_write_with: "disk (snd (leave_write_with p c msg s)) = disk (snd s)"
  by (simp add: leave_write_with_def disk_leave_write split: prod.splits)

lemma disk_after_id_read: "after_id_read p c r s = Ok s' \<Longrightarrow> disk (snd s') = disk (snd s)"
  by (auto simp: after_id_read_def Let_def disk_leave_read split: prod.splits outcome.splits if_splits)

lemma sessions_leave_write: "c \<notin> sessions (fst (leave_write p c s)) i"
proof -
  obtain sv k where s: "s = (sv, k)" by fastforce
  let ?sv1 = "sv\<lparr>writelock := (writelock sv)(lock_slot (rid (requestP sv c)) := False)\<rparr>"
  obtain sv' k' where e: "endConnection p c (?sv1, unlock p c sv k) = (sv', k')" by fastforce
  then have "fst (leave_write p c s) = sv'" by (simp add: s leave_write_def Let_def)
  then show ?thesis using sessions_endConnection [OF e, of i] by simp
qed

text \<open>\<open>new\<close> is what the stored record adds up to with the command.\<close>

definition booked :: "nat \<Rightarrow> st \<Rightarrow> cint \<times> cint \<times> cint \<Rightarrow> cint list" where
  "booked i s m = (case s of (sv, k) \<Rightarrow> new_state (bookingState (temp (load_record i sv k))) m)"

lemma apply_booking_cases:
  fixes sv k c m
  defines "i \<equiv> lock_slot (rid (requestP sv c))"
  defines "new \<equiv> booked i (sv, k) m"
  shows "c_less 15 (sum_state new) \<Longrightarrow>
      apply_booking p c m (sv, k) = leave_write_with p c msg_over (load_record i sv k, k)"
    and "\<not> c_less 15 (sum_state new) \<Longrightarrow> list_ex (\<lambda>x. c_less x 0) new \<Longrightarrow>
      apply_booking p c m (sv, k) = leave_write_with p c msg_under (load_record i sv k, k)"
    and "within_limits new \<Longrightarrow> \<exists>sv3 k3 r. apply_booking p c m (sv, k) = leave_write p c (sv3, k3)
      \<and> requestP sv3 = requestP sv \<and> locks k3 = locks k
      \<and> length (bookingState r) = 3 \<and> bookingState r = new
      \<and> out k3 = out k @ [(p, Sent (conn_fd (requestP sv c)) (msg_updated (rid (requestP sv c)) new))]
      \<and> disk k3 = file_write (disk k) (16 * (i - 1)) (record_bytes r)"
proof -
  let ?sv1 = "load_record i sv k"
  have new: "new = new_state (bookingState (temp ?sv1)) m" by (simp add: new_def booked_def)
  show "c_less 15 (sum_state new) \<Longrightarrow>
      apply_booking p c m (sv, k) = leave_write_with p c msg_over (load_record i sv k, k)"
    and "\<not> c_less 15 (sum_state new) \<Longrightarrow> list_ex (\<lambda>x. c_less x 0) new \<Longrightarrow>
      apply_booking p c m (sv, k) = leave_write_with p c msg_under (load_record i sv k, k)"
    unfolding new i_def by (simp_all add: apply_booking_def Let_def)
  assume "within_limits new"
  then have lim: "\<not> c_less 15 (sum_state new)" "\<not> list_ex (\<lambda>x. c_less x 0) new"
    by (auto simp: within_limits_def list_all_iff list_ex_iff)
  let ?sv2 = "load_record i ?sv1 k"
  let ?r = "(temp ?sv2)\<lparr>bookingState := new\<rparr>"
  let ?sv3 = "?sv2\<lparr>temp := ?r\<rparr>"
  let ?k1 = "send p (conn_fd (requestP ?sv3 c)) (msg_updated (rid (requestP ?sv3 c)) new) k"
  have "apply_booking p c m (sv, k) = leave_write p c (store_record i (?sv3, ?k1))"
    using lim unfolding new i_def by (simp add: apply_booking_def Let_def)
  moreover have "length new = 3" unfolding new by (simp add: load_record_frame)
  ultimately show "\<exists>sv3 k3 r. apply_booking p c m (sv, k) = leave_write p c (sv3, k3)
      \<and> requestP sv3 = requestP sv \<and> locks k3 = locks k
      \<and> length (bookingState r) = 3 \<and> bookingState r = new
      \<and> out k3 = out k @ [(p, Sent (conn_fd (requestP sv c)) (msg_updated (rid (requestP sv c)) new))]
      \<and> disk k3 = file_write (disk k) (16 * (i - 1)) (record_bytes r)"
    by (intro exI [of _ "fst (store_record i (?sv3, ?k1))"] exI [of _ "snd (store_record i (?sv3, ?k1))"] exI [of _ ?r])
      (simp add: store_record_def load_record_frame send_def)
qed

lemma limits_cases:
  "c_less 15 (sum_state bs) \<or> (\<not> c_less 15 (sum_state bs) \<and> list_ex (\<lambda>x. c_less x 0) bs) \<or> within_limits bs"
  by (auto simp: within_limits_def list_all_iff list_ex_iff)

lemma disk_after_id_write:
  assumes inv: "sv_inv WRITE_SERVER sv" and c: "c \<in> master_set sv" "wait_for_write (requestP sv c)"
    and e: "after_id_write p c r junk (sv, k) = Ok (sv', k')"
  shows "disk k' = disk k \<or> (\<exists>i. 1 \<le> i \<and> i \<le> 20 \<and> wrote sv sv' i (disk k) (disk k'))"
proof -
  obtain ret rq where h: "handle_read (requestP sv c) r = Ok (ret, rq)"
    using e by (auto simp: after_id_write_def split: outcome.splits)
  note f = handle_read_frame [OF h]
  let ?sv1 = "set_request c rq sv" and ?m = "sscanf_3d (cstr (buf rq)) junk"
  have cases: "(sv', k') = leave_write p c (?sv1, k) \<or> (sv', k') = leave_write_with p c msg_error (?sv1, k)
       \<or> (sv', k') = apply_booking p c ?m (?sv1, k)"
    using e h by (auto simp: after_id_write_def Let_def split: if_splits)
  have quiet: "disk k' = disk k" if "(sv', k') = leave_write p c (sv1, k) \<or> (sv', k') = leave_write_with p c msg (sv1, k)" for sv1 msg
    using that disk_leave_write [of p c "(sv1, k)"] disk_leave_write_with [of p c msg "(sv1, k)"]
    by (metis snd_conv)
  show ?thesis
  proof (cases "(sv', k') = apply_booking p c ?m (?sv1, k)")
    case False
    then show ?thesis using cases quiet by blast
  next
    case True
    let ?i = "lock_slot (rid (requestP ?sv1 c))"
    let ?new = "booked ?i (?sv1, k) ?m"
    consider "c_less 15 (sum_state ?new)" | "\<not> c_less 15 (sum_state ?new)" "list_ex (\<lambda>x. c_less x 0) ?new"
      | "within_limits ?new" using limits_cases by blast
    then show ?thesis
    proof cases
      case 1
      then have "(sv', k') = leave_write_with p c msg_over (load_record ?i ?sv1 k, k)"
        using True apply_booking_cases(1) by metis
      then show ?thesis using quiet by blast
    next
      case 2
      then have "(sv', k') = leave_write_with p c msg_under (load_record ?i ?sv1 k, k)"
        using True apply_booking_cases(2) by metis
      then show ?thesis using quiet by blast
    next
      case 3
      obtain sv3 k3 r' where w: "(sv', k') = leave_write p c (sv3, k3)"
        "length (bookingState r') = 3" "bookingState r' = ?new"
        "disk k3 = file_write (disk k) (16 * (?i - 1)) (record_bytes r')"
        using apply_booking_cases(3) [OF 3] True by metis
      have i: "?i = lock_slot (rid (requestP sv c))" using f by (simp add: set_request_def)
      note s = session_facts [OF inv c]
      have "c \<notin> sessions sv' ?i" using sessions_leave_write [of c p "(sv3, k3)" ?i] w(1) by (metis fst_conv)
      moreover have "disk k' = disk k3" using disk_leave_write [of p c "(sv3, k3)"] w(1) by (metis snd_conv)
      ultimately have "wrote sv sv' ?i (disk k) (disk k')"
        unfolding wrote_def using s(1) w 3 i by metis
      then show ?thesis using valid_rid_slot_range [OF s(2)] i by auto
    qed
  qed
qed

lemma disk_accept: "accept_conn p a s = Ok s' \<Longrightarrow> disk (snd s') = disk (snd s)"
  by (auto simp: accept_conn_def split: prod.splits accept_result.splits)

lemma loop_iter_cases:
  assumes e: "loop_iter kd p inp (sv, k) = Ok s'"
  shows "s' = (sv, k) \<or> accept_conn p (li_accept inp) (sv, k) = Ok s'
    \<or> (\<exists>c\<in>li_ready inp. serve kd p c (li_read inp) (li_junk inp) (sv, k) = Ok s')"
proof (cases "find (\<lambda>i. i \<in> li_ready inp) [3..<maxfd sv]")
  case None
  then show ?thesis using e by (simp add: loop_iter_def split: if_splits)
next
  case (Some c)
  then have "c \<in> li_ready inp" by (auto simp: find_Some_iff)
  with Some show ?thesis using e by (auto simp: loop_iter_def split: if_splits)
qed

lemma disk_loop_iter:
  assumes inv: "sv_inv kd sv" and inp: "input_ok sv inp"
    and e: "loop_iter kd p inp (sv, k) = Ok (sv', k')"
  shows "disk k' = disk k \<or> (\<exists>i. 1 \<le> i \<and> i \<le> 20 \<and> kd = WRITE_SERVER \<and> wrote sv sv' i (disk k) (disk k'))"
proof -
  consider "(sv', k') = (sv, k)" | "accept_conn p (li_accept inp) (sv, k) = Ok (sv', k')"
    | c where "c \<in> li_ready inp" "serve kd p c (li_read inp) (li_junk inp) (sv, k) = Ok (sv', k')"
    using loop_iter_cases [OF e] by auto
  then show ?thesis
  proof cases
    case 2
    then show ?thesis using disk_accept by fastforce
  next
    case 3
    then have c: "c \<in> master_set sv" using inp by (auto simp: input_ok_def)
    show ?thesis
    proof (cases "wait_for_write (requestP sv c)")
      case False
      then show ?thesis using 3(2) disk_enter_id by (fastforce simp: serve_def)
    next
      case True
      show ?thesis
      proof (cases kd)
        case READ_SERVER
        then have "after_id_read p c (li_read inp) (sv, k) = Ok (sv', k')"
          using 3(2) True by (simp add: serve_def)
        then show ?thesis using disk_after_id_read by fastforce
      next
        case WRITE_SERVER
        then have "after_id_write p c (li_read inp) (li_junk inp) (sv, k) = Ok (sv', k')"
          using 3(2) True by (simp add: serve_def)
        then show ?thesis
          using disk_after_id_write [OF _ c True] inv WRITE_SERVER by blast
      qed
    qed
  qed simp
qed

section \<open>Processes sharing the file\<close>

record world =
  procs :: "nat \<Rightarrow> (kind \<times> server) option"
  kern :: kernel

definition init_world :: "byte list \<Rightarrow> world" where
  "init_world d = \<lparr>procs = Map.empty, kern = \<lparr>disk = d, locks = [], out = []\<rparr>\<rparr>"

definition end_process :: "nat \<Rightarrow> world \<Rightarrow> world" where
  "end_process p w =
     \<lparr>procs = (procs w)(p := None), kern = (kern w)\<lparr>locks := fcntl_release p (locks (kern w))\<rparr>\<rparr>"

inductive wstep :: "world \<Rightarrow> world \<Rightarrow> bool" where
  start: "\<lbrakk>procs w p = None; lfd < n; n < 2 ^ 31\<rbrakk> \<Longrightarrow>
    wstep w (w\<lparr>procs := (procs w)(p \<mapsto> (kd, start_server lfd n hn mem))\<rparr>)"
| iter: "\<lbrakk>procs w p = Some (kd, sv); input_ok sv inp; loop_iter kd p inp (sv, kern w) = Ok (sv', k')\<rbrakk> \<Longrightarrow>
    wstep w \<lparr>procs = (procs w)(p \<mapsto> (kd, sv')), kern = k'\<rparr>"
| exits: "\<lbrakk>procs w p = Some (kd, sv); input_ok sv inp; loop_iter kd p inp (sv, kern w) = Exit\<rbrakk> \<Longrightarrow>
    wstep w (end_process p w)"
| killed: "procs w p = Some (kd, sv) \<Longrightarrow> wstep w (end_process p w)"

inductive reachable :: "byte list \<Rightarrow> world \<Rightarrow> bool" for d where
  init: "reachable d (init_world d)"
| step: "reachable d w \<Longrightarrow> wstep w w' \<Longrightarrow> reachable d w'"

inductive_cases wstepE: "wstep w w'"

definition world_inv :: "world \<Rightarrow> bool" where
  "world_inv w \<longleftrightarrow> kernel_ok (kern w)
     \<and> (\<forall>p kd sv. procs w p = Some (kd, sv) \<longrightarrow> sv_inv kd sv \<and> lock_view kd p sv (kern w))
     \<and> (\<forall>p t b. procs w p = None \<longrightarrow> \<not> fl_holds (locks (kern w)) p t b)"

lemma world_inv_init: "world_inv (init_world d)"
  by (simp add: world_inv_def init_world_def kernel_ok_def fl_wf_def locks_compatible_def)

lemma lock_view_other:
  "lock_view kd q sv k \<Longrightarrow> (\<And>t b. fl_holds (locks k') q t b = fl_holds (locks k) q t b) \<Longrightarrow> lock_view kd q sv k'"
  by (simp add: lock_view_def)

lemma world_inv_end: "world_inv w \<Longrightarrow> world_inv (end_process p w)"
  unfolding world_inv_def end_process_def kernel_ok_def
  using fcntl.release_wf fcntl.compatible_release
  by (auto simp: fcntl.release_holds intro: lock_view_other [where k = "kern w"] split: if_splits)

lemma world_inv_iter:
  assumes w: "world_inv w" and p: "procs w p = Some (kd, sv)" and inp: "input_ok sv inp"
    and e: "loop_iter kd p inp (sv, kern w) = Ok (sv', k')"
  shows "world_inv \<lparr>procs = (procs w)(p \<mapsto> (kd, sv')), kern = k'\<rparr>"
proof -
  have "sv_inv kd sv" "lock_view kd p sv (kern w)" "kernel_ok (kern w)"
    using w p by (auto simp: world_inv_def)
  from loop_iter_keeps [OF this inp e] have k: "sv_inv kd sv'" "lock_view kd p sv' k'" "kernel_ok k'"
    and fr: "\<And>q t b. q \<noteq> p \<Longrightarrow> fl_holds (locks k') q t b = fl_holds (locks (kern w)) q t b"
    by (auto simp: keeps_def)
  have "lock_view kd' q sv0 k'" if "q \<noteq> p" "procs w q = Some (kd', sv0)" for q kd' sv0
    using lock_view_other [of kd' q sv0 "kern w" k'] w that fr by (auto simp: world_inv_def)
  then show ?thesis
    using w k fr p by (auto simp: world_inv_def)
qed

lemma world_inv_step: "wstep w w' \<Longrightarrow> world_inv w \<Longrightarrow> world_inv w'"
proof (induction rule: wstep.induct)
  case (start w p lfd n kd hn mem)
  have "lock_view kd p (start_server lfd n hn mem) (kern w)"
    using start by (auto simp: lock_view_def start_server_inv world_inv_def)
  then show ?case using start start_server_inv(1) by (auto simp: world_inv_def)
next
  case (iter w p kd sv inp sv' k')
  then show ?case using world_inv_iter by blast
qed (auto intro: world_inv_end)

lemma reachable_inv: "reachable d w \<Longrightarrow> world_inv w"
  by (induction rule: reachable.induct) (auto intro: world_inv_init world_inv_step)

lemma reachable_sv: "reachable d w \<Longrightarrow> procs w p = Some (kd, sv) \<Longrightarrow>
    sv_inv kd sv \<and> lock_view kd p sv (kern w) \<and> kernel_ok (kern w)"
  using reachable_inv by (auto simp: world_inv_def)

section \<open>Exclusion\<close>

lemma session_lock:
  "lock_view kd p sv k \<Longrightarrow> sessions sv i \<noteq> {} \<Longrightarrow>
    fl_holds (locks k) p (lock_kind kd) (16 * (902000 + int i - 1))"
  using region_inhabited [of i] by (auto simp: lock_view_def)

lemma compatible_owner:
  "locks_compatible h \<Longrightarrow> h p F_WRLCK b \<Longrightarrow> h q t b \<Longrightarrow> q = p"
  unfolding locks_compatible_def by metis

lemma write_exclusive:
  assumes "world_inv w" "procs w p = Some (WRITE_SERVER, sv)" "procs w q = Some (kd, sv2)"
    and c: "c \<in> sessions sv i" and c2: "c2 \<in> sessions sv2 i"
  shows "q = p \<and> c2 = c"
proof -
  have inv: "sv_inv WRITE_SERVER sv" and v: "lock_view WRITE_SERVER p sv (kern w)" "lock_view kd q sv2 (kern w)"
    and comp: "locks_compatible (fl_holds (locks (kern w)))"
    using assms(1-3) by (auto simp: world_inv_def kernel_ok_def)
  have "fl_holds (locks (kern w)) p F_WRLCK (16 * (902000 + int i - 1))"
    using session_lock [OF v(1), of i] c by (auto simp: lock_kind_def)
  moreover have "fl_holds (locks (kern w)) q (lock_kind kd) (16 * (902000 + int i - 1))"
    using session_lock [OF v(2), of i] c2 by auto
  ultimately have q: "q = p" using compatible_owner [OF comp] by blast
  then have "sv2 = sv" using assms(2,3) by simp
  moreover have "card (sessions sv i) \<le> 1" using inv by (simp add: sv_inv_def counters_ok_def)
  ultimately show ?thesis
    using q c c2 card_le_Suc0_iff_eq [OF finite_sessions [OF inv], of i] by auto
qed

text \<open>
  While a session is open on an id, by a reader or a writer, no step that leaves
  it open changes the record of that id.
\<close>

lemma wrote_other:
  assumes "wrote sv sv' i d d'" "1 \<le> i" "i \<le> 20" "length d = 320" "j \<noteq> i" "1 \<le> j"
  shows "nth_record d' (j - 1) = nth_record d (j - 1)"
  using assms nth_record_write_other [of "i - 1" d _ "j - 1"] by (auto simp: wrote_def)

lemma wrote_length: "wrote sv sv' i d d' \<Longrightarrow> 1 \<le> i \<Longrightarrow> i \<le> 20 \<Longrightarrow> length d = 320 \<Longrightarrow> length d' = 320"
  by (auto simp: wrote_def)

definition stable_session :: "world \<Rightarrow> world \<Rightarrow> nat \<Rightarrow> nat \<Rightarrow> nat \<Rightarrow> bool" where
  "stable_session w w' p c i \<longleftrightarrow>
     (\<exists>kd sv sv'. procs w p = Some (kd, sv) \<and> procs w' p = Some (kd, sv')
        \<and> c \<in> sessions sv i \<and> c \<in> sessions sv' i)"

lemma wstep_disk:
  assumes inv: "world_inv w" and step: "wstep w w'"
  shows "disk (kern w') = disk (kern w) \<or>
    (\<exists>q sv sv' i. procs w q = Some (WRITE_SERVER, sv) \<and> procs w' q = Some (WRITE_SERVER, sv')
       \<and> 1 \<le> i \<and> i \<le> 20 \<and> wrote sv sv' i (disk (kern w)) (disk (kern w')))"
  using step
proof (cases rule: wstep.cases)
  case (iter p kd sv inp sv' k')
  have "sv_inv kd sv" using inv iter by (auto simp: world_inv_def)
  from disk_loop_iter [OF this iter(3,4)] show ?thesis
    using iter by (auto; blast)
qed (simp_all add: end_process_def)

lemma stable_record:
  assumes inv: "world_inv w" and step: "wstep w w'" and len: "length (disk (kern w)) = 320"
    and sess: "stable_session w w' p c i" and i: "1 \<le> i"
  shows "nth_record (disk (kern w')) (i - 1) = nth_record (disk (kern w)) (i - 1)"
  using wstep_disk [OF inv step]
proof
  assume "\<exists>q sv sv' j. procs w q = Some (WRITE_SERVER, sv) \<and> procs w' q = Some (WRITE_SERVER, sv')
       \<and> 1 \<le> j \<and> j \<le> 20 \<and> wrote sv sv' j (disk (kern w)) (disk (kern w'))"
  then obtain q sv sv' j where q: "procs w q = Some (WRITE_SERVER, sv)" "procs w' q = Some (WRITE_SERVER, sv')"
    and j: "1 \<le> j" "j \<le> 20" and wr: "wrote sv sv' j (disk (kern w)) (disk (kern w'))" by blast
  obtain d where d: "d \<in> sessions sv j" "d \<notin> sessions sv' j" using wr by (auto simp: wrote_def)
  obtain kd svp svp' where p: "procs w p = Some (kd, svp)" "procs w' p = Some (kd, svp')"
    "c \<in> sessions svp i" "c \<in> sessions svp' i" using sess by (auto simp: stable_session_def)
  have "i \<noteq> j"
  proof
    assume "i = j"
    then have "p = q \<and> c = d" using write_exclusive [OF inv q(1) p(1) d(1)] p(3) by simp
    then show False using p(2,4) q(2) d(2) \<open>i = j\<close> by simp
  qed
  then show ?thesis using wrote_other [OF wr j len _ i] by blast
qed simp

lemma reachable_length: "reachable d w \<Longrightarrow> length d = 320 \<Longrightarrow> length (disk (kern w)) = 320"
proof (induction rule: reachable.induct)
  case (step w w')
  then show ?case using wstep_disk [OF reachable_inv [OF step(1)] step(2)] wrote_length by metis
qed (simp add: init_world_def)

end
