(* ===== verification/Booking_Props.thy ===== *)
theory Booking_Props
  imports Booking_System
begin

text \<open>
  The properties of csiebooking that the README promises: who is answered
  \<open>Locked.\<close>, which commands are accepted, what a booking does to the record,
  which ids are valid; and where the 32-bit arithmetic breaks the limit of 15.
\<close>

section \<open>Who is locked out\<close>

definition conflict :: "world \<Rightarrow> kind \<Rightarrow> nat \<Rightarrow> bool" where
  "conflict w kd i \<longleftrightarrow>
     (\<exists>q kd2 sv2. procs w q = Some (kd2, sv2) \<and> sessions sv2 i \<noteq> {}
        \<and> (kd = WRITE_SERVER \<or> kd2 = WRITE_SERVER))"

lemma holds_session:
  assumes w: "world_inv w" and i: "region i b"
  shows "fl_holds (locks (kern w)) q t b \<longleftrightarrow>
    (\<exists>kd sv. procs w q = Some (kd, sv) \<and> sessions sv i \<noteq> {} \<and> t = lock_kind kd)"
proof (cases "procs w q")
  case None
  then have "\<not> fl_holds (locks (kern w)) q t b" using w unfolding world_inv_def by blast
  with None show ?thesis by simp
next
  case (Some ks)
  obtain kd sv where ks: "ks = (kd, sv)" by fastforce
  have "lock_view kd q sv (kern w)" using w Some unfolding ks world_inv_def by blast
  then have "fl_holds (locks (kern w)) q t b \<longleftrightarrow>
    t = lock_kind kd \<and> (\<exists>j. region j b \<and> sessions sv j \<noteq> {})"
    unfolding lock_view_def by blast
  also have "\<dots> \<longleftrightarrow> t = lock_kind kd \<and> sessions sv i \<noteq> {}"
    using region_unique [OF _ i] i by blast
  finally show ?thesis using Some ks by auto
qed

lemma lock_kind_wr: "lock_kind kd = F_WRLCK \<longleftrightarrow> kd = WRITE_SERVER"
  by (cases kd) (simp_all add: lock_kind_def)

text \<open>The kernel refuses the lock exactly when another process has a conflicting session.\<close>

lemma lock_refused_iff:
  assumes w: "world_inv w" and r: "valid_rid r"
  shows "lock_reg p (lock_kind kd) (lock_offset r) 16 (kern w) = None \<longleftrightarrow>
    (\<exists>q kd2 sv2. q \<noteq> p \<and> procs w q = Some (kd2, sv2) \<and> sessions sv2 (lock_slot r) \<noteq> {}
       \<and> (kd = WRITE_SERVER \<or> kd2 = WRITE_SERVER))"
proof -
  have wf: "fl_wf (locks (kern w))" using w by (simp add: world_inv_def kernel_ok_def)
  let ?P = "\<lambda>q t b. fl_holds (locks (kern w)) q t b \<and> (lock_kind kd = F_WRLCK \<or> t = F_WRLCK)"
  have "lock_reg p (lock_kind kd) (lock_offset r) 16 (kern w) = None \<longleftrightarrow>
    (\<exists>q t b. q \<noteq> p \<and> region (lock_slot r) b \<and> ?P q t b)"
    using fcntl.lock_refused [OF wf _ lock_kind_neq, where s = "lock_offset r" and e = "lock_offset r + 16"]
    unfolding region_offset [OF r] by (simp add: lock_reg_def conj_assoc)
  also have "\<dots> \<longleftrightarrow> (\<exists>q kd2 sv2. q \<noteq> p \<and> procs w q = Some (kd2, sv2) \<and> sessions sv2 (lock_slot r) \<noteq> {}
       \<and> (kd = WRITE_SERVER \<or> kd2 = WRITE_SERVER))" (is "?L = ?R")
  proof
    assume ?L
    then obtain q t b where q: "q \<noteq> p" "region (lock_slot r) b" "fl_holds (locks (kern w)) q t b"
      "lock_kind kd = F_WRLCK \<or> t = F_WRLCK" by blast
    then obtain kd2 sv2 where "procs w q = Some (kd2, sv2)" "sessions sv2 (lock_slot r) \<noteq> {}" "t = lock_kind kd2"
      using holds_session [OF w q(2)] by blast
    then show ?R using q(1,4) lock_kind_wr by blast
  next
    assume ?R
    then obtain q kd2 sv2 where q: "q \<noteq> p" "procs w q = Some (kd2, sv2)" "sessions sv2 (lock_slot r) \<noteq> {}"
      "kd = WRITE_SERVER \<or> kd2 = WRITE_SERVER" by blast
    then have "fl_holds (locks (kern w)) q (lock_kind kd2) (16 * (902000 + int (lock_slot r) - 1))"
      using holds_session [OF w region_inhabited] by blast
    then show ?L using q(1,4) lock_kind_wr region_inhabited by blast
  qed
  finally show ?thesis .
qed

lemma out_refuse:
  "out (snd (refuse p c msg (sv, k))) =
     out k @ [(p, Sent (conn_fd (requestP sv c)) msg), (p, Closed (conn_fd (requestP sv c)))]"
  by (simp add: refuse_def endConnection_def close_fd_def send_def)

lemma sessions_refuse: "c \<notin> sessions (fst (refuse p c msg (sv, k))) i"
proof -
  obtain sv' k' where e: "endConnection p c (sv, send p (conn_fd (requestP sv c)) msg k) = (sv', k')"
    by fastforce
  then show ?thesis using sessions_endConnection [OF e, of i] by (simp add: refuse_def)
qed

definition granted :: "kind \<Rightarrow> nat \<Rightarrow> server \<Rightarrow> kernel \<Rightarrow> nat \<Rightarrow> bool" where
  "granted kd p sv k c \<longleftrightarrow>
     (kd = WRITE_SERVER \<longrightarrow> \<not> writelock sv (lock_slot (rid (requestP sv c))))
     \<and> lock_reg p (lock_kind kd) (lock_offset (rid (requestP sv c))) 16 k \<noteq> None"

definition open_session :: "kind \<Rightarrow> nat \<Rightarrow> nat \<Rightarrow> st \<Rightarrow> st" where
  "open_session kd p c s = (case kd of READ_SERVER \<Rightarrow> open_read p c s | WRITE_SERVER \<Rightarrow> open_write p c s)"

lemma open_session_refused:
  "\<not> granted kd p sv k c \<Longrightarrow> open_session kd p c (sv, k) = refuse p c msg_locked (sv, k)"
  by (cases kd) (auto simp: granted_def open_session_def open_read_def open_write_def Let_def lock_kind_def)

lemma open_session_granted:
  assumes g: "granted kd p sv k c" and base: "sv_base sv" and c: "c \<in> master_set sv" "c \<noteq> listen_fd sv"
    and r: "valid_rid (rid (requestP sv c))"
  shows "c \<in> sessions (fst (open_session kd p c (sv, k))) (lock_slot (rid (requestP sv c)))"
proof -
  let ?i = "lock_slot (rid (requestP sv c))"
  obtain sv1 k1 where o: "open_session kd p c (sv, k) = show_record kd p c (sv1, k1)"
    and sv1: "sv_base sv1" "requestP sv1 = requestP sv" "master_set sv1 = master_set sv" "listen_fd sv1 = listen_fd sv"
  proof (cases kd)
    case READ_SERVER
    then show ?thesis using g base that [of "sv\<lparr>readlock := (readlock sv)(?i := readlock sv ?i + 1)\<rparr>"]
      by (auto simp: granted_def open_session_def open_read_def Let_def lock_kind_def base_frame)
  next
    case WRITE_SERVER
    then show ?thesis using g base that [of "sv\<lparr>writelock := (writelock sv)(?i := True)\<rparr>"]
      by (auto simp: granted_def open_session_def open_write_def Let_def lock_kind_def base_frame)
  qed
  obtain sv' k' where s': "show_record kd p c (sv1, k1) = (sv', k')" by fastforce
  show ?thesis
    using show_record_effect(6) [OF s' sv1(1), of ?i] c r sv1 unfolding o s' by simp
qed

lemma granted_iff:
  assumes w: "world_inv w" and p: "procs w p = Some (kd, sv)" and r: "valid_rid (rid rq)"
    and c: "c \<in> master_set sv" and sv1: "writelock sv1 = writelock sv" "requestP sv1 c = rq"
  shows "granted kd p sv1 (kern w) c \<longleftrightarrow> \<not> conflict w kd (lock_slot (rid rq))"
proof -
  let ?i = "lock_slot (rid rq)"
  have inv: "sv_inv kd sv" using w p by (auto simp: world_inv_def)
  have own: "kd = WRITE_SERVER \<Longrightarrow> writelock sv ?i \<longleftrightarrow> sessions sv ?i \<noteq> {}"
    using inv card_0_eq [OF finite_sessions [OF inv], of ?i]
    by (auto simp: sv_inv_def counters_ok_def split: if_splits)
  let ?E = "\<exists>q kd2 sv2. q \<noteq> p \<and> procs w q = Some (kd2, sv2) \<and> sessions sv2 ?i \<noteq> {}
       \<and> (kd = WRITE_SERVER \<or> kd2 = WRITE_SERVER)"
  have "conflict w kd ?i \<longleftrightarrow> kd = WRITE_SERVER \<and> sessions sv ?i \<noteq> {} \<or> ?E"
  proof
    assume "conflict w kd ?i"
    then obtain q kd2 sv2 where q: "procs w q = Some (kd2, sv2)" "sessions sv2 ?i \<noteq> {}"
      "kd = WRITE_SERVER \<or> kd2 = WRITE_SERVER" unfolding conflict_def by blast
    then show "kd = WRITE_SERVER \<and> sessions sv ?i \<noteq> {} \<or> ?E" using p by (cases "q = p") auto
  next
    assume "kd = WRITE_SERVER \<and> sessions sv ?i \<noteq> {} \<or> ?E"
    then show "conflict w kd ?i" using p unfolding conflict_def by blast
  qed
  moreover have "granted kd p sv1 (kern w) c \<longleftrightarrow>
    (kd = WRITE_SERVER \<longrightarrow> \<not> writelock sv ?i) \<and> \<not> ?E"
    unfolding granted_def sv1 lock_refused_iff [OF w r, of p kd] by blast
  ultimately show ?thesis using own by blast
qed

lemma open_outcome:
  assumes w: "world_inv w" and "procs w p = Some (kd, sv)"
    and "c \<in> master_set sv" "c \<noteq> listen_fd sv" "\<not> wait_for_write (requestP sv c)"
    and "handle_read (requestP sv c) r = Ok (1, rq)" and "check_id rq = (rq', True)"
  shows "\<exists>sv' k'. enter_id kd p c r (sv, kern w) = Ok (sv', k')
    \<and> (c \<in> sessions sv' (lock_slot (rid rq')) \<longleftrightarrow> \<not> conflict w kd (lock_slot (rid rq')))
    \<and> (conflict w kd (lock_slot (rid rq')) \<longrightarrow>
         out k' = out (kern w) @ [(p, Sent (int c) msg_locked), (p, Closed (int c))])"
proof -
  have inv: "sv_inv kd sv" and view: "lock_view kd p sv (kern w)" using w assms(2) by (auto simp: world_inv_def)
  note f = handle_read_frame [OF assms(6)] and f' = check_id_frame [OF assms(7)]
  have r: "valid_rid (rid rq')" using check_id_valid [OF assms(7)] by (rule conjunct1)
  let ?sv1 = "set_request c rq' sv"
  have inv1: "sv_inv kd ?sv1" using set_request_inv(1) [OF inv view assms(3,4)] f f' assms(5) by simp
  have fd: "conn_fd rq' = int c" using f f' base_conn [of sv c] inv assms(3) by (simp add: sv_inv_def)
  have e: "enter_id kd p c r (sv, kern w) = Ok (open_session kd p c (?sv1, kern w))"
    using assms(6,7) by (cases kd) (simp_all add: enter_id_def open_session_def Let_def)
  have g: "granted kd p ?sv1 (kern w) c \<longleftrightarrow> \<not> conflict w kd (lock_slot (rid rq'))"
    using granted_iff [OF w assms(2) r assms(3)] by (simp add: set_request_def)
  obtain sv' k' where s': "open_session kd p c (?sv1, kern w) = (sv', k')" by fastforce
  show ?thesis
  proof (cases "conflict w kd (lock_slot (rid rq'))")
    case True
    then have R: "refuse p c msg_locked (?sv1, kern w) = (sv', k')"
      using g open_session_refused s' by metis
    show ?thesis
      using True e out_refuse [of p c msg_locked ?sv1 "kern w"] fd
        sessions_refuse [of c p msg_locked ?sv1 "kern w" "lock_slot (rid rq')"]
      unfolding s' R by (simp add: set_request_frame)
  next
    case False
    then show ?thesis
      using open_session_granted [of kd p ?sv1 "kern w" c] g inv1 assms(3,4) r e s'
      by (auto simp: set_request_frame sv_inv_def)
  qed
qed

section \<open>Bookings against unbounded integers\<close>

text \<open>What the README asks of a booking command, over the integers.\<close>

datatype reply = Over | Under | Updated "int list"

definition book_spec :: "int list \<Rightarrow> int list \<Rightarrow> reply" where
  "book_spec st cmd =
     (let new = map2 (+) st cmd
      in if 15 < sum_list new then Over
         else if list_ex (\<lambda>x. x < 0) new then Under else Updated new)"

definition small :: "cint \<Rightarrow> bool" where
  "small x \<longleftrightarrow> \<bar>sint x\<bar> \<le> 2 ^ 28"

lemma sint_add_small: "small x \<Longrightarrow> small y \<Longrightarrow> sint (x + y) = sint x + sint y"
  by (rule sint_add) (auto simp: small_def int_fits_def)

lemma new_state_small:
  assumes "length bs = 3" "list_all small bs" "small a" "small b" "small d"
  shows "map sint (new_state bs (a, b, d)) = map2 (+) (map sint bs) (map sint [a, b, d])"
    and "sint (sum_state (new_state bs (a, b, d))) = sum_list (map2 (+) (map sint bs) (map sint [a, b, d]))"
proof -
  obtain x y z where bs: "bs = [x, y, z]" using assms(1) by (auto simp: numeral_3_eq_3 length_Suc_conv)
  have sm: "small x" "small y" "small z" using assms(2) bs by simp_all
  note add = sint_add_small [OF sm(1) assms(3)] sint_add_small [OF sm(2) assms(4)] sint_add_small [OF sm(3) assms(5)]
  show "map sint (new_state bs (a, b, d)) = map2 (+) (map sint bs) (map sint [a, b, d])"
    by (simp add: bs new_state_def add)
  have b: "\<bar>sint x\<bar> \<le> 2 ^ 28" "\<bar>sint y\<bar> \<le> 2 ^ 28" "\<bar>sint z\<bar> \<le> 2 ^ 28"
    "\<bar>sint a\<bar> \<le> 2 ^ 28" "\<bar>sint b\<bar> \<le> 2 ^ 28" "\<bar>sint d\<bar> \<le> 2 ^ 28"
    using sm assms(3-5) by (simp_all add: small_def)
  have s2: "sint ((x + a) + (y + b)) = sint (x + a) + sint (y + b)"
    by (rule sint_add) (use b in \<open>auto simp: add int_fits_def\<close>)
  have s3: "sint ((x + a) + (y + b) + (z + d)) = sint ((x + a) + (y + b)) + sint (z + d)"
    by (rule sint_add) (use b in \<open>auto simp: s2 add int_fits_def\<close>)
  show "sint (sum_state (new_state bs (a, b, d))) = sum_list (map2 (+) (map sint bs) (map sint [a, b, d]))"
    using s2 s3 by (simp add: bs new_state_def sum_state_def add)
qed

lemma load_record_nth:
  assumes "length (disk k) = 320" "1 \<le> i" "i \<le> 20" "length (bookingState (temp sv)) = 3"
  shows "temp (load_record i sv k) = nth_record (disk k) (i - 1)"
proof -
  have "length (file_read (disk k) (16 * (i - 1)) 16) = 16"
    using assms(1-3) by (simp add: file_read_def)
  then show ?thesis using assms(4) by (simp add: load_record_def Let_def nth_record_def)
qed

lemma out_leave_write:
  "out (snd (leave_write p c (sv, k))) = out k @ [(p, Closed (conn_fd (requestP sv c)))]"
proof -
  have "out (unlock p c sv k) = out k"
    by (auto simp: unlock_def lock_reg_def split: option.splits)
  then show ?thesis by (simp add: leave_write_def endConnection_def close_fd_def Let_def)
qed

lemma out_leave_write_with:
  "out (snd (leave_write_with p c msg (sv, k))) =
     out k @ [(p, Sent (conn_fd (requestP sv c)) msg), (p, Closed (conn_fd (requestP sv c)))]"
  by (simp add: leave_write_with_def out_leave_write) (simp add: send_def)

lemma list_ex_sint: "list_ex (\<lambda>x. c_less x 0) xs = list_ex (\<lambda>x. x < 0) (map sint xs)"
  by (induction xs) (simp_all add: c_less_def)

lemma within_limits_spec:
  "within_limits xs \<longleftrightarrow> \<not> 15 < sint (sum_state xs) \<and> \<not> list_ex (\<lambda>x. x < 0) (map sint xs)"
  by (auto simp: within_limits_def c_less_def list_all_iff list_ex_iff)

text \<open>The three outcomes of a command, against the specification.\<close>

definition reply_matches :: "nat \<Rightarrow> int \<Rightarrow> cint \<Rightarrow> nat \<Rightarrow> kernel \<Rightarrow> kernel \<Rightarrow> reply \<Rightarrow> bool" where
  "reply_matches p fd r i k k' rep \<longleftrightarrow>
     (case rep of
        Over \<Rightarrow> disk k' = disk k \<and> out k' = out k @ [(p, Sent fd msg_over), (p, Closed fd)]
      | Under \<Rightarrow> disk k' = disk k \<and> out k' = out k @ [(p, Sent fd msg_under), (p, Closed fd)]
      | Updated new \<Rightarrow>
          map sint (bookingState (nth_record (disk k') (i - 1))) = new
          \<and> (\<forall>j<20. j \<noteq> i - 1 \<longrightarrow> nth_record (disk k') j = nth_record (disk k) j)
          \<and> out k' = out k @ [(p, Sent fd (msg_updated r (map word_of_int new))), (p, Closed fd)])"

lemma apply_booking_spec:
  assumes r: "valid_rid (rid (requestP sv c))" and len: "length (disk k) = 320"
    and temp: "length (bookingState (temp sv)) = 3"
    and sm: "list_all small (bookingState (nth_record (disk k) (lock_slot (rid (requestP sv c)) - 1)))"
    "small a" "small b" "small d"
  shows "reply_matches p (conn_fd (requestP sv c)) (rid (requestP sv c)) (lock_slot (rid (requestP sv c)))
    k (snd (apply_booking p c (a, b, d) (sv, k)))
    (book_spec (map sint (bookingState (nth_record (disk k) (lock_slot (rid (requestP sv c)) - 1))))
       (map sint [a, b, d]))"
proof -
  let ?i = "lock_slot (rid (requestP sv c))"
  let ?st = "bookingState (nth_record (disk k) (?i - 1))"
  let ?new = "booked ?i (sv, k) (a, b, d)"
  have i: "1 \<le> ?i" "?i \<le> 20" using valid_rid_slot_range [OF r] by auto
  have st3: "length ?st = 3" by (simp add: nth_record_def)
  have new: "?new = new_state ?st (a, b, d)"
    by (simp add: booked_def load_record_nth [OF len i temp])
  let ?Z = "map2 (+) (map sint ?st) (map sint [a, b, d])"
  have Z: "map sint ?new = ?Z" and S: "sint (sum_state ?new) = sum_list ?Z"
    unfolding new using new_state_small [OF st3 sm] by auto
  have fr: "requestP (load_record ?i sv k) = requestP sv" by (simp add: load_record_frame)
  note cases = apply_booking_cases [of sv c k "(a, b, d)" p]
  consider "15 < sum_list ?Z" | "\<not> 15 < sum_list ?Z" "list_ex (\<lambda>x. x < 0) ?Z"
    | "\<not> 15 < sum_list ?Z" "\<not> list_ex (\<lambda>x. x < 0) ?Z" by blast
  then show ?thesis
  proof cases
    case 1
    then have "apply_booking p c (a, b, d) (sv, k) = leave_write_with p c msg_over (load_record ?i sv k, k)"
      using cases(1) S by (simp add: c_less_def)
    then show ?thesis
      using 1 out_leave_write_with [of p c msg_over "load_record ?i sv k" k] fr
        disk_leave_write_with [of p c msg_over "(load_record ?i sv k, k)"]
      by (simp add: reply_matches_def book_spec_def Let_def)
  next
    case 2
    have "list_ex (\<lambda>x. c_less x 0) ?new" unfolding list_ex_sint Z by (rule 2(2))
    then have "apply_booking p c (a, b, d) (sv, k) = leave_write_with p c msg_under (load_record ?i sv k, k)"
      using cases(2) 2(1) S by (simp add: c_less_def)
    then show ?thesis
      using 2 out_leave_write_with [of p c msg_under "load_record ?i sv k" k] fr
        disk_leave_write_with [of p c msg_under "(load_record ?i sv k, k)"]
      by (simp add: reply_matches_def book_spec_def Let_def)
  next
    case 3
    then have lim: "within_limits ?new" using S Z by (simp add: within_limits_spec)
    obtain sv3 k3 r' where w: "apply_booking p c (a, b, d) (sv, k) = leave_write p c (sv3, k3)"
      "requestP sv3 = requestP sv" "length (bookingState r') = 3" "bookingState r' = ?new"
      "out k3 = out k @ [(p, Sent (conn_fd (requestP sv c)) (msg_updated (rid (requestP sv c)) ?new))]"
      "disk k3 = file_write (disk k) (16 * (?i - 1)) (record_bytes r')"
      using cases(3) [OF lim] by blast
    have d: "disk (snd (apply_booking p c (a, b, d) (sv, k))) = disk k3"
      using disk_leave_write [of p c "(sv3, k3)"] w(1) by simp
    have room: "16 * (?i - 1) + 16 \<le> length (disk k)" using i len by simp
    have words: "map word_of_int ?Z = ?new" unfolding Z [symmetric] by (simp add: comp_def)
    have spec: "book_spec (map sint ?st) (map sint [a, b, d]) = Updated ?Z"
      using 3 unfolding book_spec_def Let_def by (simp only: if_False)
    show ?thesis
      using nth_record_write_same [OF room w(3)] nth_record_write_other [OF room w(3)]
        out_leave_write [of p c sv3 k3] w Z
      unfolding reply_matches_def d spec reply.case words by simp
  qed
qed

section \<open>Bookings as they wrap\<close>

definition cut32 :: "int \<Rightarrow> int" where
  "cut32 z = (z + 2 ^ 31) mod 2 ^ 32 - 2 ^ 31"

lemma sint_cut: "sint (x + y :: cint) = cut32 (sint x + sint y)"
  by (simp add: sint_word_ariths signed_take_bit_eq_take_bit_shift take_bit_eq_mod cut32_def)

lemma cut32_add: "cut32 (cut32 x + y) = cut32 (x + y)"
proof -
  have "cut32 x + y + 2 ^ 31 = (x + 2 ^ 31) mod 2 ^ 32 + y" by (simp add: cut32_def)
  then have "(cut32 x + y + 2 ^ 31) mod 2 ^ 32 = (x + 2 ^ 31 + y) mod 2 ^ 32" by (simp only: mod_add_left_eq)
  also have "\<dots> = (x + y + 2 ^ 31) mod 2 ^ 32" by (simp only: ac_simps)
  finally show ?thesis unfolding cut32_def [of "cut32 x + y"] cut32_def [of "x + y"] by simp
qed

lemma cut32_limit:
  assumes "0 \<le> s" and "s < 3 * 2 ^ 31"
  shows "cut32 s \<le> 15 \<longleftrightarrow> s \<le> 15 \<or> 2 ^ 31 \<le> s \<and> s \<le> 2 ^ 32 + 15"
proof -
  consider "s < 2 ^ 31" | "2 ^ 31 \<le> s" "s < 3 * 2 ^ 31" using assms(2) by linarith
  then show ?thesis
  proof cases
    case 1
    then have "(s + 2 ^ 31) mod 2 ^ 32 = s + 2 ^ 31" using assms(1) by (intro mod_pos_pos_trivial) simp_all
    then show ?thesis using 1 by (simp add: cut32_def)
  next
    case 2
    have "(s + 2 ^ 31) mod 2 ^ 32 = (s + 2 ^ 31 - 2 ^ 32) mod 2 ^ 32" by (simp only: minus_mod_self2)
    also have "\<dots> = s + 2 ^ 31 - 2 ^ 32" using 2 by (intro mod_pos_pos_trivial) simp_all
    finally show ?thesis using 2 by (simp add: cut32_def)
  qed
qed

lemma three: "length xs = 3 \<Longrightarrow> \<exists>x y z. xs = [x, y, z]"
  by (auto simp: numeral_3_eq_3 length_Suc_conv)

lemma new_state_cut:
  assumes "length bs = 3"
  shows "map sint (new_state bs (a, b, d)) = map2 (\<lambda>x y. cut32 (x + y)) (map sint bs) (map sint [a, b, d])"
proof -
  obtain x y z where "bs = [x, y, z]" using three [OF assms] by blast
  then show ?thesis by (simp add: new_state_def sint_cut)
qed

text \<open>The check of the code, as it wraps, on the true sum.\<close>

lemma within_limits_sums:
  assumes "length new = 3"
  shows "within_limits new \<longleftrightarrow> list_all (\<lambda>x. 0 \<le> x) (map sint new)
    \<and> (sum_list (map sint new) \<le> 15 \<or> 2 ^ 31 \<le> sum_list (map sint new) \<and> sum_list (map sint new) \<le> 2 ^ 32 + 15)"
proof -
  obtain x y z where n: "new = [x, y, z]" using three [OF assms] by blast
  let ?S = "sint x + sint y + sint z"
  have s: "sint (sum_state new) = cut32 ?S" by (simp add: n sum_state_def sint_cut cut32_add)
  have top: "sint v < 2 ^ 31" for v :: cint using int_fits_sint [of v] by (simp add: int_fits_def)
  have "cut32 ?S \<le> 15 \<longleftrightarrow> ?S \<le> 15 \<or> 2 ^ 31 \<le> ?S \<and> ?S \<le> 2 ^ 32 + 15"
    if "0 \<le> sint x" "0 \<le> sint y" "0 \<le> sint z"
  proof -
    have "0 \<le> ?S" "?S < 3 * 2 ^ 31" using that top [of x] top [of y] top [of z] by simp_all
    then show ?thesis by (rule cut32_limit)
  qed
  then show ?thesis by (auto simp: within_limits_spec s [unfolded n] n not_less add.assoc)
qed

section \<open>A small run\<close>

text \<open>
  A server of either kind is started as process 7, accepts a client on
  descriptor 4, and the client names the id 902001. The witnesses below apply
  the properties to this run.
\<close>

definition demo_server :: server where
  "demo_server = start_server 3 10 ''linux1'' (\<lambda>_. \<lparr>host = [], conn_fd = 0, buf = [], buf_len = 0,
     rid = 0, wait_for_write = False\<rparr>)"

definition demo_accepted :: server where
  "demo_accepted = set_request 4 ((requestP demo_server 4)\<lparr>conn_fd := 4, host := ''127.0.0.1''\<rparr>)
     (demo_server\<lparr>master_set := {4, 3}\<rparr>)"

definition demo_world :: "kind \<Rightarrow> byte list \<Rightarrow> world" where
  "demo_world kd d = \<lparr>procs = [7 \<mapsto> (kd, demo_accepted)], kern = send 7 4 msg_ask (kern (init_world d))\<rparr>"

text \<open>Twenty records, each with one food and three concert bookings.\<close>

definition demo_disk :: "byte list" where
  "demo_disk = concat (map (\<lambda>i. record_bytes \<lparr>b_id = 902001 + word_of_nat i, bookingState = [1, 3, 0]\<rparr>)
     [0..<20])"

definition demo_line :: read_result where
  "demo_line = Rd_data (''902001'' @ [LF])"

lemma demo_facts:
  "4 \<in> master_set demo_accepted" "4 \<noteq> listen_fd demo_accepted" "\<not> wait_for_write (requestP demo_accepted 4)"
  "procs (demo_world kd d) 7 = Some (kd, demo_accepted)" "maxfd demo_accepted = 10"
  "listen_fd demo_accepted = 3" "master_set demo_accepted = {4, 3}"
  by (simp_all add: demo_accepted_def demo_server_def demo_world_def start_server_def set_request_def
      init_server_def init_request_def Let_def)

lemma demo_reachable: "reachable d (demo_world kd d)"
proof -
  let ?w1 = "(init_world d)\<lparr>procs := (procs (init_world d))(7 \<mapsto> (kd, demo_server))\<rparr>"
  let ?inp = "\<lparr>li_ready = {3}, li_accept = Acc_ok 4 ''127.0.0.1'', li_read = Rd_err, li_junk = (0, 0, 0)\<rparr>"
  have "wstep (init_world d) ?w1"
    unfolding demo_server_def by (rule wstep.start) (simp_all add: init_world_def)
  then have r1: "reachable d ?w1" by (rule reachable.step [OF reachable.init])
  have sv: "listen_fd demo_server = 3" "master_set demo_server = {3}" "maxfd demo_server = 10"
    by (simp_all add: demo_server_def start_server_def)
  have "loop_iter kd 7 ?inp (demo_server, kern ?w1) = Ok (demo_accepted, kern (demo_world kd d))"
    by (simp add: loop_iter_def accept_conn_def sv demo_accepted_def demo_world_def)
  then have "wstep ?w1 \<lparr>procs = (procs ?w1)(7 \<mapsto> (kd, demo_accepted)), kern = kern (demo_world kd d)\<rparr>"
    by (intro wstep.iter [of ?w1 7 kd demo_server ?inp]) (simp_all add: input_ok_def sv)
  moreover have "\<lparr>procs = (procs ?w1)(7 \<mapsto> (kd, demo_accepted)), kern = kern (demo_world kd d)\<rparr> = demo_world kd d"
    by (simp add: demo_world_def init_world_def)
  ultimately show ?thesis using reachable.step [OF r1] by simp
qed

lemma demo_id:
  "\<exists>rq rq'. handle_read (requestP demo_accepted 4) demo_line = Ok (1, rq) \<and> check_id rq = (rq', True)
     \<and> lock_slot (rid rq') = 1"
proof -
  obtain rq where rq: "handle_read (requestP demo_accepted 4) demo_line = Ok (1, rq)" "cstr (buf rq) = ''902001''"
    using handle_read_line [of "''902001''" "[LF]" "requestP demo_accepted 4"] unfolding demo_line_def by auto
  have a: "atoi ''902001'' = 902001" by (simp add: string_eval)
  have "check_id rq = (rq\<lparr>rid := 902001\<rparr>, True)"
    by (simp add: check_id_def rq Let_def a id_index_def c_less_def isdigit_def char_code_def)
  moreover have "lock_slot 902001 = 1" by (simp add: lock_slot_def id_index_def)
  ultimately show ?thesis using rq(1) by auto
qed

lemma demo_no_conflict: "\<not> conflict (demo_world kd d) kd' i"
  by (auto simp: conflict_def demo_world_def demo_accepted_def sessions_def demo_server_def
      start_server_def set_request_def init_server_def init_request_def Let_def split: if_splits)

text \<open>One step later the client has a session on its id.\<close>

lemma demo_session:
  "\<exists>w sv. reachable d w \<and> procs w 7 = Some (kd, sv) \<and> 4 \<in> sessions sv 1"
proof -
  let ?w = "demo_world kd d"
  let ?inp = "\<lparr>li_ready = {4}, li_accept = Acc_again, li_read = demo_line, li_junk = (0, 0, 0)\<rparr>"
  obtain rq rq' where rq: "handle_read (requestP demo_accepted 4) demo_line = Ok (1, rq)"
    "check_id rq = (rq', True)" "lock_slot (rid rq') = 1" using demo_id by blast
  have inv: "world_inv ?w" by (rule reachable_inv [OF demo_reachable])
  obtain sv' k' where e: "enter_id kd 7 4 demo_line (demo_accepted, kern ?w) = Ok (sv', k')"
    and s: "4 \<in> sessions sv' 1"
    using open_outcome [OF inv demo_facts(4) demo_facts(1,2,3) rq(1,2)] demo_no_conflict rq(3) by auto
  have "find (\<lambda>i. i \<in> {4}) [3..<10] = Some (4 :: nat)" by (simp add: upt_rec)
  then have "loop_iter kd 7 ?inp (demo_accepted, kern ?w) = Ok (sv', k')"
    using e demo_facts by (simp add: loop_iter_def serve_def)
  then have "wstep ?w \<lparr>procs = (procs ?w)(7 \<mapsto> (kd, sv')), kern = k'\<rparr>"
    by (intro wstep.iter [of ?w 7 kd demo_accepted ?inp])
      (simp_all add: demo_facts input_ok_def demo_line_def)
  then have "reachable d \<lparr>procs = (procs ?w)(7 \<mapsto> (kd, sv')), kern = k'\<rparr>"
    by (rule reachable.step [OF demo_reachable])
  then show ?thesis using s
    by (intro exI [of _ "\<lparr>procs = (procs ?w)(7 \<mapsto> (kd, sv')), kern = k'\<rparr>"] exI [of _ sv']) simp
qed

section \<open>Properties\<close>

text \<open>
  C1. In every reachable world, when a connection that has not yet named an id
  sends the line of a valid id, the server opens a session on that id exactly
  when no session, of any server process, conflicts with it (a write server
  conflicts with every session on the id, a read server with those of write
  servers); otherwise it answers \<open>Locked.\<close> and closes the connection.
\<close>

theorem locked_iff_conflict:
  assumes "reachable d w" and "procs w p = Some (kd, sv)"
    and "c \<in> master_set sv" "c \<noteq> listen_fd sv" "\<not> wait_for_write (requestP sv c)"
    and "handle_read (requestP sv c) r = Ok (1, rq)" and "check_id rq = (rq', True)"
  shows "\<exists>sv' k'. enter_id kd p c r (sv, kern w) = Ok (sv', k')
    \<and> (c \<in> sessions sv' (lock_slot (rid rq')) \<longleftrightarrow> \<not> conflict w kd (lock_slot (rid rq')))
    \<and> (conflict w kd (lock_slot (rid rq')) \<longrightarrow>
         out k' = out (kern w) @ [(p, Sent (int c) msg_locked), (p, Closed (int c))])"
  by (rule open_outcome [OF reachable_inv [OF assms(1)] assms(2-7)])

theorem locked_iff_conflict_witness:
  "\<exists>sv' k'. enter_id WRITE_SERVER 7 4 demo_line (demo_accepted, kern (demo_world WRITE_SERVER demo_disk))
     = Ok (sv', k') \<and> 4 \<in> sessions sv' 1"
proof -
  obtain rq rq' where rq: "handle_read (requestP demo_accepted 4) demo_line = Ok (1, rq)"
    "check_id rq = (rq', True)" "lock_slot (rid rq') = 1" using demo_id by blast
  show ?thesis
    using locked_iff_conflict [OF demo_reachable demo_facts(4) demo_facts(1,2,3) rq(1,2), where kd = WRITE_SERVER
        and d = demo_disk] rq(3)
    by (auto simp: demo_no_conflict)
qed

text \<open>
  C2. Two sessions on one id exclude each other as soon as one of them belongs
  to a write server: in every reachable world they are the same connection of
  the same process.
\<close>

theorem write_session_exclusive:
  assumes "reachable d w" and "procs w p = Some (WRITE_SERVER, sv)" and "procs w q = Some (kd, sv2)"
    and "c \<in> sessions sv i" and "c2 \<in> sessions sv2 i"
  shows "q = p \<and> c2 = c"
  by (rule write_exclusive [OF reachable_inv [OF assms(1)] assms(2-5)])

theorem write_session_exclusive_witness:
  "\<exists>w sv. reachable demo_disk w \<and> procs w 7 = Some (WRITE_SERVER, sv) \<and> 4 \<in> sessions sv 1
     \<and> (\<forall>q kd sv2 c2. procs w q = Some (kd, sv2) \<longrightarrow> c2 \<in> sessions sv2 1 \<longrightarrow> q = 7 \<and> c2 = 4)"
proof -
  obtain w sv where w: "reachable demo_disk w" "procs w 7 = Some (WRITE_SERVER, sv)" "4 \<in> sessions sv 1"
    using demo_session by blast
  then show ?thesis using write_session_exclusive [OF w(1,2) _ w(3)] by blast
qed

text \<open>
  C3. While a session is open on an id, no step of any server that leaves the
  session open changes the record of that id.
\<close>

theorem record_stable_in_session:
  assumes "reachable d w" and "length d = 320" and "wstep w w'" and "stable_session w w' p c i" and "1 \<le> i"
  shows "nth_record (disk (kern w')) (i - 1) = nth_record (disk (kern w)) (i - 1)"
  by (rule stable_record [OF reachable_inv [OF assms(1)] assms(3) reachable_length [OF assms(1,2)] assms(4,5)])

lemma length_demo_disk: "length demo_disk = 320"
  by (simp add: demo_disk_def length_concat comp_def sum_list_triv)

theorem record_stable_in_session_witness:
  "\<exists>w w'. reachable demo_disk w \<and> wstep w w' \<and> stable_session w w' 7 4 1
     \<and> nth_record (disk (kern w')) 0 = nth_record (disk (kern w)) 0"
proof -
  obtain w sv where w: "reachable demo_disk w" "procs w 7 = Some (READ_SERVER, sv)" "4 \<in> sessions sv 1"
    using demo_session by blast
  have sess: "stable_session w w 7 4 1" using w by (auto simp: stable_session_def)
  let ?inp = "\<lparr>li_ready = {}, li_accept = Acc_again, li_read = Rd_err, li_junk = (0, 0, 0)\<rparr>"
  have "loop_iter READ_SERVER 7 ?inp (sv, kern w) = Ok (sv, kern w)" by (simp add: loop_iter_def)
  then have "wstep w \<lparr>procs = (procs w)(7 \<mapsto> (READ_SERVER, sv)), kern = kern w\<rparr>"
    by (intro wstep.iter [OF w(2), of ?inp]) (simp_all add: input_ok_def)
  moreover have "\<lparr>procs = (procs w)(7 \<mapsto> (READ_SERVER, sv)), kern = kern w\<rparr> = w"
    using w(2) by (cases w) (simp add: fun_upd_idem)
  ultimately have st: "wstep w w" by simp
  show ?thesis
    using record_stable_in_session [OF w(1) length_demo_disk st sess] w(1) st sess by auto
qed

text \<open>
  C4. In every reachable world the kernel's lock table holds exactly the bytes
  of the ids on which the live servers have sessions: a read lock for a read
  server, a write lock for a write server.
\<close>

theorem lock_table_exact:
  assumes "reachable d w" and "region i b"
  shows "fl_holds (locks (kern w)) q t b \<longleftrightarrow>
    (\<exists>kd sv. procs w q = Some (kd, sv) \<and> sessions sv i \<noteq> {} \<and> t = lock_kind kd)"
  by (rule holds_session [OF reachable_inv [OF assms(1)] assms(2)])

theorem lock_table_exact_witness:
  "\<exists>w. reachable demo_disk w \<and> region 1 14432000 \<and> fl_holds (locks (kern w)) 7 F_WRLCK 14432000"
proof -
  obtain w sv where w: "reachable demo_disk w" "procs w 7 = Some (WRITE_SERVER, sv)" "4 \<in> sessions sv 1"
    using demo_session by blast
  have r: "region 1 14432000" by (simp add: region_def)
  show ?thesis
    using lock_table_exact [OF w(1) r, of 7 F_WRLCK] w r by (auto simp: lock_kind_def)
qed

text \<open>
  C5. The lock arrays count: in every reachable world \<open>readlock[i]\<close> of a read
  server is the number of its sessions on id \<open>i\<close>, and \<open>writelock[i]\<close> of a write
  server says that it has one, and never more.
\<close>

theorem lock_arrays_count:
  assumes "reachable d w" and "procs w p = Some (kd, sv)"
  shows "case kd of
      READ_SERVER \<Rightarrow> sint (readlock sv i) = int (card (sessions sv i))
    | WRITE_SERVER \<Rightarrow> card (sessions sv i) = (if writelock sv i then 1 else 0)"
proof -
  have inv: "sv_inv kd sv" using reachable_sv [OF assms] by blast
  have "sint (word_of_nat (card (sessions sv i)) :: cint) = int (card (sessions sv i))"
    by (rule sint_of_nat [OF card_sessions [OF inv]])
  then show ?thesis using inv by (cases kd) (simp_all add: sv_inv_def counters_ok_def)
qed

theorem lock_arrays_count_witness:
  "\<exists>w sv. reachable demo_disk w \<and> procs w 7 = Some (READ_SERVER, sv) \<and> sessions sv 1 \<noteq> {}
     \<and> sint (readlock sv 1) = int (card (sessions sv 1))"
proof -
  obtain w sv where w: "reachable demo_disk w" "procs w 7 = Some (READ_SERVER, sv)" "4 \<in> sessions sv 1"
    using demo_session by blast
  then show ?thesis using lock_arrays_count [OF w(1,2), of 1] by auto
qed

text \<open>
  C6. A booking command is accepted exactly when it is the decimal form of three
  32-bit integers separated by single blanks, whatever the uninitialised
  variables held; any other line is answered with the error message.
\<close>

theorem command_accepted_iff:
  assumes "NUL \<notin> set line" "LF \<notin> set line" "CR \<notin> set line" "length line < 510"
  shows "\<exists>rq. rid rq = rid (requestP sv c) \<and>
    (\<forall>x y z. line = fmt_3d x y z \<longrightarrow>
       after_id_write p c (Rd_data (line @ [LF])) junk (sv, k) =
         Ok (apply_booking p c (x, y, z) (set_request c rq sv, k)))
    \<and> ((\<nexists>x y z. line = fmt_3d x y z) \<longrightarrow>
       after_id_write p c (Rd_data (line @ [LF])) junk (sv, k) =
         Ok (leave_write_with p c msg_error (set_request c rq sv, k)))"
proof -
  obtain rq where rq: "handle_read (requestP sv c) (Rd_data (line @ [LF])) = Ok (1, rq)"
    "cstr (buf rq) = line" "rid rq = rid (requestP sv c)"
    using handle_read_line [OF assms, of "[LF]" "requestP sv c"] by blast
  obtain x y z where m: "sscanf_3d line junk = (x, y, z)" by (cases "sscanf_3d line junk")
  have e: "after_id_write p c (Rd_data (line @ [LF])) junk (sv, k) =
    (if fmt_3d x y z = line then Ok (apply_booking p c (x, y, z) (set_request c rq sv, k))
     else Ok (leave_write_with p c msg_error (set_request c rq sv, k)))"
    by (simp add: after_id_write_def rq Let_def m)
  have same: "(x', y', z') = (x, y, z)" if "line = fmt_3d x' y' z'" for x' y' z'
    using m that by auto
  show ?thesis
  proof (intro exI [of _ rq] conjI allI impI)
    fix x' y' z' assume l: "line = fmt_3d x' y' z'"
    show "after_id_write p c (Rd_data (line @ [LF])) junk (sv, k) =
      Ok (apply_booking p c (x', y', z') (set_request c rq sv, k))"
      using e same [OF l] l by simp
  next
    assume "\<nexists>x y z. line = fmt_3d x y z"
    then have "fmt_3d x y z \<noteq> line" by blast
    then show "after_id_write p c (Rd_data (line @ [LF])) junk (sv, k) =
      Ok (leave_write_with p c msg_error (set_request c rq sv, k))" using e by simp
  qed (rule rq(3))
qed

theorem command_accepted_iff_witness:
  "\<exists>rq. after_id_write 7 4 (Rd_data (''3 -2 4'' @ [LF])) (0, 0, 0) (demo_accepted, kern (init_world demo_disk)) =
     Ok (apply_booking 7 4 (3, -2, 4) (set_request 4 rq demo_accepted, kern (init_world demo_disk)))"
proof -
  have f: "''3 -2 4'' = fmt_3d 3 (-2) 4" by (simp add: fmt_eval)
  obtain rq where "\<forall>x y z. ''3 -2 4'' = fmt_3d x y z \<longrightarrow>
      after_id_write 7 4 (Rd_data (''3 -2 4'' @ [LF])) (0, 0, 0) (demo_accepted, kern (init_world demo_disk)) =
        Ok (apply_booking 7 4 (x, y, z) (set_request 4 rq demo_accepted, kern (init_world demo_disk)))"
    using command_accepted_iff [of "''3 -2 4''" demo_accepted 4 7 "(0, 0, 0)" "kern (init_world demo_disk)"]
    by auto
  then show ?thesis using f by blast
qed

text \<open>
  C7. A command applied to a record does what the README says over the integers
  when all numbers are below \<open>2^28\<close>: more than 15 in total or a negative amount
  is refused with its message and leaves the file alone, anything else is
  stored in that record and no other, confirmed, and the connection is closed.
\<close>

theorem booking_refines_spec:
  assumes "valid_rid (rid (requestP sv c))" and "length (disk k) = 320"
    and "length (bookingState (temp sv)) = 3"
    and "list_all small (bookingState (nth_record (disk k) (lock_slot (rid (requestP sv c)) - 1)))"
    and "small x" "small y" "small z"
  shows "reply_matches p (conn_fd (requestP sv c)) (rid (requestP sv c)) (lock_slot (rid (requestP sv c)))
    k (snd (apply_booking p c (x, y, z) (sv, k)))
    (book_spec (map sint (bookingState (nth_record (disk k) (lock_slot (rid (requestP sv c)) - 1))))
       (map sint [x, y, z]))"
  by (rule apply_booking_spec [OF assms])

definition demo_client :: server where
  "demo_client = set_request 4 ((requestP demo_accepted 4)\<lparr>rid := 902001, wait_for_write := True\<rparr>) demo_accepted"

lemma demo_client_facts:
  "rid (requestP demo_client 4) = 902001" "conn_fd (requestP demo_client 4) = 4"
  "length (bookingState (temp demo_client)) = 3" "valid_rid 902001" "lock_slot 902001 = 1"
  by (simp_all add: demo_client_def demo_accepted_def demo_server_def start_server_def set_request_def
      valid_rid_def lock_slot_def id_index_def)

lemma demo_record: "bookingState (nth_record demo_disk 0) = [1, 3, 0]"
proof -
  let ?r = "\<lparr>b_id = 902001, bookingState = [1, 3, 0]\<rparr>"
  have e: "demo_disk = record_bytes ?r @ concat (map (\<lambda>i. record_bytes \<lparr>b_id = 902001 + word_of_nat i,
     bookingState = [1, 3, 0]\<rparr>) [1..<20])"
    by (simp add: demo_disk_def upt_conv_Cons)
  show ?thesis unfolding nth_record_def file_read_def e by simp
qed

theorem booking_refines_spec_witness:
  "let k = kern (init_world demo_disk); k' = snd (apply_booking 7 4 (3, -2, 4) (demo_client, k))
   in map sint (bookingState (nth_record (disk k') 0)) = [4, 1, 4]
      \<and> nth_record (disk k') 5 = nth_record (disk k) 5"
proof -
  have d: "disk (kern (init_world demo_disk)) = demo_disk" by (simp add: init_world_def)
  have "reply_matches 7 (conn_fd (requestP demo_client 4)) (rid (requestP demo_client 4))
    (lock_slot (rid (requestP demo_client 4))) (kern (init_world demo_disk))
    (snd (apply_booking 7 4 (3, -2, 4) (demo_client, kern (init_world demo_disk))))
    (book_spec (map sint (bookingState (nth_record (disk (kern (init_world demo_disk)))
      (lock_slot (rid (requestP demo_client 4)) - 1)))) (map sint [3 :: cint, -2, 4]))"
    by (rule booking_refines_spec)
      (simp_all add: demo_client_facts d length_demo_disk demo_record small_def)
  then show ?thesis
    by (simp add: reply_matches_def book_spec_def demo_client_facts d demo_record)
qed

text \<open>
  C8. The limit of 15 is checked on 32-bit numbers, which wrap. A command is
  stored exactly when the three new values, cut to 32 bits, are not negative
  and their true sum is at most 15 or lies between \<open>2 ^ 31\<close> and \<open>2 ^ 32 + 15\<close>,
  where the sum of the code has wrapped; what is stored are the cut values,
  and otherwise the record stays.
\<close>

theorem booking_limit_overflow:
  fixes a b d :: cint
  assumes "valid_rid (rid (requestP sv c))" and "length (disk k) = 320" and "length (bookingState (temp sv)) = 3"
  shows "let i = lock_slot (rid (requestP sv c)) - 1;
             old = map sint (bookingState (nth_record (disk k) i));
             new = map2 (\<lambda>x y. cut32 (x + y)) old (map sint [a, b, d])
         in map sint (bookingState (nth_record (disk (snd (apply_booking p c (a, b, d) (sv, k)))) i))
            = (if list_all (\<lambda>x. 0 \<le> x) new \<and> (sum_list new \<le> 15 \<or> 2 ^ 31 \<le> sum_list new \<and> sum_list new \<le> 2 ^ 32 + 15)
               then new else old)"
proof -
  let ?i = "lock_slot (rid (requestP sv c))"
  let ?st = "bookingState (nth_record (disk k) (?i - 1))"
  let ?new = "booked ?i (sv, k) (a, b, d)"
  have i: "1 \<le> ?i" "?i \<le> 20" using valid_rid_slot_range [OF assms(1)] by auto
  have st3: "length ?st = 3" by (simp add: nth_record_def)
  have new: "?new = new_state ?st (a, b, d)" by (simp add: booked_def load_record_nth [OF assms(2) i assms(3)])
  have Z: "map sint ?new = map2 (\<lambda>x y. cut32 (x + y)) (map sint ?st) (map sint [a, b, d])"
    unfolding new by (rule new_state_cut [OF st3])
  have len: "length ?new = 3" unfolding new using st3 by (simp add: new_state_def del: One_nat_def)
  have stored: "map sint (bookingState (nth_record (disk (snd (apply_booking p c (a, b, d) (sv, k)))) (?i - 1)))
      = (if within_limits ?new then map sint ?new else map sint ?st)"
  proof (cases "within_limits ?new")
    case True
    obtain sv3 k3 r where w: "apply_booking p c (a, b, d) (sv, k) = leave_write p c (sv3, k3)"
      "length (bookingState r) = 3" "bookingState r = ?new"
      "disk k3 = file_write (disk k) (16 * (?i - 1)) (record_bytes r)"
      using apply_booking_cases(3) [OF True] by blast
    have room: "16 * (?i - 1) + 16 \<le> length (disk k)" using i assms(2) by simp
    show ?thesis
      using True nth_record_write_same [OF room w(2)] disk_leave_write [of p c "(sv3, k3)"] by (simp add: w)
  next
    case False
    then have "disk (snd (apply_booking p c (a, b, d) (sv, k))) = disk k"
      using apply_booking_cases(1,2) [of sv c k "(a, b, d)" p] disk_leave_write_with
      by (cases "c_less 15 (sum_state ?new)") (auto simp: within_limits_def list_all_iff list_ex_iff)
    then show ?thesis using False by simp
  qed
  show ?thesis
    unfolding Let_def stored within_limits_sums [OF len] Z by simp
qed

theorem booking_limit_overflow_witness:
  "map sint (bookingState (nth_record
     (disk (snd (apply_booking 7 4 (2147483646, 2147483644, 2) (demo_client, kern (init_world demo_disk))))) 0))
   = [2147483647, 2147483647, 2]"
proof -
  let ?k = "kern (init_world demo_disk)"
  have d: "disk ?k = demo_disk" by (simp add: init_world_def)
  have s: "lock_slot (rid (requestP demo_client 4)) = 1" by (simp add: demo_client_facts)
  have v: "valid_rid (rid (requestP demo_client 4))" by (simp add: demo_client_facts)
  show ?thesis
    using booking_limit_overflow [OF v, of ?k 2147483646 2147483644 2 7] demo_record
    by (simp add: d length_demo_disk demo_client_facts Let_def cut32_def)
qed

text \<open>
  C9. Which ids a server accepts: a line of decimal digits with value \<open>n\<close> is
  valid exactly when \<open>n\<close> modulo \<open>2^32\<close> lies between 902001 and 902020, so the
  twenty users and also, because \<open>atoi\<close> cuts to 32 bits, numbers such as
  4295869297.
\<close>

theorem id_valid_iff:
  assumes "cstr (buf rq) = dec_nat n" and "n < 2 ^ 63"
  shows "snd (check_id rq) \<longleftrightarrow> 902001 \<le> n mod 2 ^ 32 \<and> n mod 2 ^ 32 \<le> 902020"
proof -
  let ?w = "word_of_nat n :: cint"
  have "isdigit (hd (dec_nat n))" by (rule hd_dec_nat)
  then have ss: "sign_split (dropWhile isspace (dec_nat n)) = (False, dec_nat n)"
    by (cases "dec_nat n") (auto simp: isdigit_not_special)
  have a: "atoi (dec_nat n) = ?w"
    using assms(2)
    by (simp add: atoi_def scan_d_def ss signed_val_def clamp_long_def Let_def takeWhile_all dec_nat_digits)
  have loop: "id_loop (dec_nat n) True"
    using dec_nat_digits [of n] by (simp add: id_loop_digits list_all_iff)
  have u: "unat ?w = n mod 2 ^ 32" by (simp add: unat_of_nat)
  have "1 \<le> sint (id_index ?w) \<and> sint (id_index ?w) \<le> 20 \<longleftrightarrow> 902001 \<le> unat ?w \<and> unat ?w \<le> 902020"
  proof
    assume s: "1 \<le> sint (id_index ?w) \<and> sint (id_index ?w) \<le> 20"
    define j where "j = nat (sint (id_index ?w))"
    have j: "1 \<le> j" "j \<le> 20" "sint (id_index ?w) = int j" using s by (auto simp: j_def)
    have "id_index ?w = word_of_int (int j)" using j(3) word_of_sint by metis
    then have "?w = word_of_nat (902000 + j)" by (simp add: id_index_def diff_eq_eq add.commute)
    then have "unat ?w = unat (word_of_nat (902000 + j) :: cint)" by (rule arg_cong)
    also have "\<dots> = 902000 + j" using j by (simp only: unat_of_nat) simp
    finally show "902001 \<le> unat ?w \<and> unat ?w \<le> 902020" using j by simp
  next
    assume s: "902001 \<le> unat ?w \<and> unat ?w \<le> 902020"
    define m where "m = unat ?w"
    have m: "902001 \<le> m" "m \<le> 902020" "?w = word_of_nat m" using s by (simp_all add: m_def)
    have "id_index ?w = word_of_int (int m - 902000)" by (simp add: id_index_def m(3))
    then have "sint (id_index ?w) = int m - 902000"
      using m(1,2) by (simp only:) (rule sint_of_int, simp add: int_fits_def)
    then show "1 \<le> sint (id_index ?w) \<and> sint (id_index ?w) \<le> 20" using m(1,2) by auto
  qed
  then show ?thesis
    unfolding u [symmetric] using loop assms(1)
    by (auto simp: check_id_def Let_def a c_less_def)
qed

theorem id_valid_iff_witness:
  "snd (check_id ((requestP demo_accepted 4)\<lparr>buf := ''4295869297''\<rparr>))
   \<and> \<not> snd (check_id ((requestP demo_accepted 4)\<lparr>buf := ''902021''\<rparr>))"
proof -
  have d: "dec_nat 4295869297 = ''4295869297''" "dec_nat 902021 = ''902021''"
    by (simp_all add: fmt_eval)
  have c: "cstr (buf ((requestP demo_accepted 4)\<lparr>buf := dec_nat n\<rparr>)) = dec_nat n" for n
    using dec_nat_digits [of n] isdigit_not_special(4) by (auto simp: cstr_def takeWhile_eq_all_conv)
  show ?thesis
    using id_valid_iff [OF c, of 4295869297] id_valid_iff [OF c, of 902021] unfolding d by simp
qed

text \<open>
  C10. What ends a server: data without any line end before the first NUL, other
  than Telnet's interrupt, terminates the process, whoever sent it; every other
  non-empty read that leaves room for a NUL is a line or a disconnection.
\<close>

theorem unterminated_line_exits:
  assumes "bs \<noteq> []" and "NUL \<in> set (fill_buf bs)"
  shows "handle_read rq (Rd_data bs) = Exit \<longleftrightarrow>
    LF \<notin> set (cstr (fill_buf bs)) \<and> take 2 (fill_buf bs) \<noteq> IAC_IP"
proof -
  let ?s = "cstr (fill_buf bs)"
  have lf: "strstr ?s [LF] = None \<longleftrightarrow> LF \<notin> set ?s"
    by (simp add: strstr_None sublist_singleton)
  have "strstr ?s [CR, LF] \<noteq> None \<Longrightarrow> LF \<in> set ?s"
    unfolding strstr_not_None using set_mono_sublist [of "[CR, LF]" ?s] by auto
  then have "LF \<notin> set ?s \<Longrightarrow> strstr ?s [CR, LF] = None" by blast
  then show ?thesis
    using assms lf by (auto simp: handle_read_def Let_def split: option.splits)
qed

theorem unterminated_line_exits_witness:
  "handle_read (requestP demo_accepted 4) (Rd_data ''902001'') = Exit"
proof -
  have f: "fill_buf ''902001'' = ''902001'' @ NUL # replicate 505 NUL"
    unfolding fill_buf_def by (subst replicate_Suc [symmetric]) simp
  have "cstr (fill_buf ''902001'') = ''902001''"
    unfolding f by (rule cstr_append_NUL) simp
  moreover have "NUL \<in> set (fill_buf ''902001'')" "take 2 (fill_buf ''902001'') \<noteq> IAC_IP"
    unfolding f by (simp_all add: IAC_IP_def)
  ultimately show ?thesis using unterminated_line_exits [of "''902001''" "requestP demo_accepted 4"] by simp
qed

end
