(* ===== verification/Thread_Funcs.thy ===== *)
theory Thread_Funcs
  imports C_Strings
begin

text \<open>
  The user threads of thread-library (threads.c, threadtools.h): the thread
  control block, the body of the loop each thread function runs between two
  context switches, and what it computes: the Fibonacci numbers, the Collatz
  sequence, and the largest sum of a subarray of the numbers read so far
  (Kadane's algorithm), all in 32-bit arithmetic.

  An \<open>environment\<close> (a \<open>jmp_buf\<close>) is the place \<open>setjmp\<close> was called at: the
  function and which of its three calls, the one in \<open>thread_setup\<close>, in
  \<open>async_read\<close> or in \<open>thread_yield\<close>. No local variable of a thread function
  is live across a switch, so nothing else of the frame matters.
\<close>

section \<open>Thread control block\<close>

datatype func = Fibonacci | Collatz | Max_subarray

datatype resume = After_setup | After_read | After_yield

record tcb =
  t_id :: cint
  environment :: "func \<times> resume"
  t_arg :: cint
  t_fd :: nat
  t_buf :: string
  fifoname :: string
  t_i :: cint
  t_x :: cint
  t_y :: cint

text \<open>\<open>__func__\<close>\<close>

fun func_name :: "func \<Rightarrow> string" where
  "func_name Fibonacci = ''fibonacci''"
| "func_name Collatz = ''collatz''"
| "func_name Max_subarray = ''max_subarray''"

section \<open>Loop bodies\<close>

definition fib_body :: "tcb \<Rightarrow> tcb" where
  "fib_body t =
     (if c_le (t_i t) 2 then t\<lparr>t_x := 1, t_y := 1\<rparr>
      else let tmp = t_y t in t\<lparr>t_y := t_x t + t_y t, t_x := tmp\<rparr>)"

definition collatz_body :: "tcb \<Rightarrow> tcb" where
  "collatz_body t =
     (if c_mod (t_arg t) 2 = 0 then t\<lparr>t_arg := c_div (t_arg t) 2\<rparr>
      else t\<lparr>t_arg := t_arg t * 3 + 1\<rparr>)"

definition max_body :: "tcb \<Rightarrow> tcb" where
  "max_body t =
     (let tmp = atoi (cstr (t_buf t)) in
      if t_i t = 1
      then (if c_less tmp 0 then t\<lparr>t_y := tmp, t_x := 0\<rparr> else t\<lparr>t_y := tmp, t_x := tmp\<rparr>)
      else
        let t1 = (if c_less 0 (t_y t) then t\<lparr>t_y := t_y t + tmp\<rparr> else t\<lparr>t_y := tmp\<rparr>)
        in if c_less (t_x t1) (t_y t1) then t1\<lparr>t_x := t_y t1\<rparr> else t1)"

text \<open>The body, the value \<open>printf\<close> shows and the test for the end, per function.\<close>

fun loop_body :: "func \<Rightarrow> tcb \<Rightarrow> tcb" where
  "loop_body Fibonacci t = fib_body t"
| "loop_body Collatz t = collatz_body t"
| "loop_body Max_subarray t = max_body t"

fun printed_value :: "func \<Rightarrow> tcb \<Rightarrow> cint" where
  "printed_value Fibonacci t = t_y t"
| "printed_value Collatz t = t_arg t"
| "printed_value Max_subarray t = t_x t"

fun loop_ends :: "func \<Rightarrow> tcb \<Rightarrow> bool" where
  "loop_ends Fibonacci t \<longleftrightarrow> t_i t = t_arg t"
| "loop_ends Collatz t \<longleftrightarrow> t_arg t = 1"
| "loop_ends Max_subarray t \<longleftrightarrow> t_i t = t_arg t"

text \<open>\<open>for (RUNNING->i = 1;; RUNNING->i++)\<close>: where the next round starts.\<close>

definition next_i :: "resume \<Rightarrow> tcb \<Rightarrow> tcb" where
  "next_i r t = (if r = After_setup then t\<lparr>t_i := 1\<rparr> else t\<lparr>t_i := t_i t + 1\<rparr>)"

text \<open>\<open>read (fd, buf, count)\<close> overwrites the front of the buffer.\<close>

definition buf_write :: "string \<Rightarrow> string \<Rightarrow> string" where
  "buf_write bytes b = bytes @ drop (length bytes) b"

lemmas body_defs = fib_body_def collatz_body_def max_body_def Let_def

lemma loop_body_frame [simp]:
  "t_id (loop_body f t) = t_id t" "environment (loop_body f t) = environment t"
  "t_fd (loop_body f t) = t_fd t" "fifoname (loop_body f t) = fifoname t"
  "t_i (loop_body f t) = t_i t" "t_buf (loop_body f t) = t_buf t"
  by (cases f; simp add: body_defs)+

lemma loop_body_arg: "f \<noteq> Collatz \<Longrightarrow> t_arg (loop_body f t) = t_arg t"
  by (cases f) (simp_all add: body_defs)

lemma next_i_frame [simp]:
  "t_id (next_i r t) = t_id t" "environment (next_i r t) = environment t"
  "t_fd (next_i r t) = t_fd t" "fifoname (next_i r t) = fifoname t"
  "t_arg (next_i r t) = t_arg t" "t_x (next_i r t) = t_x t" "t_y (next_i r t) = t_y t"
  "t_buf (next_i r t) = t_buf t"
  by (simp_all add: next_i_def)

section \<open>Fibonacci\<close>

fun fib :: "nat \<Rightarrow> nat" where
  "fib 0 = 0"
| "fib (Suc 0) = 1"
| "fib (Suc (Suc n)) = fib (Suc n) + fib n"

text \<open>The fields after \<open>k\<close> rounds.\<close>

definition fib_state :: "cint \<Rightarrow> nat \<Rightarrow> tcb \<Rightarrow> bool" where
  "fib_state a k t \<longleftrightarrow> t_arg t = a \<and> t_i t = word_of_nat k \<and> t_y t = word_of_nat (fib k)
     \<and> (1 < k \<longrightarrow> t_x t = word_of_nat (fib (k - 1)))"

lemma c_le_of_nat: "k < 2 ^ 31 \<Longrightarrow> c_le (word_of_nat k) 2 \<longleftrightarrow> k \<le> 2"
  by (simp add: c_le_def sint_of_nat)

lemma fib_state_first: "t_arg t = a \<Longrightarrow> fib_state a 1 (loop_body Fibonacci (next_i After_setup t))"
  by (simp add: fib_state_def fib_body_def next_i_def c_le_def)

lemma fib_state_next:
  assumes "fib_state a k t" and "0 < k" and "Suc k < 2 ^ 31" and "r \<noteq> After_setup"
  shows "fib_state a (Suc k) (loop_body Fibonacci (next_i r t))"
proof -
  have i: "t_i (next_i r t) = word_of_nat (Suc k)"
    using assms by (simp add: fib_state_def next_i_def)
  consider "k = 1" | m where "k = Suc (Suc m)"
    using \<open>0 < k\<close> by (metis One_nat_def gr0_implies_Suc not0_implies_Suc)
  then show ?thesis
  proof cases
    case 1
    then show ?thesis using assms i by (simp add: fib_state_def fib_body_def c_le_def)
  next
    case 2
    then have "\<not> c_le (t_i (next_i r t)) 2"
      using c_le_of_nat [OF assms(3)] i by simp
    with 2 show ?thesis using assms i by (simp add: fib_state_def fib_body_def Let_def)
  qed
qed

section \<open>Collatz\<close>

definition collatz_word :: "cint \<Rightarrow> cint" where
  "collatz_word a = (if c_mod a 2 = 0 then c_div a 2 else a * 3 + 1)"

definition collatz :: "int \<Rightarrow> int" where
  "collatz n = (if even n then n div 2 else 3 * n + 1)"

lemma loop_body_collatz [simp]: "t_arg (loop_body Collatz t) = collatz_word (t_arg t)"
  by (simp add: collatz_body_def collatz_word_def)

lemma sint_2 [simp]: "sint (2 :: cint) = 2"
  by simp

lemma c_mod_2: "0 \<le> sint a \<Longrightarrow> c_mod a 2 = 0 \<longleftrightarrow> even (sint a)"
proof -
  assume a: "0 \<le> sint a"
  have "sint a mod 2 = 0 \<or> sint a mod 2 = 1" by presburger
  then have "int_fits (sint a mod 2)" by (auto simp: int_fits_def)
  then have "sint (c_mod a 2) = sint a mod 2"
    using a by (simp add: c_mod_def signed_modulo_int_def sint_of_int sgn_if)
  then show ?thesis by (metis even_iff_mod_2_eq_zero sint_0 sint_inject)
qed

lemma c_div_2: "0 \<le> sint a \<Longrightarrow> sint (c_div a 2) = sint a div 2"
proof -
  assume a: "0 \<le> sint a"
  have "int_fits (sint a)" by simp
  then have "int_fits (sint a div 2)" using a by (simp add: int_fits_def) linarith
  then show ?thesis using a by (simp add: c_div_def signed_divide_int_def sint_of_int sgn_if)
qed

text \<open>The word operation is the mathematical one as long as the result fits.\<close>

lemma sint_collatz_word:
  assumes "0 \<le> sint a" and "int_fits (collatz (sint a))"
  shows "sint (collatz_word a) = collatz (sint a)"
proof (cases "even (sint a)")
  case True
  then show ?thesis using assms by (simp add: collatz_word_def collatz_def c_mod_2 c_div_2)
next
  case False
  then have e: "collatz (sint a) = sint a * 3 + 1" by (simp add: collatz_def)
  have f: "int_fits (sint a * 3)" using assms e by (simp add: int_fits_def)
  then have m: "sint (a * 3) = sint a * 3" using sint_mult [of a 3] by simp
  have "sint (a * 3 + 1) = sint a * 3 + 1"
    using sint_add [of "a * 3" 1] assms(2) e m by simp
  with False show ?thesis using assms e by (simp add: collatz_word_def c_mod_2)
qed

lemma collatz_nonneg: "0 \<le> n \<Longrightarrow> 0 \<le> collatz n"
  by (simp add: collatz_def)

lemma sint_collatz_iter:
  assumes "0 \<le> sint a" and "\<forall>j\<le>k. int_fits ((collatz ^^ j) (sint a))"
  shows "sint ((collatz_word ^^ k) a) = (collatz ^^ k) (sint a) \<and> 0 \<le> (collatz ^^ k) (sint a)"
  using assms(2)
proof (induction k)
  case (Suc k)
  then have IH: "sint ((collatz_word ^^ k) a) = (collatz ^^ k) (sint a)"
    "0 \<le> (collatz ^^ k) (sint a)" by simp_all
  have "int_fits ((collatz ^^ Suc k) (sint a))" using Suc.prems by blast
  then show ?case using sint_collatz_word [of "(collatz_word ^^ k) a"] IH
    by (simp add: collatz_nonneg)
qed (simp add: assms(1))

section \<open>Largest subarray sum\<close>

text \<open>The two accumulators over the values read; the first round sets them.\<close>

definition kadane_first :: "cint \<Rightarrow> cint \<times> cint" where
  "kadane_first v = (v, if c_less v 0 then 0 else v)"

definition kadane_step :: "cint \<times> cint \<Rightarrow> cint \<Rightarrow> cint \<times> cint" where
  "kadane_step m v = (case m of (y, x) \<Rightarrow>
     let y' = (if c_less 0 y then y + v else v) in (y', if c_less x y' then y' else x))"

fun kadane :: "cint list \<Rightarrow> cint \<times> cint" where
  "kadane [] = (0, 0)"
| "kadane (v # vs) = foldl kadane_step (kadane_first v) vs"

definition max_state :: "cint \<Rightarrow> cint list \<Rightarrow> tcb \<Rightarrow> bool" where
  "max_state a vs t \<longleftrightarrow> t_arg t = a \<and> t_i t = word_of_nat (length vs)
     \<and> (vs \<noteq> [] \<longrightarrow> (t_y t, t_x t) = kadane vs)"

lemma kadane_snoc: "vs \<noteq> [] \<Longrightarrow> kadane (vs @ [v]) = kadane_step (kadane vs) v"
  by (cases vs) auto

lemma max_body_first:
  "t_i t = 1 \<Longrightarrow> (t_y (max_body t), t_x (max_body t)) = kadane_first (atoi (cstr (t_buf t)))"
  by (simp add: max_body_def kadane_first_def Let_def)

lemma max_body_next:
  "t_i t \<noteq> 1 \<Longrightarrow>
     (t_y (max_body t), t_x (max_body t)) = kadane_step (t_y t, t_x t) (atoi (cstr (t_buf t)))"
  by (simp add: max_body_def kadane_step_def Let_def)

text \<open>All sums of consecutive values, the empty one included.\<close>

definition best_sum :: "int list \<Rightarrow> int" where
  "best_sum vs = Max (sum_list ` set (sublists vs))"

definition best_suffix :: "int list \<Rightarrow> int" where
  "best_suffix vs = Max (sum_list ` {s. suffix s vs \<and> s \<noteq> []})"

text \<open>The nonempty suffixes and all sublists, split at the last value.\<close>

abbreviation tails :: "int list \<Rightarrow> int list set" where
  "tails vs \<equiv> {s. suffix s vs \<and> s \<noteq> []}"

lemma finite_tails: "finite (tails vs)"
  by (rule finite_subset [of _ "set (suffixes vs)"]) auto

lemma finite_sublists: "finite {s. sublist s vs}"
  using finite_set [of "sublists vs"] by (simp only: set_sublists_eq)

lemma tails_snoc: "tails (vs @ [v]) = (\<lambda>s. s @ [v]) ` insert [] (tails vs)"
  by (auto simp: suffix_snoc)

lemma tails_nonempty: "vs \<noteq> [] \<Longrightarrow> tails vs \<noteq> {}"
  by auto

lemma sublists_snoc: "{s. sublist s (vs @ [v])} = {s. sublist s vs} \<union> tails (vs @ [v])"
  unfolding sublist_snoc by auto

lemma best_suffix_snoc:
  assumes "vs \<noteq> []"
  shows "best_suffix (vs @ [v]) = max (best_suffix vs) 0 + v"
proof -
  note ne = tails_nonempty [OF assms]
  have "best_suffix (vs @ [v]) = Max ((\<lambda>s. sum_list s + v) ` insert [] (tails vs))"
    unfolding best_suffix_def tails_snoc image_image by simp
  also have "\<dots> = Max (sum_list ` insert [] (tails vs)) + v"
    by (rule Max_add_commute) (simp_all add: finite_tails)
  also have "Max (sum_list ` insert [] (tails vs)) = max 0 (Max (sum_list ` tails vs))"
    unfolding image_insert using Max_insert [of "sum_list ` tails vs" 0] finite_tails ne by simp
  finally show ?thesis by (simp add: best_suffix_def max.commute)
qed

lemma best_sum_snoc: "best_sum (vs @ [v]) = max (best_sum vs) (best_suffix (vs @ [v]))"
proof -
  have "[] \<in> {s. sublist s vs}" by simp
  then have ne: "sum_list ` {s. sublist s vs} \<noteq> {}" by blast
  have ne': "sum_list ` tails (vs @ [v]) \<noteq> {}" using tails_nonempty by blast
  show ?thesis
    unfolding best_sum_def best_suffix_def set_sublists_eq sublists_snoc image_Un
    using Max_Un [OF finite_imageI [OF finite_sublists] ne finite_imageI [OF finite_tails] ne'] .
qed

lemma best_singleton: "best_suffix [v] = v" "best_sum [v] = max 0 v"
proof -
  have "tails [v] = {[v]}" by (auto simp: suffix_Cons)
  then show s: "best_suffix [v] = v" unfolding best_suffix_def by simp
  show "best_sum [v] = max 0 v"
    using best_sum_snoc [of "[]" v] s by (simp add: best_sum_def)
qed

text \<open>Nothing overflows when the absolute values add up to less than \<open>2 ^ 31\<close>.\<close>

lemma best_suffix_bound: "vs \<noteq> [] \<Longrightarrow> \<bar>best_suffix vs\<bar> \<le> sum_list (map abs vs)"
proof (induction vs rule: rev_induct)
  case (snoc v vs)
  then show ?case
    by (cases "vs = []") (auto simp: best_singleton best_suffix_snoc)
qed simp

lemma kadane_correct:
  assumes "vs \<noteq> []" and "sum_list (map (\<lambda>v. \<bar>sint v\<bar>) vs) < 2 ^ 31"
  shows "sint (fst (kadane vs)) = best_suffix (map sint vs) \<and>
    sint (snd (kadane vs)) = best_sum (map sint vs)"
  using assms
proof (induction vs rule: rev_induct)
  case (snoc v vs)
  show ?case
  proof (cases "vs = []")
    case True
    then show ?thesis by (simp add: kadane_first_def c_less_def best_singleton)
  next
    case False
    obtain y x where yx: "kadane vs = (y, x)" by fastforce
    have bound: "sum_list (map (\<lambda>v. \<bar>sint v\<bar>) vs) + \<bar>sint v\<bar> < 2 ^ 31" using snoc.prems by simp
    then have "sint y = best_suffix (map sint vs)" "sint x = best_sum (map sint vs)"
      using snoc.IH False yx by (simp_all del: One_nat_def)
    moreover from this have "\<bar>sint y\<bar> + \<bar>sint v\<bar> < 2 ^ 31"
      using bound best_suffix_bound [of "map sint vs"] False by (simp add: o_def)
    then have "sint (y + v) = sint y + sint v"
      by (intro sint_add) (simp add: int_fits_def, linarith)
    ultimately show ?thesis
      using False yx best_suffix_snoc [of "map sint vs" "sint v"] best_sum_snoc [of "map sint vs" "sint v"]
      by (simp add: kadane_snoc kadane_step_def Let_def c_less_def max_def del: sint_inject)
  qed
qed simp

text \<open>
  The numbers \<open>max_subarray\<close> gets from its reads: \<open>atoi\<close> of a buffer whose
  front each read overwrites.
\<close>

fun read_values :: "string \<Rightarrow> string list \<Rightarrow> cint list" where
  "read_values b [] = []"
| "read_values b (c # cs) = atoi (cstr (buf_write c b)) # read_values (buf_write c b) cs"

definition buf_after :: "string \<Rightarrow> string list \<Rightarrow> string" where
  "buf_after b cs = foldl (\<lambda>b c. buf_write c b) b cs"

lemma read_values_snoc:
  "read_values b (cs @ [c]) = read_values b cs @ [atoi (cstr (buf_after b (cs @ [c])))]"
  by (induction cs arbitrary: b) (simp_all add: buf_after_def)

lemma length_read_values [simp]: "length (read_values b cs) = length cs"
  by (induction cs arbitrary: b) simp_all

text \<open>A line padded with blanks in front is read as its number, whatever the buffer held.\<close>

lemma dropWhile_isspace_blanks: "dropWhile isspace (replicate n CHR '' '' @ s) = dropWhile isspace s"
  by (induction n) simp_all

lemma isspace_LF: "isspace LF" and isdigit_LF: "\<not> isdigit LF"
  by (simp_all add: isspace_def isdigit_def char_code_def)

lemma atoi_padded_line:
  "atoi (cstr (buf_write (replicate n CHR '' '' @ fmt_d v @ [LF]) b)) = v"
proof -
  let ?l = "replicate n CHR '' '' @ fmt_d v @ [LF]"
  have "NUL \<notin> set ?l" using fmt_d_clean by force
  then have "cstr (buf_write ?l b) = ?l @ cstr (drop (length ?l) b)"
    unfolding cstr_def buf_write_def by (subst takeWhile_append2) auto
  then obtain r where "cstr (buf_write ?l b) = replicate n CHR '' '' @ fmt_d v @ LF # r"
    by simp
  moreover have "scan_d (replicate n CHR '' '' @ fmt_d v @ LF # r) = scan_d (fmt_d v @ LF # r)"
    by (simp add: scan_d_def dropWhile_isspace_blanks)
  moreover have "scan_d (fmt_d v @ LF # r) = Some (v, LF # r)"
    by (rule scan_d_fmt_d) (simp add: isdigit_LF)
  ultimately show ?thesis by (simp add: atoi_def)
qed

lemma read_values_padded:
  "read_values b (map (\<lambda>(n, v). replicate n CHR '' '' @ fmt_d v @ [LF]) ls) = map snd ls"
  by (induction ls arbitrary: b) (auto simp: atoi_padded_line)

end
