(* ===== verification/Thread_Sched.thy ===== *)
theory Thread_Sched
  imports Thread_Funcs "HOL-Library.Monad_Syntax"
begin

text \<open>
  The thread library proper (scheduler.c, threadtools.h, main.c): the process
  with its two queues, the thread control blocks on the heap, the signal mask,
  the alarm and the FIFOs it reads, and its operations \<open>scheduler\<close>,
  \<open>sighandler\<close>, \<open>thread_setup\<close>, \<open>thread_yield\<close>, \<open>async_read\<close>,
  \<open>thread_exit\<close> and \<open>main\<close>. Each operation is a function on the process
  that returns \<open>None\<close> where C would dereference \<open>NULL\<close>, leave an array or
  divide by zero. \<open>step\<close> is what the process does next; the relation
  \<open>tstep\<close> interleaves it with its environment: the terminal's SIGTSTP, the
  alarm running out, and the writers of the FIFOs.
\<close>

section \<open>The process\<close>

datatype signal = SIGTSTP | SIGALRM

text \<open>What a process shows: the lines it prints and the bytes its reads return.\<close>

datatype event = Printed cint cint | Caught signal | Did_read string

fun render :: "event \<Rightarrow> string" where
  "render (Printed i v) = fmt_d i @ '' '' @ fmt_d v @ [LF]"
| "render (Caught SIGTSTP) = ''caught SIGTSTP'' @ [LF]"
| "render (Caught SIGALRM) = ''caught SIGALRM'' @ [LF]"
| "render (Did_read _) = []"

text \<open>
  Where the process is: at a place \<open>longjmp\<close> went to (or \<open>thread_yield\<close> fell
  through to), in the scheduler with the value its \<open>setjmp\<close> returned, in its
  loop that waits for the last thread's data, or in \<open>thread_yield\<close> after the
  first or the second of its three calls to \<open>sigprocmask\<close>.
\<close>

datatype pc = At func resume | Sched int | Waiting | Yield_tstp func | Yield_alrm func | Returned | Crashed

type_synonym ptr = "nat option"

record fifo =
  f_data :: string
  f_hup :: bool

record threads =
  ready_queue :: "ptr list"
  waiting_queue :: "ptr list"
  rq_size :: nat
  rq_current :: nat
  wq_size :: nat
  heap :: "nat \<Rightarrow> tcb option"
  brk :: nat
  timeslice :: cuint
  blocked :: "signal set"
  pending :: "signal set"
  timer :: bool
  fifos :: "nat \<Rightarrow> fifo"
  open_fds :: "nat list"
  fifo_names :: "string list"
  trace :: "event list"
  pc :: pc

definition THREAD_MAX :: nat where "THREAD_MAX = 16"

definition base_mask :: "signal set" where "base_mask = {SIGTSTP, SIGALRM}"
definition tstp_mask :: "signal set" where "tstp_mask = {SIGTSTP}"
definition alrm_mask :: "signal set" where "alrm_mask = {SIGALRM}"

section \<open>Arrays and pointers\<close>

definition queue_get :: "ptr list \<Rightarrow> nat \<Rightarrow> ptr" where
  "queue_get q i = (if i < length q then q ! i else None)"

definition queue_put :: "ptr list \<Rightarrow> nat \<Rightarrow> ptr \<Rightarrow> ptr list option" where
  "queue_put q i p = (if i < length q then Some (q[i := p]) else None)"

text \<open>The macro \<open>RUNNING\<close>, and reading and writing through a pointer.\<close>

definition RUNNING :: "threads \<Rightarrow> ptr" where
  "RUNNING s = queue_get (ready_queue s) (rq_current s)"

definition deref :: "ptr \<Rightarrow> threads \<Rightarrow> tcb option" where
  "deref p s = (case p of None \<Rightarrow> None | Some a \<Rightarrow> heap s a)"

definition set_running :: "(tcb \<Rightarrow> tcb) \<Rightarrow> threads \<Rightarrow> threads option" where
  "set_running g s =
     (case RUNNING s of None \<Rightarrow> None
      | Some a \<Rightarrow> (case heap s a of None \<Rightarrow> None
                   | Some t \<Rightarrow> Some (s\<lparr>heap := (heap s)(a \<mapsto> g t)\<rparr>)))"

definition longjmp_env :: "ptr \<Rightarrow> threads \<Rightarrow> threads option" where
  "longjmp_env p s = do { t \<leftarrow> deref p s; Some (s\<lparr>pc := At (fst (environment t)) (snd (environment t))\<rparr>) }"

section \<open>Signals\<close>

definition sighandler :: "signal \<Rightarrow> threads \<Rightarrow> threads" where
  "sighandler signo s =
     (let s1 = s\<lparr>trace := trace s @ [Caught signo]\<rparr>;
          s2 = (if signo = SIGALRM then s1\<lparr>timer := (timeslice s1 \<noteq> 0)\<rparr> else s1)
      in s2\<lparr>pc := Sched 1\<rparr>)"

text \<open>
  The kernel delivers a pending signal that is not blocked; while the handler
  runs its signal is blocked too, and \<open>longjmp\<close> leaves the mask as it is.
\<close>

definition deliverable :: "threads \<Rightarrow> signal option" where
  "deliverable s = List.find (\<lambda>x. x \<in> pending s \<and> x \<notin> blocked s) [SIGTSTP, SIGALRM]"

definition deliver :: "signal \<Rightarrow> threads \<Rightarrow> threads" where
  "deliver x s = sighandler x (s\<lparr>pending := pending s - {x}, blocked := insert x (blocked s)\<rparr>)"

section \<open>select on the waiting queue\<close>

definition readable :: "threads \<Rightarrow> nat \<Rightarrow> bool" where
  "readable s fd \<longleftrightarrow> fd < 1000 \<and> (f_data (fifos s fd) \<noteq> [] \<or> f_hup (fifos s fd))"

text \<open>\<open>FD_SET (waiting_queue[i]->fd, ...)\<close> for every \<open>i < wq_size\<close>\<close>

definition waiting_fds :: "threads \<Rightarrow> nat list option" where
  "waiting_fds s =
     those (map (\<lambda>i. map_option t_fd (deref (queue_get (waiting_queue s) i) s)) [0..<wq_size s])"

text \<open>The first loop after a positive \<open>select\<close>: ready threads go to the ready queue.\<close>

fun move_ready :: "nat list \<Rightarrow> nat list \<Rightarrow> threads \<Rightarrow> threads option" where
  "move_ready fdset [] s = Some s"
| "move_ready fdset (i # js) s = do {
     t \<leftarrow> deref (queue_get (waiting_queue s) i) s;
     if t_fd t \<in> set fdset
     then do {
       rq \<leftarrow> queue_put (ready_queue s) (rq_size s) (queue_get (waiting_queue s) i);
       wq \<leftarrow> queue_put (waiting_queue s) i None;
       move_ready fdset js (s\<lparr>ready_queue := rq, waiting_queue := wq, rq_size := rq_size s + 1\<rparr>) }
     else move_ready fdset js s }"

text \<open>The second loop closes the gaps; \<open>j\<close> is where the next pointer goes.\<close>

fun compact :: "nat list \<Rightarrow> ptr list \<times> nat \<Rightarrow> ptr list \<times> nat" where
  "compact [] (wq, j) = (wq, j)"
| "compact (i # js) (wq, j) =
     (if queue_get wq i \<noteq> None then compact js (wq[j := wq ! i, i := None], j + 1)
      else compact js (wq, j))"

definition take_ready :: "nat list \<Rightarrow> threads \<Rightarrow> threads option" where
  "take_ready fdset s = do {
     s1 \<leftarrow> move_ready fdset [0..<wq_size s] s;
     (case compact [0..<wq_size s1] (waiting_queue s1, 0) of
        (wq, j) \<Rightarrow> Some (s1\<lparr>waiting_queue := wq, wq_size := j\<rparr>)) }"

definition poll_waiting :: "threads \<Rightarrow> threads option" where
  "poll_waiting s = do {
     fds \<leftarrow> waiting_fds s;
     let ready = filter (readable s) fds;
     if ready \<noteq> [] then take_ready ready s else Some s }"

section \<open>The scheduler\<close>

text \<open>The last pointer of the ready queue fills the hole the running thread leaves.\<close>

definition fill_hole :: "threads \<Rightarrow> threads option" where
  "fill_hole s =
     (if rq_size s = 0 then None
      else do {
        rq \<leftarrow> queue_put (ready_queue s) (rq_current s) (queue_get (ready_queue s) (rq_size s - 1));
        rq' \<leftarrow> queue_put rq (rq_size s - 1) None;
        Some (s\<lparr>ready_queue := rq', rq_size := rq_size s - 1\<rparr>) })"

definition free_tcb :: "ptr \<Rightarrow> threads \<Rightarrow> threads" where
  "free_tcb p s = (case p of None \<Rightarrow> s | Some a \<Rightarrow> s\<lparr>heap := (heap s)(a := None)\<rparr>)"

definition leave_queue :: "int \<Rightarrow> threads \<Rightarrow> threads option" where
  "leave_queue tmp s =
     (if tmp = 2 then do {
        wq \<leftarrow> queue_put (waiting_queue s) (wq_size s) (RUNNING s);
        fill_hole (s\<lparr>waiting_queue := wq, wq_size := wq_size s + 1\<rparr>) }
      else if tmp = 3 then fill_hole (free_tcb (RUNNING s) s)
      else Some s)"

definition choose_next :: "int \<Rightarrow> threads \<Rightarrow> threads option" where
  "choose_next tmp s =
     (if tmp = 1
      then if rq_size s = 0 then None else Some (s\<lparr>rq_current := (rq_current s + 1) mod rq_size s\<rparr>)
      else if tmp = 2 \<or> tmp = 3
      then if rq_current s = rq_size s then Some (s\<lparr>rq_current := 0\<rparr>) else Some s
      else Some s)"

definition dispatch :: "threads \<Rightarrow> threads option" where
  "dispatch s =
     (if rq_size s = 0 \<and> wq_size s = 0 then Some (s\<lparr>pc := Returned\<rparr>)
      else if rq_size s = 0 \<and> wq_size s = 1 then Some (s\<lparr>pc := Waiting\<rparr>)
      else longjmp_env (RUNNING s) s)"

definition scheduler :: "int \<Rightarrow> threads \<Rightarrow> threads option" where
  "scheduler tmp s =
     (if tmp = 0 then longjmp_env (queue_get (ready_queue s) 0) s
      else do {
        s1 \<leftarrow> poll_waiting s;
        s2 \<leftarrow> leave_queue tmp s1;
        s3 \<leftarrow> choose_next tmp s2;
        dispatch s3 })"

text \<open>One round of \<open>while (flag)\<close>.\<close>

definition wait_round :: "threads \<Rightarrow> threads option" where
  "wait_round s = do {
     fds \<leftarrow> waiting_fds s;
     let ready = filter (readable s) fds;
     if ready \<noteq> [] then do {
       s1 \<leftarrow> take_ready ready s;
       let s2 = s1\<lparr>rq_current := 0\<rparr>;
       longjmp_env (RUNNING s2) s2 }
     else Some s }"

section \<open>Inside a thread\<close>

definition thread_exit :: "threads \<Rightarrow> threads option" where
  "thread_exit s = do {
     t \<leftarrow> deref (RUNNING s) s;
     Some (s\<lparr>open_fds := filter (\<lambda>d. d \<noteq> t_fd t) (open_fds s),
             fifo_names := filter (\<lambda>n. n \<noteq> fifoname t) (fifo_names s), pc := Sched 3\<rparr>) }"

definition thread_yield :: "func \<Rightarrow> threads \<Rightarrow> threads option" where
  "thread_yield f s = do {
     s1 \<leftarrow> set_running (\<lambda>t. t\<lparr>environment := (f, After_yield)\<rparr>) s;
     Some (s1\<lparr>blocked := alrm_mask, pc := Yield_tstp f\<rparr>) }"

definition async_read :: "func \<Rightarrow> threads \<Rightarrow> threads option" where
  "async_read f s = do {
     s1 \<leftarrow> set_running (\<lambda>t. t\<lparr>environment := (f, After_read)\<rparr>) s;
     Some (s1\<lparr>pc := Sched 2\<rparr>) }"

text \<open>The branch of \<open>async_read\<close> that runs when the thread is back.\<close>

definition read_fifo :: "nat \<Rightarrow> threads \<Rightarrow> threads option" where
  "read_fifo count s = do {
     t \<leftarrow> deref (RUNNING s) s;
     let bytes = take count (f_data (fifos s (t_fd t)));
     s1 \<leftarrow> set_running (\<lambda>t. t\<lparr>t_buf := buf_write bytes (t_buf t)\<rparr>) s;
     Some (s1\<lparr>fifos := (fifos s1)(t_fd t := (fifos s1 (t_fd t))\<lparr>f_data := drop count (f_data (fifos s1 (t_fd t)))\<rparr>),
              trace := trace s1 @ [Did_read bytes]\<rparr>) }"

text \<open>The computation of a round, its line of output, and exit or yield.\<close>

definition compute :: "func \<Rightarrow> threads \<Rightarrow> threads option" where
  "compute f s = do {
     s1 \<leftarrow> set_running (loop_body f) s;
     t \<leftarrow> deref (RUNNING s1) s1;
     let s2 = s1\<lparr>trace := trace s1 @ [Printed (t_id t) (printed_value f t)]\<rparr>;
     if loop_ends f t then thread_exit s2 else thread_yield f s2 }"

fun thread_code :: "func \<Rightarrow> resume \<Rightarrow> threads \<Rightarrow> threads option" where
  "thread_code Max_subarray After_read s = do { s1 \<leftarrow> read_fifo 5 s; compute Max_subarray s1 }"
| "thread_code Max_subarray r s = do { s1 \<leftarrow> set_running (next_i r) s; async_read Max_subarray s1 }"
| "thread_code f r s = do { s1 \<leftarrow> set_running (next_i r) s; compute f s1 }"

section \<open>What the process does next\<close>

definition run_pc :: "threads \<Rightarrow> threads option" where
  "run_pc s =
     (case pc s of
        At f r \<Rightarrow> thread_code f r s
      | Sched tmp \<Rightarrow> scheduler tmp s
      | Waiting \<Rightarrow> wait_round s
      | Yield_tstp f \<Rightarrow> Some (s\<lparr>blocked := tstp_mask, pc := Yield_alrm f\<rparr>)
      | Yield_alrm f \<Rightarrow> Some (s\<lparr>blocked := base_mask, pc := At f After_yield\<rparr>)
      | Returned \<Rightarrow> Some s
      | Crashed \<Rightarrow> Some s)"

definition step :: "threads \<Rightarrow> threads" where
  "step s =
     (case deliverable s of
        Some x \<Rightarrow> deliver x s
      | None \<Rightarrow> (case run_pc s of None \<Rightarrow> s\<lparr>pc := Crashed\<rparr> | Some s' \<Rightarrow> s'))"

text \<open>
  \<open>f_hup\<close> says that no writer is left of a FIFO that had one. With \<open>reopen\<close> a
  writer may come back after that.
\<close>

inductive tstep :: "bool \<Rightarrow> threads \<Rightarrow> threads \<Rightarrow> bool" for reopen where
  Run: "pc s \<noteq> Returned \<Longrightarrow> pc s \<noteq> Crashed \<Longrightarrow> tstep reopen s (step s)"
| Terminal_stop: "tstep reopen s (s\<lparr>pending := insert SIGTSTP (pending s)\<rparr>)"
| Alarm: "timer s \<Longrightarrow> tstep reopen s (s\<lparr>timer := False, pending := insert SIGALRM (pending s)\<rparr>)"
| Data: "tstep reopen s (s\<lparr>fifos := (fifos s)(fd := (fifos s fd)\<lparr>f_data := f_data (fifos s fd) @ bytes\<rparr>)\<rparr>)"
| Hang_up: "tstep reopen s (s\<lparr>fifos := (fifos s)(fd := (fifos s fd)\<lparr>f_hup := True\<rparr>)\<rparr>)"
| Reopen: "reopen \<Longrightarrow> tstep reopen s (s\<lparr>fifos := (fifos s)(fd := (fifos s fd)\<lparr>f_hup := False\<rparr>)\<rparr>)"

section \<open>main\<close>

text \<open>
  \<open>malloc\<close> returns the next address with whatever bytes \<open>raw\<close> the block held;
  \<open>open\<close> returns the lowest free descriptor.
\<close>

definition lowest_fd :: "nat list \<Rightarrow> nat" where
  "lowest_fd fds = hd (filter (\<lambda>d. d \<notin> set fds) [0..<length fds + 1])"

definition thread_setup :: "tcb \<Rightarrow> func \<Rightarrow> cint \<Rightarrow> cint \<Rightarrow> threads \<Rightarrow> threads option" where
  "thread_setup raw f i a s =
     (let name = fmt_d i @ ''_'' @ func_name f;
          fd = lowest_fd (open_fds s);
          t = raw\<lparr>t_id := i, t_arg := a, fifoname := name, t_fd := fd, environment := (f, After_setup)\<rparr>
      in do {
        rq \<leftarrow> queue_put (ready_queue s) (rq_size s) (Some (brk s));
        Some (s\<lparr>ready_queue := rq, rq_size := rq_size s + 1, heap := (heap s)(brk s \<mapsto> t), brk := brk s + 1,
               open_fds := fd # open_fds s, fifo_names := List.insert name (fifo_names s)\<rparr>) })"

definition init_threads :: "tcb \<Rightarrow> cint \<Rightarrow> cint \<Rightarrow> cint \<Rightarrow> threads \<Rightarrow> threads option" where
  "init_threads raw fib_arg col_arg sub_arg s = do {
     s1 \<leftarrow> (if c_le 0 fib_arg then thread_setup raw Fibonacci 0 fib_arg s else Some s);
     s2 \<leftarrow> (if c_le 0 col_arg then thread_setup raw Collatz 1 col_arg s1 else Some s1);
     (if c_le 0 sub_arg then thread_setup raw Max_subarray 2 sub_arg s2 else Some s2) }"

definition init_signal :: "threads \<Rightarrow> threads" where
  "init_signal s = s\<lparr>blocked := base_mask\<rparr>"

definition start_threading :: "threads \<Rightarrow> threads" where
  "start_threading s = s\<lparr>timer := (timeslice s \<noteq> 0), pc := Sched 0\<rparr>"

text \<open>The globals as the program starts: zero, with the three standard descriptors open.\<close>

definition globals :: "cuint \<Rightarrow> threads" where
  "globals ts = \<lparr>ready_queue = replicate THREAD_MAX None, waiting_queue = replicate THREAD_MAX None,
     rq_size = 0, rq_current = 0, wq_size = 0, heap = (\<lambda>_. None), brk = 0, timeslice = ts,
     blocked = {}, pending = {}, timer = False, fifos = (\<lambda>_. \<lparr>f_data = [], f_hup = False\<rparr>),
     open_fds = [0, 1, 2], fifo_names = [], trace = [], pc = Sched 0\<rparr>"

text \<open>\<open>None\<close> is the usage message and \<open>exit (1)\<close>.\<close>

definition main :: "tcb \<Rightarrow> string list \<Rightarrow> threads option" where
  "main raw argv =
     (if length argv \<noteq> 5 then None
      else do {
        s \<leftarrow> init_threads raw (atoi (argv ! 2)) (atoi (argv ! 3)) (atoi (argv ! 4))
               (init_signal (globals (atoi (argv ! 1))));
        Some (start_threading s) })"

inductive run_from :: "bool \<Rightarrow> threads \<Rightarrow> threads \<Rightarrow> bool" for reopen s0 where
  Start: "run_from reopen s0 s0"
| Step: "run_from reopen s0 s \<Longrightarrow> tstep reopen s s' \<Longrightarrow> run_from reopen s0 s'"

end
