(* ===== verification/Thread_Queues.thy ===== *)
theory Thread_Queues
  imports Thread_Sched "HOL-Library.Multiset"
begin

text \<open>
  The two queues of the thread library as lists. \<open>queue_rep\<close> relates an array
  and its size to the list of threads in it; the locale \<open>array_queue\<close> states
  what the scheduler needs of such arrays, its interpretation \<open>tcb_queue\<close>
  shows that the arrays of the program provide it. \<open>sched_lists\<close> is the
  scheduler on lists, and \<open>scheduler_refines\<close> shows that the code on arrays
  implements it.
\<close>

section \<open>An array with a size as a list\<close>

definition queue_rep :: "ptr list \<Rightarrow> nat \<Rightarrow> nat list \<Rightarrow> bool" where
  "queue_rep q n R \<longleftrightarrow> n = length R \<and> length R \<le> THREAD_MAX
     \<and> q = map Some R @ replicate (THREAD_MAX - length R) None"

definition remove_at :: "nat \<Rightarrow> 'a list \<Rightarrow> 'a list" where
  "remove_at i R = butlast (R[i := last R])"

lemma length_remove_at [simp]: "length (remove_at i R) = length R - 1"
  by (simp add: remove_at_def)

lemma mset_remove_at: "i < length R \<Longrightarrow> mset (remove_at i R) = mset R - {#R ! i#}"
proof (induction R rule: rev_induct)
  case (snoc x R)
  show ?case
  proof (cases "i = length R")
    case False
    then have "i < length R" using snoc.prems by simp
    then show ?thesis
      by (simp add: remove_at_def butlast_append nth_append mset_update list_update_append)
  qed (simp add: remove_at_def)
qed simp

lemma set_remove_at: "i < length R \<Longrightarrow> distinct R \<Longrightarrow> set (remove_at i R) = set R - {R ! i}"
proof -
  assume i: "i < length R" and d: "distinct R"
  have "distinct (remove_at i R) \<and> set (remove_at i R) = set R - {R ! i}"
    using mset_remove_at [OF i] d nth_mem [OF i]
    by (metis distinct_count_atmost_1 mset_remove1 mset_eq_imp_distinct_iff set_mset_mset
        distinct_remove1 set_remove1_eq)
  then show ?thesis by blast
qed

lemma distinct_remove_at: "i < length R \<Longrightarrow> distinct R \<Longrightarrow> distinct (remove_at i R)"
  using mset_remove_at [of i R] mset_eq_imp_distinct_iff [of "remove_at i R" "remove1 (R ! i) R"] by simp

lemma nth_remove_at:
  "i < length R \<Longrightarrow> j < length R - 1 \<Longrightarrow> remove_at i R ! j = (if j = i then last R else R ! j)"
  by (simp add: remove_at_def nth_butlast)

locale array_queue =
  fixes rep :: "'q \<Rightarrow> nat \<Rightarrow> 'a list \<Rightarrow> bool"
    and get :: "'q \<Rightarrow> nat \<Rightarrow> 'a option"
    and put :: "'q \<Rightarrow> nat \<Rightarrow> 'a option \<Rightarrow> 'q option"
    and size_max :: nat
  assumes rep_size: "rep q n R \<Longrightarrow> n = length R \<and> n \<le> size_max"
    and get_in: "rep q n R \<Longrightarrow> i < n \<Longrightarrow> get q i = Some (R ! i)"
    and get_out: "rep q n R \<Longrightarrow> n \<le> i \<Longrightarrow> get q i = None"
    and put_end: "rep q n R \<Longrightarrow> n < size_max \<Longrightarrow> \<exists>q'. put q n (Some p) = Some q' \<and> rep q' (n + 1) (R @ [p])"
    and put_last_None: "rep q (n + 1) (R @ [p]) \<Longrightarrow> \<exists>q'. put q n None = Some q' \<and> rep q' n R"
    and put_in: "rep q n R \<Longrightarrow> i < n \<Longrightarrow> \<exists>q'. put q i (Some p) = Some q' \<and> rep q' n (R[i := p])"
begin

text \<open>The last element moves into the hole, whichever hole it is.\<close>

lemma fill_hole_at:
  assumes "rep q n R" and "i < n"
  shows "\<exists>q1 q2. put q i (get q (n - 1)) = Some q1 \<and> put q1 (n - 1) None = Some q2
    \<and> rep q2 (n - 1) (remove_at i R)"
proof -
  have n: "n = length R" using assms(1) rep_size by blast
  then have ne: "R \<noteq> []" using assms(2) by auto
  have "get q (n - 1) = Some (last R)"
    using get_in [OF assms(1), of "n - 1"] assms(2) n ne by (simp add: last_conv_nth)
  moreover obtain q1 where q1: "put q i (Some (last R)) = Some q1" "rep q1 n (R[i := last R])"
    using put_in [OF assms] by blast
  moreover have "R[i := last R] = remove_at i R @ [last R]"
    using append_butlast_last_id [of "R[i := last R]"] last_list_update [of R i "last R"] ne
    by (simp add: remove_at_def split: if_splits)
  with q1(2) assms(2) have "rep q1 (n - 1 + 1) (remove_at i R @ [last R])" by simp
  from put_last_None [OF this] obtain q2 where
    "put q1 (n - 1) None = Some q2" "rep q2 (n - 1) (remove_at i R)" by blast
  ultimately show ?thesis by simp
qed

lemma get_iff: "rep q n R \<Longrightarrow> get q i = Some p \<longleftrightarrow> i < length R \<and> R ! i = p"
  by (metis get_in get_out not_le option.distinct(1) option.inject rep_size)

end

interpretation tcb_queue: array_queue queue_rep queue_get queue_put THREAD_MAX
proof unfold_locales
  fix q n R and p :: nat
  assume "queue_rep q n R" and "n < THREAD_MAX"
  then have q: "q = map Some R @ replicate (THREAD_MAX - length R) None" and n: "n = length R"
    and m: "THREAD_MAX - length R = Suc (THREAD_MAX - Suc n)"
    by (auto simp: queue_rep_def)
  then have "q[n := Some p] = map Some (R @ [p]) @ replicate (THREAD_MAX - Suc n) None"
    by (simp only: q m replicate_Suc) (simp add: n list_update_append)
  then show "\<exists>q'. queue_put q n (Some p) = Some q' \<and> queue_rep q' (n + 1) (R @ [p])"
    using q n \<open>n < THREAD_MAX\<close> by (simp add: queue_put_def queue_rep_def)
next
  fix q n R and p :: nat
  assume "queue_rep q (n + 1) (R @ [p])"
  then show "\<exists>q'. queue_put q n None = Some q' \<and> queue_rep q' n R"
    by (auto simp: queue_put_def queue_rep_def list_update_append Suc_diff_Suc replicate_app_Cons_same
        simp flip: replicate_Suc)
next
  fix q n R i and p :: nat
  assume "queue_rep q n R" "i < n"
  then show "\<exists>q'. queue_put q i (Some p) = Some q' \<and> queue_rep q' n (R[i := p])"
    by (auto simp: queue_put_def queue_rep_def list_update_append map_update)
qed (auto simp: queue_rep_def queue_get_def nth_append)

section \<open>The scheduler on lists\<close>

text \<open>
  \<open>R\<close> is the ready queue, \<open>c\<close> the running thread's place in it, \<open>W\<close> the
  waiting queue, \<open>rd\<close> the threads whose descriptor is readable and \<open>tmp\<close> what
  sent the thread to the scheduler: 1 a signal, 2 a read, 3 its end.
\<close>

definition sched_lists :: "(nat \<Rightarrow> bool) \<Rightarrow> int \<Rightarrow> nat list \<times> nat \<times> nat list \<Rightarrow> nat list \<times> nat \<times> nat list" where
  "sched_lists rd tmp q =
     (case q of (R, c, W) \<Rightarrow>
        let R1 = R @ filter rd W; W1 = filter (\<lambda>p. \<not> rd p) W;
            R2 = (if tmp = 1 then R1 else remove_at c R1);
            W2 = (if tmp = 2 then W1 @ [R ! c] else W1);
            c2 = (if tmp = 1 then (c + 1) mod length R2 else if c = length R2 then 0 else c)
        in (R2, c2, W2))"

definition queues :: "threads \<Rightarrow> nat list \<Rightarrow> nat list \<Rightarrow> bool" where
  "queues s R W \<longleftrightarrow> queue_rep (ready_queue s) (rq_size s) R \<and> queue_rep (waiting_queue s) (wq_size s) W
     \<and> distinct (R @ W) \<and> set (R @ W) = dom (heap s) \<and> length R + length W \<le> THREAD_MAX"

text \<open>The descriptor of the thread at an address is readable.\<close>

definition thread_readable :: "threads \<Rightarrow> nat \<Rightarrow> bool" where
  "thread_readable s p \<longleftrightarrow> (case heap s p of None \<Rightarrow> False | Some t \<Rightarrow> readable s (t_fd t))"

lemma queues_sizes:
  assumes "queues s R W"
  shows "rq_size s = length R" and "wq_size s = length W"
  using assms by (simp_all add: queues_def queue_rep_def)

lemma queues_heap: "queues s R W \<Longrightarrow> p \<in> set R \<union> set W \<Longrightarrow> \<exists>t. heap s p = Some t"
  by (auto simp: queues_def dom_def)

lemma RUNNING_queues:
  assumes "queues s R W" and "rq_current s < length R"
  shows "RUNNING s = Some (R ! rq_current s)"
  using assms tcb_queue.get_in by (auto simp: RUNNING_def queues_def queue_rep_def)

lemma waiting_fds_queues:
  assumes "queues s R W"
  shows "waiting_fds s = Some (map (\<lambda>p. t_fd (the (heap s p))) W)"
proof -
  have "map_option t_fd (deref (queue_get (waiting_queue s) i) s) = Some (t_fd (the (heap s (W ! i))))"
    if "i < length W" for i
  proof -
    have "queue_get (waiting_queue s) i = Some (W ! i)"
      using assms that tcb_queue.get_in queues_sizes(2) [OF assms] by (metis queues_def)
    then show ?thesis using queues_heap [OF assms, of "W ! i"] that by (auto simp: deref_def)
  qed
  then have "map (\<lambda>i. map_option t_fd (deref (queue_get (waiting_queue s) i) s)) [0..<wq_size s]
    = map Some (map (\<lambda>p. t_fd (the (heap s p))) W)"
    using queues_sizes(2) [OF assms] by (intro nth_equalityI) simp_all
  moreover have "those (map Some xs) = Some xs" for xs :: "nat list"
    by (induction xs) simp_all
  ultimately show ?thesis by (simp add: waiting_fds_def del: map_map)
qed

text \<open>The operations that only move threads between the queues.\<close>

definition requeued :: "threads \<Rightarrow> threads \<Rightarrow> bool" where
  "requeued s s' \<longleftrightarrow> (\<exists>rq wq n m. s' = s\<lparr>ready_queue := rq, waiting_queue := wq, rq_size := n, wq_size := m\<rparr>)"

lemma requeued_iff:
  "requeued s s' \<longleftrightarrow> rq_current s' = rq_current s \<and> heap s' = heap s \<and> brk s' = brk s
     \<and> timeslice s' = timeslice s \<and> blocked s' = blocked s \<and> pending s' = pending s \<and> timer s' = timer s
     \<and> fifos s' = fifos s \<and> open_fds s' = open_fds s \<and> fifo_names s' = fifo_names s
     \<and> trace s' = trace s \<and> pc s' = pc s"
  by (cases s; cases s') (auto simp: requeued_def)

lemma requeued_refl [simp]: "requeued s s"
  by (simp add: requeued_iff)

lemma requeued_trans: "requeued s s' \<Longrightarrow> requeued s' s'' \<Longrightarrow> requeued s s''"
  by (simp add: requeued_iff)

lemma take_ready_single:
  assumes q: "queues s R [w]" and t: "heap s w = Some t" and f: "t_fd t \<in> set fdset"
  shows "\<exists>s'. take_ready fdset s = Some s' \<and> requeued s s' \<and> queues s' (R @ [w]) []"
proof -
  have rep: "queue_rep (ready_queue s) (length R) R" "queue_rep (waiting_queue s) 1 [w]"
    and sz: "rq_size s = length R" "wq_size s = 1" and room: "length R < THREAD_MAX"
    using q queues_sizes [OF q] by (auto simp: queues_def)
  obtain rq where rq: "queue_put (ready_queue s) (length R) (Some w) = Some rq"
    "queue_rep rq (length R + 1) (R @ [w])"
    using tcb_queue.put_end [OF rep(1) room] by blast
  obtain wq where wq: "queue_put (waiting_queue s) 0 None = Some wq" "queue_rep wq 0 []"
    using tcb_queue.put_last_None [of "waiting_queue s" 0 "[]" w] rep(2) by auto
  have g: "queue_get (waiting_queue s) 0 = Some w"
    using tcb_queue.get_in [OF rep(2), of 0] by simp
  have g': "queue_get wq 0 = None"
    using tcb_queue.get_out [OF wq(2), of 0] by simp
  let ?s' = "s\<lparr>ready_queue := rq, waiting_queue := wq, rq_size := length R + 1, wq_size := 0\<rparr>"
  have "take_ready fdset s = Some ?s'"
    using rq(1) wq(1) t f by (simp add: take_ready_def sz g g' deref_def)
  moreover have "queues ?s' (R @ [w]) []"
    using q rq(2) wq(2) by (auto simp: queues_def)
  moreover have "requeued s ?s'" by (simp add: requeued_iff)
  ultimately show ?thesis by blast
qed

lemma poll_queues:
  assumes q: "queues s R W" and w: "length W \<le> 1"
  shows "\<exists>s'. poll_waiting s = Some s' \<and> requeued s s'
    \<and> queues s' (R @ filter (thread_readable s) W) (filter (\<lambda>p. \<not> thread_readable s p) W)"
proof (cases W)
  case Nil
  then show ?thesis using q waiting_fds_queues [OF q] by (simp add: poll_waiting_def)
next
  case (Cons p W')
  with w have W: "W = [p]" by simp
  obtain t where t: "heap s p = Some t" using queues_heap [OF q, of p] W by auto
  show ?thesis
  proof (cases "readable s (t_fd t)")
    case True
    then show ?thesis
      using take_ready_single [OF q [unfolded W] t, of "[t_fd t]"] waiting_fds_queues [OF q] t W
      by (simp add: poll_waiting_def thread_readable_def)
  next
    case False
    then show ?thesis
      using q waiting_fds_queues [OF q] t W by (simp add: poll_waiting_def thread_readable_def)
  qed
qed

text \<open>
  With two or more waiting threads the compacting loop is wrong: a pointer that
  stays in its place is overwritten with \<open>NULL\<close> and still counted.
\<close>

lemma compact_drops_first: "compact [0..<2] ([Some p, None], 0) = ([None, None], 1)"
  by (simp add: upt_rec queue_get_def)

lemma fill_hole_queues:
  assumes "queue_rep (ready_queue s) (rq_size s) R" and "rq_current s < length R"
  shows "\<exists>rq. fill_hole s = Some (s\<lparr>ready_queue := rq, rq_size := rq_size s - 1\<rparr>)
    \<and> queue_rep rq (length R - 1) (remove_at (rq_current s) R)"
proof -
  have n: "rq_size s = length R" using assms(1) by (simp add: queue_rep_def)
  with assms(2) have "rq_current s < rq_size s" by simp
  from tcb_queue.fill_hole_at [OF assms(1) this] n assms(2) show ?thesis
    by (auto simp: fill_hole_def)
qed

lemma queues_disjoint: "queues s R W \<Longrightarrow> i < length R \<Longrightarrow> R ! i \<notin> set W"
  unfolding queues_def distinct_append using nth_mem [of i R] by blast

lemma leave_read:
  assumes q: "queues s R W" and c: "rq_current s < length R"
  shows "\<exists>s'. leave_queue 2 s = Some s' \<and> requeued s s'
    \<and> queues s' (remove_at (rq_current s) R) (W @ [R ! rq_current s])"
proof -
  let ?p = "R ! rq_current s"
  have notin: "?p \<notin> set W" using queues_disjoint [OF q c] .
  have rep: "queue_rep (ready_queue s) (rq_size s) R" "queue_rep (waiting_queue s) (wq_size s) W"
    and room: "wq_size s < THREAD_MAX"
    using q c queues_sizes [OF q] by (auto simp: queues_def)
  obtain wq where wq: "queue_put (waiting_queue s) (wq_size s) (Some ?p) = Some wq"
    "queue_rep wq (wq_size s + 1) (W @ [?p])"
    using tcb_queue.put_end [OF rep(2) room] by blast
  let ?s1 = "s\<lparr>waiting_queue := wq, wq_size := wq_size s + 1\<rparr>"
  obtain rq where rq: "fill_hole ?s1 = Some (?s1\<lparr>ready_queue := rq, rq_size := rq_size ?s1 - 1\<rparr>)"
    "queue_rep rq (length R - 1) (remove_at (rq_current s) R)"
    using fill_hole_queues [of ?s1 R] rep(1) c by auto
  let ?s2 = "?s1\<lparr>ready_queue := rq, rq_size := rq_size s - 1\<rparr>"
  have "leave_queue 2 s = Some ?s2"
    using wq(1) rq(1) RUNNING_queues [OF q c] by (simp add: leave_queue_def)
  moreover have "requeued s ?s2" by (simp add: requeued_iff)
  moreover have "queues ?s2 (remove_at (rq_current s) R) (W @ [?p])"
    using q c rq(2) wq(2) queues_sizes [OF q] notin
    by (auto simp: queues_def set_remove_at distinct_remove_at)
  ultimately show ?thesis by blast
qed

lemma leave_exit:
  assumes q: "queues s R W" and c: "rq_current s < length R"
  shows "\<exists>s'. leave_queue 3 s = Some s' \<and> requeued (s\<lparr>heap := (heap s)(R ! rq_current s := None)\<rparr>) s'
    \<and> queues s' (remove_at (rq_current s) R) W"
proof -
  let ?p = "R ! rq_current s"
  let ?s1 = "s\<lparr>heap := (heap s)(?p := None)\<rparr>"
  have notin: "?p \<notin> set W" using queues_disjoint [OF q c] .
  have rep: "queue_rep (ready_queue ?s1) (rq_size ?s1) R"
    using q by (simp add: queues_def)
  obtain rq where rq: "fill_hole ?s1 = Some (?s1\<lparr>ready_queue := rq, rq_size := rq_size ?s1 - 1\<rparr>)"
    "queue_rep rq (length R - 1) (remove_at (rq_current s) R)"
    using fill_hole_queues [OF rep] c by auto
  let ?s2 = "?s1\<lparr>ready_queue := rq, rq_size := rq_size s - 1\<rparr>"
  have "leave_queue 3 s = Some ?s2"
    using rq(1) RUNNING_queues [OF q c] by (simp add: leave_queue_def free_tcb_def)
  moreover have "requeued ?s1 ?s2" by (simp add: requeued_iff)
  moreover have "queues ?s2 (remove_at (rq_current s) R) W"
    using q c rq(2) queues_sizes [OF q] notin
    by (auto simp: queues_def set_remove_at distinct_remove_at)
  ultimately show ?thesis by blast
qed

text \<open>What a pass through the scheduler leaves alone.\<close>

definition sched_frame :: "threads \<Rightarrow> threads \<Rightarrow> bool" where
  "sched_frame s s' \<longleftrightarrow> fifos s' = fifos s \<and> trace s' = trace s \<and> blocked s' = blocked s
     \<and> pending s' = pending s \<and> timer s' = timer s \<and> timeslice s' = timeslice s
     \<and> open_fds s' = open_fds s \<and> fifo_names s' = fifo_names s \<and> brk s' = brk s"

text \<open>Where the scheduler goes from there.\<close>

definition dispatched :: "(nat \<Rightarrow> tcb option) \<Rightarrow> nat list \<Rightarrow> nat \<Rightarrow> nat list \<Rightarrow> pc" where
  "dispatched h R c W =
     (if R = [] then if W = [] then Returned else Waiting
      else At (fst (environment (the (h (R ! c))))) (snd (environment (the (h (R ! c))))))"

lemma dispatch_queues:
  assumes q: "queues s R W" and c: "R \<noteq> [] \<Longrightarrow> rq_current s < length R" and w: "R = [] \<Longrightarrow> length W \<le> 1"
  shows "dispatch s = Some (s\<lparr>pc := dispatched (heap s) R (rq_current s) W\<rparr>)"
proof (cases "R = []")
  case True
  then show ?thesis
    using w queues_sizes [OF q] by (cases W) (auto simp: dispatch_def dispatched_def)
next
  case False
  note run = RUNNING_queues [OF q c [OF False]]
  obtain t where "heap s (R ! rq_current s) = Some t"
    using queues_heap [OF q] c [OF False] by (metis UnI1 nth_mem)
  then show ?thesis
    using False run queues_sizes [OF q]
    by (auto simp: dispatch_def dispatched_def longjmp_env_def deref_def)
qed

lemma leave_queues:
  assumes q: "queues s R W" and c: "rq_current s < length R" and tmp: "tmp = 1 \<or> tmp = 2 \<or> tmp = 3"
  shows "\<exists>s'. leave_queue tmp s = Some s'
    \<and> requeued (s\<lparr>heap := (if tmp = 3 then (heap s)(R ! rq_current s := None) else heap s)\<rparr>) s'
    \<and> queues s' (if tmp = 1 then R else remove_at (rq_current s) R)
        (if tmp = 2 then W @ [R ! rq_current s] else W)"
  using tmp leave_read [OF q c] leave_exit [OF q c] q by (elim disjE) (simp_all add: leave_queue_def)

lemma choose_next_queues:
  assumes n: "rq_size s = length R" and tmp: "tmp = 1 \<or> tmp = 2 \<or> tmp = 3" and R: "tmp = 1 \<Longrightarrow> R \<noteq> []"
  shows "choose_next tmp s = Some (s\<lparr>rq_current :=
    (if tmp = 1 then (rq_current s + 1) mod length R
     else if rq_current s = length R then 0 else rq_current s)\<rparr>)"
  using tmp R n by (auto simp: choose_next_def)

lemma queues_update [simp]:
  "queues (s\<lparr>rq_current := c\<rparr>) R W = queues s R W" "queues (s\<lparr>pc := p\<rparr>) R W = queues s R W"
  "queues (s\<lparr>trace := tr\<rparr>) R W = queues s R W" "queues (s\<lparr>blocked := b\<rparr>) R W = queues s R W"
  "queues (s\<lparr>pending := ps\<rparr>) R W = queues s R W" "queues (s\<lparr>timer := tm\<rparr>) R W = queues s R W"
  "queues (s\<lparr>fifos := fs\<rparr>) R W = queues s R W" "queues (s\<lparr>open_fds := fds\<rparr>) R W = queues s R W"
  "queues (s\<lparr>fifo_names := ns\<rparr>) R W = queues s R W"
  by (simp_all add: queues_def)

lemma sched_lists_current:
  assumes "sched_lists rd tmp (R, c, W) = (R', c', W')" and "c < length R" and "R' \<noteq> []"
  shows "c' < length R'"
proof (cases "tmp = 1")
  case True
  then have "c' = (c + 1) mod length R'" using assms(1) by (auto simp: sched_lists_def Let_def)
  then show ?thesis using assms(3) by simp
next
  case False
  then have "length R' = length (R @ filter rd W) - 1" "c' = (if c = length R' then 0 else c)"
    using assms(1) by (auto simp: sched_lists_def Let_def)
  then show ?thesis using assms(2,3) by (cases R') (auto split: if_splits)
qed

lemma sched_lists_waiting:
  assumes "sched_lists rd tmp (R, c, W) = (R', c', W')" and "length W \<le> 1" and "tmp = 2 \<Longrightarrow> W = []"
  shows "length W' \<le> 1"
proof (cases "tmp = 2")
  case False
  then have "W' = filter (\<lambda>p. \<not> rd p) W" using assms(1) by (auto simp: sched_lists_def Let_def)
  then show ?thesis using assms(2) le_trans [OF length_filter_le [of "\<lambda>p. \<not> rd p" W]] by blast
qed (use assms in \<open>auto simp: sched_lists_def Let_def\<close>)

lemma scheduler_refines:
  assumes q: "queues s R W" and c: "rq_current s < length R"
    and w: "length W \<le> 1" "tmp = 2 \<Longrightarrow> W = []" and tmp: "tmp = 1 \<or> tmp = 2 \<or> tmp = 3"
    and spec: "sched_lists (thread_readable s) tmp (R, rq_current s, W) = (R', c', W')"
  defines "h \<equiv> (if tmp = 3 then (heap s)(R ! rq_current s := None) else heap s)"
  shows "\<exists>s'. scheduler tmp s = Some s' \<and> queues s' R' W' \<and> rq_current s' = c' \<and> heap s' = h
    \<and> pc s' = dispatched h R' c' W' \<and> sched_frame s s'"
proof -
  let ?R1 = "R @ filter (thread_readable s) W" and ?W1 = "filter (\<lambda>p. \<not> thread_readable s p) W"
  obtain s1 where s1: "poll_waiting s = Some s1" "requeued s s1" "queues s1 ?R1 ?W1"
    using poll_queues [OF q w(1)] by blast
  have c1: "rq_current s1 < length ?R1" and nth: "?R1 ! rq_current s1 = R ! rq_current s"
    using s1(2) c by (simp_all add: requeued_iff nth_append)
  let ?R2 = "if tmp = 1 then ?R1 else remove_at (rq_current s1) ?R1"
  let ?W2 = "if tmp = 2 then ?W1 @ [?R1 ! rq_current s1] else ?W1"
  obtain s2 where s2: "leave_queue tmp s1 = Some s2"
      "requeued (s1\<lparr>heap := (if tmp = 3 then (heap s1)(?R1 ! rq_current s1 := None) else heap s1)\<rparr>) s2"
      "queues s2 ?R2 ?W2"
    using leave_queues [OF s1(3) c1 tmp] by blast
  have cur: "rq_current s1 = rq_current s" "rq_current s2 = rq_current s" "heap s2 = h"
    using s1(2) s2(2) nth by (auto simp: requeued_iff h_def)
  have eq: "?R2 = R'" "?W2 = W'"
    and c': "c' = (if tmp = 1 then (rq_current s + 1) mod length R'
      else if rq_current s = length R' then 0 else rq_current s)"
    using spec nth cur tmp by (auto simp: sched_lists_def Let_def)
  have ne: "R' \<noteq> []" if "tmp = 1" using that eq(1) c by auto
  let ?s3 = "s2\<lparr>rq_current := c'\<rparr>"
  have s3: "choose_next tmp s2 = Some ?s3"
    using choose_next_queues [OF queues_sizes(1) [OF s2(3)] tmp, unfolded eq] ne c' cur by simp
  have q3: "queues ?s3 R' W'" using s2(3) eq by simp
  have "dispatch ?s3 = Some (?s3\<lparr>pc := dispatched (heap ?s3) R' (rq_current ?s3) W'\<rparr>)"
    by (rule dispatch_queues [OF q3])
      (use sched_lists_current [OF spec c] sched_lists_waiting [OF spec w] in simp_all)
  then have "scheduler tmp s = Some (?s3\<lparr>pc := dispatched h R' c' W'\<rparr>)"
    using tmp s1(1) s2(1) s3 cur by (auto simp: scheduler_def)
  moreover have "sched_frame s (?s3\<lparr>pc := dispatched h R' c' W'\<rparr>)"
    using s1(2) s2(2) by (simp add: sched_frame_def requeued_iff)
  ultimately show ?thesis using q3 cur by auto
qed

lemma wait_round_queues:
  assumes q: "queues s [] [w]" and t: "heap s w = Some t"
  shows "if readable s (t_fd t)
    then \<exists>s'. wait_round s = Some s' \<and> queues s' [w] [] \<and> rq_current s' = 0 \<and> heap s' = heap s
      \<and> pc s' = At (fst (environment t)) (snd (environment t)) \<and> sched_frame s s'
    else wait_round s = Some s"
proof (cases "readable s (t_fd t)")
  case True
  obtain s1 where s1: "take_ready [t_fd t] s = Some s1" "requeued s s1" "queues s1 [w] []"
    using take_ready_single [OF q t, of "[t_fd t]"] by auto
  let ?s2 = "s1\<lparr>rq_current := 0\<rparr>"
  have "RUNNING ?s2 = Some w" using RUNNING_queues [of ?s2 "[w]" "[]"] s1(3) by simp
  then have "wait_round s = Some (?s2\<lparr>pc := At (fst (environment t)) (snd (environment t))\<rparr>)"
    using True waiting_fds_queues [OF q] t s1(1,2)
    by (simp add: wait_round_def longjmp_env_def deref_def requeued_iff)
  then show ?thesis using True s1 by (simp add: sched_frame_def requeued_iff)
qed (use waiting_fds_queues [OF q] t in \<open>simp add: wait_round_def\<close>)

end
