(* ===== verification/Thread_Inv.thy ===== *)
theory Thread_Inv
  imports Thread_Queues
begin

text \<open>
  The invariants of the thread library. \<open>thread_at\<close> says what a thread control
  block holds after \<open>k\<close> rounds of its loop, in terms of the thread's argument
  and of what its reads returned; \<open>sched_inv\<close> describes the queues, the mask
  and the place of the process; \<open>history\<close> ties the lines printed so far to
  the rounds done. Each is kept by every step of the process and of its
  environment.
\<close>

section \<open>A thread after k rounds\<close>

fun func_id :: "func \<Rightarrow> cint" where
  "func_id Fibonacci = 0"
| "func_id Collatz = 1"
| "func_id Max_subarray = 2"

lemma func_id_inject [simp]: "func_id f = func_id g \<longleftrightarrow> f = g"
  by (cases f; cases g) simp_all

text \<open>The test at the end of round \<open>k\<close>, and the value that round prints.\<close>

fun round_ends :: "func \<Rightarrow> cint \<Rightarrow> nat \<Rightarrow> bool" where
  "round_ends Collatz a k \<longleftrightarrow> (collatz_word ^^ k) a = 1"
| "round_ends _ a k \<longleftrightarrow> word_of_nat k = a"

fun round_value :: "func \<Rightarrow> cint \<Rightarrow> cint list \<Rightarrow> nat \<Rightarrow> cint" where
  "round_value Fibonacci a vs k = word_of_nat (fib k)"
| "round_value Collatz a vs k = (collatz_word ^^ k) a"
| "round_value Max_subarray a vs k = snd (kadane (take k vs))"

text \<open>The counter \<open>i\<close> is an \<open>int\<close>: the closed forms hold until it wraps.\<close>

fun counts :: "func \<Rightarrow> nat \<Rightarrow> bool" where
  "counts Collatz k \<longleftrightarrow> True"
| "counts _ k \<longleftrightarrow> k < 2 ^ 31"

lemma counts_mono: "counts f (Suc k) \<Longrightarrow> counts f k"
  by (cases f) simp_all

fun rounds_done :: "func \<Rightarrow> cint \<Rightarrow> string \<Rightarrow> string list \<Rightarrow> nat \<Rightarrow> tcb \<Rightarrow> bool" where
  "rounds_done Fibonacci a b rs k t \<longleftrightarrow> t_arg t = a \<and> (0 < k \<and> k < 2 ^ 31 \<longrightarrow> fib_state a k t)"
| "rounds_done Collatz a b rs k t \<longleftrightarrow> t_arg t = (collatz_word ^^ k) a"
| "rounds_done Max_subarray a b rs k t \<longleftrightarrow> t_arg t = a \<and> length rs = k \<and> t_buf t = buf_after b rs
     \<and> (0 < k \<and> k < 2 ^ 31 \<longrightarrow> (t_y t, t_x t) = kadane (read_values b rs))"

definition thread_at :: "func \<Rightarrow> cint \<Rightarrow> string \<Rightarrow> string list \<Rightarrow> nat \<Rightarrow> tcb \<Rightarrow> bool" where
  "thread_at f a b rs k t \<longleftrightarrow> fst (environment t) = f \<and> rounds_done f a b rs k t \<and>
     (case snd (environment t) of
        After_setup \<Rightarrow> k = 0
      | After_read \<Rightarrow> f = Max_subarray \<and> t_i t = word_of_nat (Suc k)
      | After_yield \<Rightarrow> 0 < k \<and> (f \<noteq> Collatz \<longrightarrow> t_i t = word_of_nat k))"

lemma fib_round:
  assumes "thread_at Fibonacci a b rs k t"
  defines "t' \<equiv> loop_body Fibonacci (next_i (snd (environment t)) t)"
  shows "thread_at Fibonacci a b rs (Suc k) (t'\<lparr>environment := (Fibonacci, After_yield)\<rparr>)"
    and "loop_ends Fibonacci t' \<longleftrightarrow> round_ends Fibonacci a (Suc k)"
    and "counts Fibonacci (Suc k) \<Longrightarrow> printed_value Fibonacci t' = round_value Fibonacci a vs (Suc k)"
proof -
  let ?r = "snd (environment t)"
  have i: "t_i t' = word_of_nat (Suc k)" and arg: "t_arg t' = a"
    using assms by (auto simp: thread_at_def next_i_def loop_body_arg simp del: loop_body.simps
        split: resume.splits)
  have st: "fib_state a (Suc k) t'" if "Suc k < 2 ^ 31"
  proof (cases "?r = After_setup")
    case True
    then show ?thesis
      using assms fib_state_first [of t a] by (simp add: thread_at_def del: loop_body.simps)
  next
    case False
    then have "fib_state a k t" "0 < k"
      using assms(1) that by (auto simp: thread_at_def split: resume.splits)
    then show ?thesis using fib_state_next that False by (simp add: t'_def del: loop_body.simps)
  qed
  then show "thread_at Fibonacci a b rs (Suc k) (t'\<lparr>environment := (Fibonacci, After_yield)\<rparr>)"
    using i arg by (simp add: thread_at_def fib_state_def)
  show "loop_ends Fibonacci t' \<longleftrightarrow> round_ends Fibonacci a (Suc k)"
    using i arg by simp
  show "counts Fibonacci (Suc k) \<Longrightarrow> printed_value Fibonacci t' = round_value Fibonacci a vs (Suc k)"
    using st by (simp add: fib_state_def)
qed

lemma collatz_round:
  assumes "thread_at Collatz a b rs k t"
  defines "t' \<equiv> loop_body Collatz (next_i (snd (environment t)) t)"
  shows "thread_at Collatz a b rs (Suc k) (t'\<lparr>environment := (Collatz, After_yield)\<rparr>)"
    and "loop_ends Collatz t' \<longleftrightarrow> round_ends Collatz a (Suc k)"
    and "printed_value Collatz t' = round_value Collatz a vs (Suc k)"
  using assms(1) by (simp_all add: thread_at_def t'_def del: loop_body.simps)

lemma plain_round:
  assumes "thread_at f a b rs k t" and "f \<noteq> Max_subarray"
  defines "t' \<equiv> loop_body f (next_i (snd (environment t)) t)"
  shows "thread_at f a b rs (Suc k) (t'\<lparr>environment := (f, After_yield)\<rparr>)"
    and "loop_ends f t' \<longleftrightarrow> round_ends f a (Suc k)"
    and "counts f (Suc k) \<Longrightarrow> printed_value f t' = round_value f a vs (Suc k)"
  using assms fib_round [of a b rs k t] collatz_round [of a b rs k t] by (cases f; blast)+

lemma max_request:
  assumes "thread_at Max_subarray a b rs k t" and "snd (environment t) \<noteq> After_read"
  shows "thread_at Max_subarray a b rs k
    ((next_i (snd (environment t)) t)\<lparr>environment := (Max_subarray, After_read)\<rparr>)"
  using assms by (auto simp: thread_at_def next_i_def split: resume.splits)

lemma word_of_nat_neq_1:
  assumes "Suc k < 2 ^ 31" and "0 < k" shows "(word_of_nat (Suc k) :: cint) \<noteq> 1"
proof
  assume "(word_of_nat (Suc k) :: cint) = 1"
  then have "sint (word_of_nat (Suc k) :: cint) = 1" by simp
  then show False using sint_of_nat [OF assms(1)] assms(2) by simp
qed

lemma max_round:
  fixes c :: string
  assumes "thread_at Max_subarray a b rs k t" and "snd (environment t) = After_read"
  defines "t' \<equiv> loop_body Max_subarray (t\<lparr>t_buf := buf_write c (t_buf t)\<rparr>)"
  shows "thread_at Max_subarray a b (rs @ [c]) (Suc k) (t'\<lparr>environment := (Max_subarray, After_yield)\<rparr>)"
    and "loop_ends Max_subarray t' \<longleftrightarrow> round_ends Max_subarray a (Suc k)"
    and "counts Max_subarray (Suc k) \<Longrightarrow>
      printed_value Max_subarray t' = round_value Max_subarray a (read_values b (rs @ [c])) (Suc k)"
proof -
  let ?t1 = "t\<lparr>t_buf := buf_write c (t_buf t)\<rparr>"
  let ?vs = "read_values b (rs @ [c])"
  have i: "t_i t' = word_of_nat (Suc k)" and arg: "t_arg t' = a"
    and buf: "t_buf t' = buf_after b (rs @ [c])" and len: "length rs = k"
    using assms by (auto simp: thread_at_def buf_after_def loop_body_arg simp del: loop_body.simps)
  have v: "?vs = read_values b rs @ [atoi (cstr (t_buf ?t1))]"
    using assms(1) by (simp add: read_values_snoc thread_at_def buf_after_def)
  have st: "(t_y t', t_x t') = kadane ?vs" if k: "Suc k < 2 ^ 31"
  proof (cases "k = 0")
    case True
    then have "t_i ?t1 = 1" using assms(1,2) by (simp add: thread_at_def)
    then show ?thesis using max_body_first [of ?t1] True len v by (simp add: t'_def)
  next
    case False
    then have "t_i ?t1 \<noteq> 1" using assms(1,2) word_of_nat_neq_1 [OF k]
      by (simp add: thread_at_def del: of_nat_Suc)
    moreover have "(t_y t, t_x t) = kadane (read_values b rs)" "read_values b rs \<noteq> []"
      using assms(1) False k len by (auto simp: thread_at_def simp flip: length_0_conv)
    ultimately show ?thesis
      using max_body_next [of ?t1] kadane_snoc v by (simp add: t'_def)
  qed
  then show "thread_at Max_subarray a b (rs @ [c]) (Suc k) (t'\<lparr>environment := (Max_subarray, After_yield)\<rparr>)"
    using i arg buf len by (simp add: thread_at_def)
  show "loop_ends Max_subarray t' \<longleftrightarrow> round_ends Max_subarray a (Suc k)"
    using i arg by simp
  show "printed_value Max_subarray t' = round_value Max_subarray a ?vs (Suc k)"
    if "counts Max_subarray (Suc k)"
    using st that len by (metis counts.simps(3) le_refl length_append_singleton length_read_values
        printed_value.simps(3) round_value.simps(3) snd_conv take_all)
qed

section \<open>Where the process is\<close>

definition env_of :: "threads \<Rightarrow> nat \<Rightarrow> func \<times> resume" where
  "env_of s p = environment (the (heap s p))"

definition threads_ok :: "(nat \<Rightarrow> tcb option) \<Rightarrow> bool" where
  "threads_ok h \<longleftrightarrow>
     (\<forall>p t. h p = Some t \<longrightarrow> t_id t = func_id (fst (environment t))
        \<and> (snd (environment t) = After_read \<longrightarrow> fst (environment t) = Max_subarray))
     \<and> (\<forall>p q t u. h p = Some t \<longrightarrow> h q = Some u \<longrightarrow> fst (environment t) = fst (environment u) \<longrightarrow> p = q)"

text \<open>The mask: both signals are blocked except inside \<open>thread_yield\<close>.\<close>

definition mask_of :: "pc \<Rightarrow> signal set" where
  "mask_of l = (case l of Yield_tstp f \<Rightarrow> alrm_mask | Yield_alrm f \<Rightarrow> tstp_mask | _ \<Rightarrow> base_mask)"

text \<open>\<open>e\<close> is the environment of the running thread.\<close>

fun place_ok :: "pc \<Rightarrow> nat list \<Rightarrow> nat \<Rightarrow> nat list \<Rightarrow> func \<times> resume \<Rightarrow> bool" where
  "place_ok (At f r) R c W e \<longleftrightarrow> c < length R \<and> e = (f, r)"
| "place_ok (Sched tmp) R c W e \<longleftrightarrow> c < length R \<and>
     (tmp = 0 \<and> c = 0 \<or> tmp = 1 \<or> tmp = 2 \<and> e = (Max_subarray, After_read) \<or> tmp = 3)"
| "place_ok Waiting R c W e \<longleftrightarrow> R = [] \<and> W \<noteq> []"
| "place_ok (Yield_tstp f) R c W e \<longleftrightarrow> c < length R \<and> e = (f, After_yield)"
| "place_ok (Yield_alrm f) R c W e \<longleftrightarrow> c < length R \<and> e = (f, After_yield)"
| "place_ok Returned R c W e \<longleftrightarrow> R = [] \<and> W = []"
| "place_ok Crashed R c W e \<longleftrightarrow> False"

text \<open>
  A thread in the ready queue whose \<open>read\<close> is due has data, unless it is on its
  way out of that queue, or \<open>ro\<close>: a FIFO may be reopened after a hang-up.
\<close>

definition read_ready :: "bool \<Rightarrow> threads \<Rightarrow> nat list \<Rightarrow> bool" where
  "read_ready ro s R \<longleftrightarrow> (\<forall>p\<in>set R. snd (env_of s p) = After_read \<longrightarrow>
     thread_readable s p \<or> ro \<or> (RUNNING s = Some p \<and> (pc s = Sched 2 \<or> pc s = Sched 3)))"

definition sched_at :: "bool \<Rightarrow> threads \<Rightarrow> nat list \<Rightarrow> nat list \<Rightarrow> bool" where
  "sched_at ro s R W \<longleftrightarrow> queues s R W \<and> length W \<le> 1 \<and> threads_ok (heap s) \<and> blocked s = mask_of (pc s)
     \<and> place_ok (pc s) R (rq_current s) W (env_of s (R ! rq_current s))
     \<and> (\<forall>p\<in>set W. env_of s p = (Max_subarray, After_read)) \<and> read_ready ro s R"

definition sched_inv :: "bool \<Rightarrow> threads \<Rightarrow> bool" where
  "sched_inv ro s \<longleftrightarrow> (\<exists>R W. sched_at ro s R W)"

lemma RUNNING_update [simp]:
  "RUNNING (s\<lparr>heap := h\<rparr>) = RUNNING s" "RUNNING (s\<lparr>pc := l\<rparr>) = RUNNING s"
  "RUNNING (s\<lparr>trace := tr\<rparr>) = RUNNING s" "RUNNING (s\<lparr>blocked := b\<rparr>) = RUNNING s"
  "RUNNING (s\<lparr>pending := ps\<rparr>) = RUNNING s" "RUNNING (s\<lparr>timer := tm\<rparr>) = RUNNING s"
  "RUNNING (s\<lparr>fifos := fs\<rparr>) = RUNNING s" "RUNNING (s\<lparr>open_fds := fds\<rparr>) = RUNNING s"
  "RUNNING (s\<lparr>fifo_names := ns\<rparr>) = RUNNING s"
  by (simp_all add: RUNNING_def)

lemma env_of_update [simp]:
  "env_of (s\<lparr>rq_current := c\<rparr>) p = env_of s p" "env_of (s\<lparr>pc := l\<rparr>) p = env_of s p"
  "env_of (s\<lparr>trace := tr\<rparr>) p = env_of s p" "env_of (s\<lparr>blocked := b\<rparr>) p = env_of s p"
  "env_of (s\<lparr>pending := ps\<rparr>) p = env_of s p" "env_of (s\<lparr>timer := tm\<rparr>) p = env_of s p"
  "env_of (s\<lparr>fifos := fs\<rparr>) p = env_of s p" "env_of (s\<lparr>open_fds := fds\<rparr>) p = env_of s p"
  "env_of (s\<lparr>fifo_names := ns\<rparr>) p = env_of s p"
  by (simp_all add: env_of_def)

lemma thread_readable_other:
  "fifos s' = fifos s \<Longrightarrow> heap s' q = heap s q \<Longrightarrow> thread_readable s' q = thread_readable s q"
  by (auto simp: thread_readable_def readable_def split: option.splits)

text \<open>The running thread and its control block.\<close>

lemma running_thread:
  assumes "queues s R W" and "rq_current s < length R"
  obtains p t where "RUNNING s = Some p" "p = R ! rq_current s" "p \<in> set R" "heap s p = Some t"
proof -
  have m: "R ! rq_current s \<in> set R" using assms(2) by simp
  then obtain t where "heap s (R ! rq_current s) = Some t"
    using queues_heap [OF assms(1)] by blast
  then show thesis using that RUNNING_queues [OF assms] m by blast
qed

lemma queues_heap_update:
  "queues s R W \<Longrightarrow> heap s p = Some t \<Longrightarrow> queues (s\<lparr>heap := (heap s)(p \<mapsto> t')\<rparr>) R W"
  by (auto simp: queues_def dom_def split: if_splits)

section \<open>The thread operations in closed form\<close>

lemma set_running_eq:
  "RUNNING s = Some p \<Longrightarrow> heap s p = Some t \<Longrightarrow> set_running g s = Some (s\<lparr>heap := (heap s)(p \<mapsto> g t)\<rparr>)"
  by (simp add: set_running_def)

definition after_exit :: "func \<Rightarrow> nat \<Rightarrow> tcb \<Rightarrow> threads \<Rightarrow> threads" where
  "after_exit f p t s = s\<lparr>heap := (heap s)(p \<mapsto> t), trace := trace s @ [Printed (t_id t) (printed_value f t)],
     open_fds := filter (\<lambda>d. d \<noteq> t_fd t) (open_fds s), fifo_names := filter (\<lambda>n. n \<noteq> fifoname t) (fifo_names s),
     pc := Sched 3\<rparr>"

definition after_yield :: "func \<Rightarrow> nat \<Rightarrow> tcb \<Rightarrow> threads \<Rightarrow> threads" where
  "after_yield f p t s = s\<lparr>heap := (heap s)(p \<mapsto> t\<lparr>environment := (f, After_yield)\<rparr>),
     trace := trace s @ [Printed (t_id t) (printed_value f t)], blocked := alrm_mask, pc := Yield_tstp f\<rparr>"

definition after_round :: "func \<Rightarrow> nat \<Rightarrow> tcb \<Rightarrow> threads \<Rightarrow> threads" where
  "after_round f p t s = (if loop_ends f t then after_exit f p t s else after_yield f p t s)"

lemma compute_eq:
  "RUNNING s = Some p \<Longrightarrow> heap s p = Some t \<Longrightarrow>
     compute f s = Some (after_round f p (loop_body f t) (s\<lparr>heap := (heap s)(p \<mapsto> loop_body f t)\<rparr>))"
  by (simp add: compute_def set_running_eq deref_def Let_def after_round_def after_exit_def
      after_yield_def thread_exit_def thread_yield_def)

lemma after_round_heap [simp]:
  "after_round f p t (s\<lparr>heap := (heap s)(p \<mapsto> u)\<rparr>) = after_round f p t s"
  by (simp add: after_round_def after_exit_def after_yield_def)

definition after_request :: "nat \<Rightarrow> tcb \<Rightarrow> threads \<Rightarrow> threads" where
  "after_request p t s = s\<lparr>heap := (heap s)(p \<mapsto> t\<lparr>environment := (Max_subarray, After_read)\<rparr>), pc := Sched 2\<rparr>"

definition after_input :: "string \<Rightarrow> nat \<Rightarrow> threads \<Rightarrow> threads" where
  "after_input bytes fd s = s\<lparr>fifos := (fifos s)(fd := (fifos s fd)\<lparr>f_data := drop 5 (f_data (fifos s fd))\<rparr>),
     trace := trace s @ [Did_read bytes]\<rparr>"

text \<open>What each of the three ways into a thread does.\<close>

lemma thread_code_round:
  assumes "RUNNING s = Some p" and "heap s p = Some t" and "f \<noteq> Max_subarray"
  shows "thread_code f r s = Some (after_round f p (loop_body f (next_i r t)) s)"
  using assms by (cases f) (simp_all add: set_running_eq compute_eq)

lemma thread_code_request:
  assumes "RUNNING s = Some p" and "heap s p = Some t" and "r \<noteq> After_read"
  shows "thread_code Max_subarray r s = Some (after_request p (next_i r t) s)"
  using assms by (cases r) (simp_all add: set_running_eq async_read_def after_request_def)

lemma thread_code_read:
  assumes "RUNNING s = Some p" and "heap s p = Some t"
  defines "bytes \<equiv> take 5 (f_data (fifos s (t_fd t)))"
  shows "thread_code Max_subarray After_read s =
    Some (after_round Max_subarray p (loop_body Max_subarray (t\<lparr>t_buf := buf_write bytes (t_buf t)\<rparr>))
      (after_input bytes (t_fd t) s))"
  using assms
  by (simp add: read_fifo_def set_running_eq deref_def Let_def compute_eq after_input_def
      after_round_def after_exit_def after_yield_def)

section \<open>The queue invariant is kept\<close>

lemma threads_ok_update:
  assumes "threads_ok h" and "h p = Some t" and "t_id t' = t_id t"
    and "fst (environment t') = fst (environment t)"
    and "snd (environment t') = After_read \<Longrightarrow> fst (environment t) = Max_subarray"
  shows "threads_ok (h(p \<mapsto> t'))"
  using assms unfolding threads_ok_def by (simp split: if_splits) metis

lemma threads_ok_remove: "threads_ok h \<Longrightarrow> threads_ok (h(p := None))"
  unfolding threads_ok_def by (simp split: if_splits)

lemma threads_ok_reader:
  "threads_ok h \<Longrightarrow> h p = Some t \<Longrightarrow> snd (environment t) = After_read \<Longrightarrow> environment t = (Max_subarray, After_read)"
  unfolding threads_ok_def by (metis prod.collapse)

lemma threads_ok_unique:
  "threads_ok h \<Longrightarrow> h p = Some t \<Longrightarrow> h q = Some u \<Longrightarrow> fst (environment t) = fst (environment u) \<Longrightarrow> p = q"
  unfolding threads_ok_def by blast

lemma sched_at_update:
  assumes at: "sched_at ro s R W"
    and run: "RUNNING s = Some p" "p = R ! rq_current s" "rq_current s < length R" "heap s p = Some t"
    and pcs: "pc s \<noteq> Sched 2" "pc s \<noteq> Sched 3"
    and s': "queues s' R W" "rq_current s' = rq_current s" "RUNNING s' = Some p"
      "heap s' = (heap s)(p \<mapsto> t')" "blocked s' = mask_of (pc s')"
    and t': "t_id t' = t_id t" "fst (environment t') = fst (environment t)"
      "snd (environment t') = After_read \<Longrightarrow> fst (environment t) = Max_subarray \<and>
        (pc s' = Sched 2 \<or> pc s' = Sched 3 \<or> thread_readable s' p)"
    and place: "place_ok (pc s') R (rq_current s) W (environment t')"
    and fds: "\<And>q. q \<noteq> p \<Longrightarrow> snd (env_of s q) = After_read \<Longrightarrow> thread_readable s q \<Longrightarrow> thread_readable s' q"
  shows "sched_at ro s' R W"
proof -
  have ok: "threads_ok (heap s)" and len: "length W \<le> 1"
    and W: "\<forall>q\<in>set W. env_of s q = (Max_subarray, After_read)"
    and rr: "\<And>q. q \<in> set R \<Longrightarrow> snd (env_of s q) = After_read \<Longrightarrow> thread_readable s q \<or> ro"
    using at pcs unfolding sched_at_def read_ready_def by blast+
  have env: "env_of s' q = (if q = p then environment t' else env_of s q)" for q
    by (simp add: env_of_def s'(4))
  have "p \<notin> set W" using queues_disjoint [OF s'(1) run(3)] run(2) by simp
  then have "\<forall>q\<in>set W. env_of s' q = (Max_subarray, After_read)" using W env by auto
  moreover have "read_ready ro s' R"
    unfolding read_ready_def using env rr fds t'(3) s'(3) by metis
  moreover have "threads_ok (heap s')"
    unfolding s'(4) by (rule threads_ok_update [OF ok run(4) t'(1,2)]) (use t'(3) in blast)
  moreover have "place_ok (pc s') R (rq_current s') W (env_of s' (R ! rq_current s'))"
    using place run(2) s'(2) env by simp
  ultimately show ?thesis unfolding sched_at_def using len s'(1,5) by blast
qed

text \<open>Each way a thread's code can end.\<close>

lemma after_round_simps [simp]:
  "rq_current (after_round f p t s) = rq_current s" "RUNNING (after_round f p t s) = RUNNING s"
  "fifos (after_round f p t s) = fifos s" "pending (after_round f p t s) = pending s"
  "timer (after_round f p t s) = timer s" "timeslice (after_round f p t s) = timeslice s"
  "trace (after_round f p t s) = trace s @ [Printed (t_id t) (printed_value f t)]"
  by (simp_all add: after_round_def after_exit_def after_yield_def)

lemma heap_after_round:
  "heap (after_round f p t s) = (heap s)(p \<mapsto> (if loop_ends f t then t else t\<lparr>environment := (f, After_yield)\<rparr>))"
  "pc (after_round f p t s) = (if loop_ends f t then Sched 3 else Yield_tstp f)"
  "blocked (after_round f p t s) = (if loop_ends f t then blocked s else alrm_mask)"
  "open_fds (after_round f p t s) = (if loop_ends f t then filter (\<lambda>d. d \<noteq> t_fd t) (open_fds s) else open_fds s)"
  "fifo_names (after_round f p t s) =
    (if loop_ends f t then filter (\<lambda>n. n \<noteq> fifoname t) (fifo_names s) else fifo_names s)"
  by (simp_all add: after_round_def after_exit_def after_yield_def)

lemma thread_readable_after_round:
  "q \<noteq> p \<Longrightarrow> thread_readable (after_round f p t s) q = thread_readable s q"
  by (rule thread_readable_other) (simp_all add: heap_after_round)

lemma queues_after_round:
  "queues s R W \<Longrightarrow> heap s p = Some u \<Longrightarrow> queues (after_round f p t s) R W"
  using queues_heap_update [of s R W p u]
  by (simp add: after_round_def after_exit_def after_yield_def)

lemma sched_at_after_round:
  assumes at: "sched_at ro s R W"
    and run: "RUNNING s = Some p" "p = R ! rq_current s" "rq_current s < length R" "heap s p = Some t"
    and pcs: "pc s \<noteq> Sched 2" "pc s \<noteq> Sched 3"
    and u: "t_id u = t_id t" "environment u = environment t" and f: "fst (environment t) = f"
    and mask: "blocked s = base_mask"
  shows "sched_at ro (after_round f p u s) R W"
proof -
  have q: "queues s R W" and ok: "threads_ok (heap s)" using at by (simp_all add: sched_at_def)
  let ?t' = "if loop_ends f u then u else u\<lparr>environment := (f, After_yield)\<rparr>"
  show ?thesis
  proof (rule sched_at_update [OF at run pcs queues_after_round [OF q run(4)], where t' = ?t'])
    show "snd (environment ?t') = After_read \<Longrightarrow> fst (environment t) = Max_subarray \<and>
        (pc (after_round f p u s) = Sched 2 \<or> pc (after_round f p u s) = Sched 3 \<or>
         thread_readable (after_round f p u s) p)"
      using threads_ok_reader [OF ok run(4)] u
      by (auto simp: heap_after_round split: if_splits)
  qed (use run f u mask in \<open>auto simp: heap_after_round mask_of_def thread_readable_after_round\<close>)
qed

lemma sched_at_after_request:
  assumes at: "sched_at ro s R W"
    and run: "RUNNING s = Some p" "p = R ! rq_current s" "rq_current s < length R" "heap s p = Some t"
    and pcs: "pc s \<noteq> Sched 2" "pc s \<noteq> Sched 3"
    and f: "fst (environment t) = Max_subarray" and mask: "blocked s = base_mask"
  shows "sched_at ro (after_request p (next_i r t) s) R W"
proof -
  have q: "queues s R W" using at by (simp add: sched_at_def)
  have q': "queues (after_request p (next_i r t) s) R W"
    using queues_heap_update [OF q run(4)] by (simp add: after_request_def)
  have other: "thread_readable (after_request p (next_i r t) s) x = thread_readable s x" if "x \<noteq> p" for x
    using that by (intro thread_readable_other) (simp_all add: after_request_def)
  show ?thesis
    by (rule sched_at_update [OF at run pcs q',
          where t' = "(next_i r t)\<lparr>environment := (Max_subarray, After_read)\<rparr>"])
      (use run f mask other in \<open>simp_all add: after_request_def mask_of_def\<close>)
qed

text \<open>Reading takes data only from the reader's own FIFO, and there is one reader.\<close>

lemma thread_readable_after_input:
  assumes "threads_ok (heap s)" and "heap s p = Some t" and "fst (environment t) = Max_subarray"
    and "snd (env_of s q) = After_read" and "thread_readable s q"
  shows "q = p"
proof -
  obtain u where u: "heap s q = Some u" using assms(5) by (auto simp: thread_readable_def split: option.splits)
  then have "environment u = (Max_subarray, After_read)"
    using threads_ok_reader [OF assms(1) u] assms(4) by (simp add: env_of_def)
  then show ?thesis using threads_ok_unique [OF assms(1) u assms(2)] assms(3) by simp
qed

lemma sched_at_thread_code:
  assumes at: "sched_at ro s R W" and pc: "pc s = At f r"
  shows "\<exists>s'. thread_code f r s = Some s' \<and> sched_at ro s' R W"
proof -
  have q: "queues s R W" and c: "rq_current s < length R" and ok: "threads_ok (heap s)"
    and env: "env_of s (R ! rq_current s) = (f, r)" and mask: "blocked s = base_mask"
    using at pc by (simp_all add: sched_at_def mask_of_def)
  obtain p t where run: "RUNNING s = Some p" "p = R ! rq_current s" "p \<in> set R" "heap s p = Some t"
    using running_thread [OF q c] by blast
  have t: "environment t = (f, r)" using env run by (simp add: env_of_def)
  note at' = at run(1,2) c run(4)
  consider "f \<noteq> Max_subarray" | "f = Max_subarray" "r \<noteq> After_read" | "f = Max_subarray" "r = After_read"
    by blast
  then show ?thesis
  proof cases
    case 1
    show ?thesis
      using thread_code_round [OF run(1,4) 1] sched_at_after_round [OF at'] t mask pc by simp
  next
    case 2
    show ?thesis
      using thread_code_request [OF run(1,4) 2(2)] sched_at_after_request [OF at'] t mask pc 2 by simp
  next
    case 3
    let ?bytes = "take 5 (f_data (fifos s (t_fd t)))"
    let ?u = "loop_body Max_subarray (t\<lparr>t_buf := buf_write ?bytes (t_buf t)\<rparr>)"
    let ?s1 = "after_input ?bytes (t_fd t) s"
    have q': "queues (after_round Max_subarray p ?u ?s1) R W"
      by (rule queues_after_round [where u = t]) (use q run(4) in \<open>simp_all add: after_input_def\<close>)
    have "sched_at ro (after_round Max_subarray p ?u ?s1) R W"
    proof (rule sched_at_update [OF at' _ _ q', where t' =
          "if loop_ends Max_subarray ?u then ?u else ?u\<lparr>environment := (Max_subarray, After_yield)\<rparr>"])
      fix q assume "q \<noteq> p" "snd (env_of s q) = After_read" "thread_readable s q"
      then show "thread_readable (after_round Max_subarray p ?u ?s1) q"
        using thread_readable_after_input [OF ok run(4)] t 3 by simp
    qed (use t mask pc run 3 c in
      \<open>auto simp: heap_after_round mask_of_def after_input_def simp del: loop_body.simps split: if_splits\<close>)
    then show ?thesis using thread_code_read [OF run(1,4)] 3 by simp
  qed
qed

lemma sched_lists_sets:
  assumes "sched_lists rd tmp (R, c, W) = (R', c', W')" and "c < length R" and "distinct (R @ W)"
  shows "set R' = set R \<union> {p \<in> set W. rd p} - (if tmp = 1 then {} else {R ! c})"
    and "set W' = {p \<in> set W. \<not> rd p} \<union> (if tmp = 2 then {R ! c} else {})"
proof -
  let ?R1 = "R @ filter rd W"
  have R1: "distinct ?R1" "c < length ?R1" "?R1 ! c = R ! c" using assms(2,3) by (auto simp: nth_append)
  have eq1: "R' = (if tmp = 1 then ?R1 else remove_at c ?R1)"
    using assms(1) by (simp add: sched_lists_def Let_def)
  have eq2: "W' = filter (\<lambda>p. \<not> rd p) W @ (if tmp = 2 then [R ! c] else [])"
    using assms(1) by (cases "tmp = 2") (auto simp: sched_lists_def Let_def)
  show "set R' = set R \<union> {p \<in> set W. rd p} - (if tmp = 1 then {} else {R ! c})"
    using set_remove_at [OF R1(2,1)] R1(3) by (simp add: eq1)
  show "set W' = {p \<in> set W. \<not> rd p} \<union> (if tmp = 2 then {R ! c} else {})"
    by (simp add: eq2)
qed

text \<open>While the one reader runs nobody waits.\<close>

lemma reader_running:
  assumes at: "sched_at ro s R W" and c: "rq_current s < length R"
    and e: "env_of s (R ! rq_current s) = (Max_subarray, After_read)"
  shows "W = []"
proof (rule ccontr)
  assume "W \<noteq> []"
  then obtain w where w: "w \<in> set W" by (cases W) auto
  have q: "queues s R W" and ok: "threads_ok (heap s)" and ew: "env_of s w = (Max_subarray, After_read)"
    using at w by (simp_all add: sched_at_def)
  obtain p t where p: "p = R ! rq_current s" "heap s p = Some t"
    using running_thread [OF q c] by blast
  obtain u where u: "heap s w = Some u" using queues_heap [OF q, of w] w by auto
  have "w = p" using threads_ok_unique [OF ok u p(2)] e ew p u by (simp add: env_of_def)
  then show False using queues_disjoint [OF q c] w p by simp
qed

lemma mask_of_dispatched: "mask_of (dispatched h R c W) = base_mask"
  by (simp add: dispatched_def mask_of_def)

lemma sched_at_scheduler:
  assumes at: "sched_at ro s R W" and pc: "pc s = Sched tmp" and t: "tmp \<noteq> 0"
    and spec: "sched_lists (thread_readable s) tmp (R, rq_current s, W) = (R', c', W')"
  defines "h \<equiv> (if tmp = 3 then (heap s)(R ! rq_current s := None) else heap s)"
  shows "\<exists>s'. scheduler tmp s = Some s' \<and> sched_at ro s' R' W' \<and> rq_current s' = c' \<and> heap s' = h
    \<and> pc s' = dispatched h R' c' W' \<and> sched_frame s s'"
proof -
  let ?p = "R ! rq_current s"
  have q: "queues s R W" and w: "length W \<le> 1" and ok: "threads_ok (heap s)"
    and c: "rq_current s < length R" and tmp: "tmp = 1 \<or> tmp = 2 \<or> tmp = 3"
    and e: "tmp = 2 \<Longrightarrow> env_of s ?p = (Max_subarray, After_read)"
    and mask: "blocked s = base_mask" and rr: "read_ready ro s R"
    and W: "\<forall>p\<in>set W. env_of s p = (Max_subarray, After_read)"
    using at pc t by (auto simp: sched_at_def mask_of_def)
  have w2: "tmp = 2 \<Longrightarrow> W = []" using reader_running [OF at c] e by blast
  obtain s' where s': "scheduler tmp s = Some s'" "queues s' R' W'" "rq_current s' = c'" "heap s' = h"
      "pc s' = dispatched h R' c' W'" "sched_frame s s'"
    using scheduler_refines [OF q c w w2 tmp spec] unfolding h_def by blast
  have dist: "distinct (R @ W)" using q by (simp add: queues_def)
  note sets = sched_lists_sets [OF spec c dist]
  have same: "heap s' x = heap s x" if "x \<noteq> ?p \<or> tmp \<noteq> 3" for x
    using that by (auto simp: s'(4) h_def)
  have notin: "?p \<notin> set W" using queues_disjoint [OF q c] .
  have RUN: "RUNNING s = Some ?p" by (rule RUNNING_queues [OF q c])
  have "read_ready ro s' R'"
    unfolding read_ready_def
  proof (intro ballI impI)
    fix x assume x: "x \<in> set R'" and ex: "snd (env_of s' x) = After_read"
    have xp: "x \<noteq> ?p \<or> tmp = 1" using x sets(1) by (auto split: if_splits)
    then have hx: "heap s' x = heap s x" using same by auto
    have "thread_readable s x \<or> ro"
    proof (cases "x \<in> set R")
      case True
      then show ?thesis using rr ex hx xp RUN pc unfolding read_ready_def env_of_def by auto
    next
      case False
      then show ?thesis using x sets(1) by (auto split: if_splits)
    qed
    then show "thread_readable s' x \<or> ro \<or> (RUNNING s' = Some x \<and> (pc s' = Sched 2 \<or> pc s' = Sched 3))"
      using thread_readable_other [of s' s x] hx s'(6) by (auto simp: sched_frame_def)
  qed
  moreover have "\<forall>x\<in>set W'. env_of s' x = (Max_subarray, After_read)"
  proof
    fix x assume "x \<in> set W'"
    then have "x \<in> set W \<or> tmp = 2 \<and> x = ?p" unfolding sets(2) by (auto split: if_splits)
    then have "env_of s x = (Max_subarray, After_read)" "x \<noteq> ?p \<or> tmp \<noteq> 3" using W e notin by auto
    then show "env_of s' x = (Max_subarray, After_read)" using same [of x] by (simp add: env_of_def)
  qed
  moreover have "threads_ok (heap s')" using ok threads_ok_remove by (simp add: s'(4) h_def)
  moreover have "blocked s' = mask_of (pc s')" using s'(5,6) mask mask_of_dispatched by (simp add: sched_frame_def)
  moreover have "place_ok (pc s') R' (rq_current s') W' (env_of s' (R' ! rq_current s'))"
    using sched_lists_current [OF spec c] s'(3,4,5) by (auto simp: dispatched_def env_of_def)
  moreover have "length W' \<le> 1" by (rule sched_lists_waiting [OF spec w w2])
  ultimately have "sched_at ro s' R' W'" using s'(2) by (simp add: sched_at_def)
  then show ?thesis using s' by blast
qed

lemma sched_at_first:
  assumes at: "sched_at ro s R W" and pc: "pc s = Sched 0"
  shows "\<exists>f r. scheduler 0 s = Some (s\<lparr>pc := At f r\<rparr>) \<and> sched_at ro (s\<lparr>pc := At f r\<rparr>) R W"
proof -
  have q: "queues s R W" and c: "rq_current s < length R" "rq_current s = 0"
    using at pc by (auto simp: sched_at_def)
  obtain p t where p: "RUNNING s = Some p" "p = R ! 0" "heap s p = Some t"
    using running_thread [OF q c(1)] c(2) by metis
  have "queue_get (ready_queue s) 0 = Some p" using p c by (simp add: RUNNING_def)
  then have "scheduler 0 s = Some (s\<lparr>pc := At (fst (environment t)) (snd (environment t))\<rparr>)"
    using p by (simp add: scheduler_def longjmp_env_def deref_def)
  moreover have "sched_at ro (s\<lparr>pc := At (fst (environment t)) (snd (environment t))\<rparr>) R W"
  proof -
    have "thread_readable (s\<lparr>pc := l\<rparr>) x = thread_readable s x" for l x
      by (rule thread_readable_other) simp_all
    then show ?thesis
      using at pc p c by (auto simp: sched_at_def mask_of_def read_ready_def env_of_def)
  qed
  ultimately show ?thesis by blast
qed

lemma sched_at_wait_round:
  assumes at: "sched_at ro s R W" and pc: "pc s = Waiting"
  shows "wait_round s = Some s \<or> (\<exists>s' w t. wait_round s = Some s' \<and> W = [w] \<and> heap s w = Some t
    \<and> sched_at ro s' [w] [] \<and> heap s' = heap s \<and> pc s' = At (fst (environment t)) (snd (environment t))
    \<and> sched_frame s s')"
proof -
  have q: "queues s R W" and R: "R = []" and "W \<noteq> []" "length W \<le> 1"
    using at pc by (auto simp: sched_at_def)
  then obtain w where W: "W = [w]" by (cases W) auto
  obtain t where t: "heap s w = Some t" using queues_heap [OF q, of w] W by auto
  show ?thesis
  proof (cases "readable s (t_fd t)")
    case True
    then obtain s' where s': "wait_round s = Some s'" "queues s' [w] []" "rq_current s' = 0" "heap s' = heap s"
      "pc s' = At (fst (environment t)) (snd (environment t))" "sched_frame s s'"
      using wait_round_queues [OF q [unfolded R W] t] by auto
    have "thread_readable s' w"
      using True s' t by (simp add: thread_readable_def readable_def sched_frame_def)
    then have "sched_at ro s' [w] []"
      using at s' t pc by (auto simp: sched_at_def mask_of_def read_ready_def env_of_def sched_frame_def)
    then show ?thesis using s' t W by blast
  qed (use wait_round_queues [OF q [unfolded R W] t] in simp)
qed

text \<open>Steps that touch neither the queues nor the heap.\<close>

lemma sched_at_same:
  assumes at: "sched_at ro s R W"
    and q: "queues s' R W" "rq_current s' = rq_current s" "heap s' = heap s" "RUNNING s' = RUNNING s"
    and mask: "blocked s' = mask_of (pc s')"
    and place: "place_ok (pc s') R (rq_current s) W (env_of s (R ! rq_current s))"
    and pcs: "pc s = pc s' \<or> (pc s \<noteq> Sched 2 \<and> pc s \<noteq> Sched 3)"
    and fds: "\<And>x. thread_readable s x \<Longrightarrow> snd (env_of s x) = After_read \<Longrightarrow> thread_readable s' x"
  shows "sched_at ro s' R W"
proof -
  have env: "env_of s' x = env_of s x" for x by (simp add: env_of_def q(3))
  have "read_ready ro s' R"
    using at pcs fds q(4) unfolding sched_at_def read_ready_def env by metis
  then show ?thesis using at q mask place by (simp add: sched_at_def env)
qed

lemma deliverable_pc:
  assumes "deliverable s = Some x" and "blocked s = mask_of (pc s)"
  shows "(\<exists>f. pc s = Yield_tstp f \<and> x = SIGTSTP) \<or> (\<exists>f. pc s = Yield_alrm f \<and> x = SIGALRM)"
  using assms by (auto simp: deliverable_def mask_of_def base_mask_def tstp_mask_def alrm_mask_def
      split: if_splits pc.splits)

lemma deliver_fields [simp]:
  "rq_current (deliver x s) = rq_current s" "heap (deliver x s) = heap s" "RUNNING (deliver x s) = RUNNING s"
  "fifos (deliver x s) = fifos s" "pc (deliver x s) = Sched 1" "blocked (deliver x s) = insert x (blocked s)"
  "pending (deliver x s) = pending s - {x}" "timeslice (deliver x s) = timeslice s"
  "open_fds (deliver x s) = open_fds s" "fifo_names (deliver x s) = fifo_names s"
  "timer (deliver x s) = (if x = SIGALRM then timeslice s \<noteq> 0 else timer s)"
  "trace (deliver x s) = trace s @ [Caught x]"
  by (simp_all add: deliver_def sighandler_def Let_def RUNNING_def)

lemma queues_deliver [simp]: "queues (deliver x s) R W = queues s R W"
  by (simp add: queues_def deliver_def sighandler_def Let_def)

text \<open>After a signal was caught in \<open>thread_yield\<close> both signals are blocked again.\<close>

lemma sched_at_deliver:
  assumes at: "sched_at ro s R W" and d: "deliverable s = Some x"
  shows "sched_at ro (deliver x s) R W"
proof -
  have b: "blocked s = mask_of (pc s)" and q: "queues s R W" using at by (simp_all add: sched_at_def)
  have place: "place_ok (pc s) R (rq_current s) W (env_of s (R ! rq_current s))"
    using at by (simp add: sched_at_def)
  have th: "thread_readable (deliver x s) y = thread_readable s y" for y
    by (rule thread_readable_other) simp_all
  from deliverable_pc [OF d b] show ?thesis
    by (intro sched_at_same [OF at])
      (use q b th place in \<open>auto simp: mask_of_def alrm_mask_def tstp_mask_def base_mask_def\<close>)
qed

lemma run_pc_keeps_sched_inv:
  assumes inv: "sched_inv ro s" and pc: "pc s \<noteq> Returned"
  shows "\<exists>s'. run_pc s = Some s' \<and> sched_inv ro s'"
proof -
  obtain R W where at: "sched_at ro s R W" using inv by (auto simp: sched_inv_def)
  have th: "thread_readable (s\<lparr>blocked := b, pc := l\<rparr>) y = thread_readable s y" for y b l
    by (rule thread_readable_other) simp_all
  show ?thesis
  proof (cases "pc s")
    case (At f r)
    then show ?thesis using sched_at_thread_code [OF at At] by (auto simp: run_pc_def sched_inv_def)
  next
    case (Sched tmp)
    show ?thesis
    proof (cases "tmp = 0")
      case True
      then show ?thesis using sched_at_first [OF at] Sched by (auto simp: run_pc_def sched_inv_def)
    next
      case False
      obtain R' c' W' where spec: "sched_lists (thread_readable s) tmp (R, rq_current s, W) = (R', c', W')"
        by (metis prod_cases3)
      show ?thesis
        using sched_at_scheduler [OF at Sched False spec] Sched by (auto simp: run_pc_def sched_inv_def)
    qed
  next
    case Waiting
    then show ?thesis
      using sched_at_wait_round [OF at Waiting] inv by (auto simp: run_pc_def sched_inv_def)
  next
    case (Yield_tstp f)
    then have "sched_at ro (s\<lparr>blocked := tstp_mask, pc := Yield_alrm f\<rparr>) R W"
      by (intro sched_at_same [OF at]) (use at th in \<open>auto simp: sched_at_def mask_of_def\<close>)
    then show ?thesis using Yield_tstp by (auto simp: run_pc_def sched_inv_def)
  next
    case (Yield_alrm f)
    then have "sched_at ro (s\<lparr>blocked := base_mask, pc := At f After_yield\<rparr>) R W"
      by (intro sched_at_same [OF at]) (use at th in \<open>auto simp: sched_at_def mask_of_def\<close>)
    then show ?thesis using Yield_alrm by (auto simp: run_pc_def sched_inv_def)
  next
    case Crashed
    then show ?thesis using at by (simp add: sched_at_def)
  qed (use pc in simp)
qed

lemma step_keeps_sched_inv:
  assumes inv: "sched_inv ro s" and pc: "pc s \<noteq> Returned"
  shows "sched_inv ro (step s)"
proof (cases "deliverable s")
  case None
  then show ?thesis using run_pc_keeps_sched_inv [OF assms] by (auto simp: step_def)
next
  case (Some x)
  obtain R W where "sched_at ro s R W" using inv by (auto simp: sched_inv_def)
  then have "sched_at ro (deliver x s) R W" using Some by (rule sched_at_deliver)
  then show ?thesis using Some by (auto simp: step_def sched_inv_def)
qed

text \<open>No event of the environment takes readability away, but a FIFO that is reopened.\<close>

lemma tstep_keeps_sched_inv: "tstep ro s s' \<Longrightarrow> sched_inv ro s \<Longrightarrow> sched_inv ro s'"
proof (induction rule: tstep.induct)
  case (Run s)
  then show ?case using step_keeps_sched_inv by blast
next
  case (Terminal_stop s)
  then obtain R W where at: "sched_at ro s R W" by (auto simp: sched_inv_def)
  have "sched_at ro (s\<lparr>pending := insert SIGTSTP (pending s)\<rparr>) R W"
    by (rule sched_at_same [OF at]) (use at in \<open>auto simp: sched_at_def thread_readable_def readable_def split: option.splits\<close>)
  then show ?case by (auto simp: sched_inv_def)
next
  case (Alarm s)
  then obtain R W where at: "sched_at ro s R W" by (auto simp: sched_inv_def)
  have "sched_at ro (s\<lparr>timer := False, pending := insert SIGALRM (pending s)\<rparr>) R W"
    by (rule sched_at_same [OF at]) (use at in \<open>auto simp: sched_at_def thread_readable_def readable_def split: option.splits\<close>)
  then show ?case by (auto simp: sched_inv_def)
next
  case (Data s fd bytes)
  then obtain R W where at: "sched_at ro s R W" by (auto simp: sched_inv_def)
  have "sched_at ro (s\<lparr>fifos := (fifos s)(fd := (fifos s fd)\<lparr>f_data := f_data (fifos s fd) @ bytes\<rparr>)\<rparr>) R W"
    by (rule sched_at_same [OF at]) (use at in \<open>auto simp: sched_at_def thread_readable_def readable_def split: option.splits\<close>)
  then show ?case by (auto simp: sched_inv_def)
next
  case (Hang_up s fd)
  then obtain R W where at: "sched_at ro s R W" by (auto simp: sched_inv_def)
  have "sched_at ro (s\<lparr>fifos := (fifos s)(fd := (fifos s fd)\<lparr>f_hup := True\<rparr>)\<rparr>) R W"
    by (rule sched_at_same [OF at]) (use at in \<open>auto simp: sched_at_def thread_readable_def readable_def split: option.splits\<close>)
  then show ?case by (auto simp: sched_inv_def)
next
  case (Reopen s fd)
  then obtain R W where at: "sched_at ro s R W" by (auto simp: sched_inv_def)
  have "read_ready ro (s\<lparr>fifos := (fifos s)(fd := (fifos s fd)\<lparr>f_hup := False\<rparr>)\<rparr>) R"
    using Reopen by (simp add: read_ready_def)
  with at have "sched_at ro (s\<lparr>fifos := (fifos s)(fd := (fifos s fd)\<lparr>f_hup := False\<rparr>)\<rparr>) R W"
    by (simp add: sched_at_def)
  then show ?case by (auto simp: sched_inv_def)
qed

section \<open>The kinds of step\<close>

text \<open>
  A step leaves the heap alone, runs the code of the running thread up to its
  next switch, or frees the thread that exited.
\<close>

definition quiet_step :: "threads \<Rightarrow> threads \<Rightarrow> bool" where
  "quiet_step s s' \<longleftrightarrow> heap s' = heap s \<and> (trace s' = trace s \<or> (\<exists>x. trace s' = trace s @ [Caught x]))
     \<and> open_fds s' = open_fds s \<and> fifo_names s' = fifo_names s \<and> pc s \<noteq> Sched 3 \<and> pc s' \<noteq> Sched 3"

definition thread_step :: "nat \<Rightarrow> tcb \<Rightarrow> threads \<Rightarrow> threads \<Rightarrow> bool" where
  "thread_step p t s s' \<longleftrightarrow> RUNNING s = Some p \<and> heap s p = Some t \<and> pc s \<noteq> Sched 3 \<and>
     (case environment t of (f, r) \<Rightarrow>
        if f \<noteq> Max_subarray then s' = after_round f p (loop_body f (next_i r t)) s
        else if r \<noteq> After_read then s' = after_request p (next_i r t) s
        else \<exists>bytes. s' = after_round f p (loop_body f (t\<lparr>t_buf := buf_write bytes (t_buf t)\<rparr>))
                            (after_input bytes (t_fd t) s))"

definition free_step :: "nat \<Rightarrow> threads \<Rightarrow> threads \<Rightarrow> bool" where
  "free_step p s s' \<longleftrightarrow> pc s = Sched 3 \<and> RUNNING s = Some p \<and> heap s p \<noteq> None
     \<and> heap s' = (heap s)(p := None) \<and> trace s' = trace s \<and> open_fds s' = open_fds s
     \<and> fifo_names s' = fifo_names s \<and> pc s' \<noteq> Sched 3"

lemma dispatched_not_Sched [simp]: "dispatched h R c W \<noteq> Sched tmp"
  by (simp add: dispatched_def)

lemma run_pc_kinds:
  assumes at: "sched_at ro s R W" and pc: "pc s \<noteq> Returned" and s': "run_pc s = Some s'"
  shows "quiet_step s s' \<or> (\<exists>p t. thread_step p t s s') \<or> (\<exists>p. free_step p s s')"
proof (cases "pc s")
  case (At f r)
  have q: "queues s R W" and c: "rq_current s < length R" and e: "env_of s (R ! rq_current s) = (f, r)"
    using at At by (simp_all add: sched_at_def)
  obtain p t where run: "RUNNING s = Some p" "p = R ! rq_current s" "heap s p = Some t"
    using running_thread [OF q c] by blast
  then have t: "environment t = (f, r)" using e by (simp add: env_of_def)
  have "thread_step p t s s'"
    using s' run t At thread_code_round [OF run(1,3), of f r] thread_code_request [OF run(1,3), of r]
      thread_code_read [OF run(1,3)]
    by (cases "f = Max_subarray"; cases "r = After_read") (auto simp: thread_step_def run_pc_def)
  then show ?thesis by blast
next
  case (Sched tmp)
  show ?thesis
  proof (cases "tmp = 0")
    case True
    then obtain f r where "s' = s\<lparr>pc := At f r\<rparr>"
      using sched_at_first [OF at] Sched s' by (auto simp: run_pc_def)
    then show ?thesis using Sched True by (simp add: quiet_step_def)
  next
    case False
    obtain R' c' W' where spec: "sched_lists (thread_readable s) tmp (R, rq_current s, W) = (R', c', W')"
      by (metis prod_cases3)
    have q: "queues s R W" and c: "rq_current s < length R" using at Sched by (simp_all add: sched_at_def)
    obtain p t where run: "RUNNING s = Some p" "p = R ! rq_current s" "heap s p = Some t"
      using running_thread [OF q c] by blast
    show ?thesis
      using sched_at_scheduler [OF at Sched False spec] Sched s' run
      by (auto simp: run_pc_def quiet_step_def free_step_def sched_frame_def split: if_splits)
  qed
next
  case Waiting
  then show ?thesis using sched_at_wait_round [OF at Waiting] s'
    by (auto simp: run_pc_def quiet_step_def sched_frame_def)
qed (use pc s' at in \<open>auto simp: run_pc_def quiet_step_def sched_at_def\<close>)

lemma step_kinds:
  assumes inv: "sched_inv ro s" and pc: "pc s \<noteq> Returned"
  obtains (quiet) "quiet_step s (step s)" | (thread) p t where "thread_step p t s (step s)"
    | (free) p where "free_step p s (step s)"
proof -
  obtain R W where at: "sched_at ro s R W" using inv by (auto simp: sched_inv_def)
  show thesis
  proof (cases "deliverable s")
    case None
    obtain s' where s': "run_pc s = Some s'" using run_pc_keeps_sched_inv [OF assms] by blast
    then have "step s = s'" using None by (simp add: step_def)
    then show thesis using run_pc_kinds [OF at pc s'] that by blast
  next
    case (Some x)
    have "pc s \<noteq> Sched 3" using deliverable_pc [OF Some] at by (auto simp: sched_at_def)
    then have "quiet_step s (step s)" using Some by (simp add: quiet_step_def step_def)
    then show thesis by (rule that)
  qed
qed

section \<open>What has been printed\<close>

fun printed :: "cint \<Rightarrow> event list \<Rightarrow> cint list" where
  "printed i [] = []"
| "printed i (Printed j v # tr) = (if i = j then v # printed i tr else printed i tr)"
| "printed i (e # tr) = printed i tr"

fun reads :: "event list \<Rightarrow> string list" where
  "reads [] = []"
| "reads (Did_read bs # tr) = bs # reads tr"
| "reads (e # tr) = reads tr"

lemma printed_append [simp]: "printed i (tr @ tr') = printed i tr @ printed i tr'"
  by (induction i tr rule: printed.induct) simp_all

lemma reads_append [simp]: "reads (tr @ tr') = reads tr @ reads tr'"
  by (induction tr rule: reads.induct) simp_all

text \<open>\<open>ended\<close>: round \<open>k\<close> is the first at whose end the test holds.\<close>

definition running :: "func \<Rightarrow> cint \<Rightarrow> nat \<Rightarrow> bool" where
  "running f a k \<longleftrightarrow> (\<forall>j. 0 < j \<and> j \<le> k \<longrightarrow> \<not> round_ends f a j)"

definition ended :: "func \<Rightarrow> cint \<Rightarrow> nat \<Rightarrow> bool" where
  "ended f a k \<longleftrightarrow> 0 < k \<and> round_ends f a k \<and> running f a (k - 1)"

definition lines_ok :: "func \<Rightarrow> cint \<Rightarrow> cint list \<Rightarrow> cint list \<Rightarrow> bool" where
  "lines_ok f a vs ps \<longleftrightarrow> (\<forall>j<length ps. counts f (Suc j) \<longrightarrow> ps ! j = round_value f a vs (Suc j))"

definition exiting :: "threads \<Rightarrow> nat \<Rightarrow> bool" where
  "exiting s p \<longleftrightarrow> pc s = Sched 3 \<and> RUNNING s = Some p"

text \<open>\<open>a\<close> is the thread's argument, \<open>b\<close> what its buffer held when it was created.\<close>

definition history :: "cint \<Rightarrow> string \<Rightarrow> threads \<Rightarrow> func \<Rightarrow> bool" where
  "history a b s f \<longleftrightarrow>
     (let ps = printed (func_id f) (trace s); rs = reads (trace s); k = length ps in
      lines_ok f a (read_values b rs) ps \<and> (f = Max_subarray \<longrightarrow> length rs = k)
      \<and> (\<forall>p t. heap s p = Some t \<longrightarrow> fst (environment t) = f \<longrightarrow>
           (if exiting s p then ended f a k else running f a k \<and> thread_at f a b rs k t))
      \<and> ((\<forall>p t. heap s p = Some t \<longrightarrow> fst (environment t) \<noteq> f) \<longrightarrow>
           ended f a k \<or> (k = 0 \<and> sint a < 0)))"

lemma running_Suc: "running f a (Suc k) \<longleftrightarrow> running f a k \<and> \<not> round_ends f a (Suc k)"
  by (auto simp: running_def le_Suc_eq)

lemma ended_Suc: "running f a k \<Longrightarrow> round_ends f a (Suc k) \<Longrightarrow> ended f a (Suc k)"
  by (simp add: ended_def)

lemma lines_ok_snoc:
  assumes "lines_ok f a vs ps" and "counts f (Suc (length ps)) \<Longrightarrow> v = round_value f a vs (Suc (length ps))"
  shows "lines_ok f a vs (ps @ [v])"
  using assms by (auto simp: lines_ok_def nth_append less_Suc_eq)

lemma lines_ok_more_reads:
  assumes "lines_ok Max_subarray a vs ps" and "length ps = length vs"
  shows "lines_ok Max_subarray a (vs @ [v]) ps"
  using assms by (simp add: lines_ok_def)

lemma thread_at_other_reads: "f \<noteq> Max_subarray \<Longrightarrow> thread_at f a b rs k t = thread_at f a b rs' k t"
  by (cases f) (simp_all add: thread_at_def)

lemma lines_ok_other_reads: "f \<noteq> Max_subarray \<Longrightarrow> lines_ok f a vs ps = lines_ok f a vs' ps"
  by (cases f) (simp_all add: lines_ok_def)

lemma history_quiet:
  assumes "quiet_step s s'" and "history a b s f"
  shows "history a b s' f"
proof -
  have tr: "printed (func_id f) (trace s') = printed (func_id f) (trace s)" "reads (trace s') = reads (trace s)"
    using assms(1) by (auto simp: quiet_step_def)
  have "heap s' = heap s" "\<And>p. \<not> exiting s p" "\<And>p. \<not> exiting s' p"
    using assms(1) by (simp_all add: quiet_step_def exiting_def)
  then show ?thesis using assms(2) by (simp add: history_def tr)
qed

text \<open>A step of one thread is no step of another.\<close>

lemma history_other:
  assumes h: "history a b s f" and p: "heap s p = Some t" "fst (environment t) \<noteq> f"
    and heap: "heap s' = (heap s)(p := u)" "\<And>t'. u = Some t' \<Longrightarrow> fst (environment t') \<noteq> f"
    and pr: "printed (func_id f) (trace s') = printed (func_id f) (trace s)"
    and rd: "f = Max_subarray \<Longrightarrow> reads (trace s') = reads (trace s)"
    and ex: "\<And>q. q \<noteq> p \<Longrightarrow> \<not> exiting s q \<and> \<not> exiting s' q"
  shows "history a b s' f"
proof -
  let ?ps = "printed (func_id f) (trace s)"
  have rd': "thread_at f a b (reads (trace s')) k x = thread_at f a b (reads (trace s)) k x"
    "lines_ok f a (read_values b (reads (trace s'))) ?ps = lines_ok f a (read_values b (reads (trace s))) ?ps"
    "f = Max_subarray \<longrightarrow> length (reads (trace s')) = length (reads (trace s))" for k x
    using rd thread_at_other_reads lines_ok_other_reads by (cases "f = Max_subarray"; auto)+
  have alive: "(\<exists>t. heap s' q = Some t \<and> fst (environment t) = f \<and> P t) \<longleftrightarrow>
    (\<exists>t. heap s q = Some t \<and> fst (environment t) = f \<and> P t)" for q P
    using p heap by (cases "q = p") auto
  have same: "heap s q = Some x \<and> q \<noteq> p"
    if "heap s' q = Some x" "fst (environment x) = f" for q x
    using that p heap by (auto split: if_splits)
  have dead: "(\<forall>q x. heap s' q = Some x \<longrightarrow> fst (environment x) \<noteq> f) \<longleftrightarrow>
    (\<forall>q x. heap s q = Some x \<longrightarrow> fst (environment x) \<noteq> f)"
    using alive [of _ "\<lambda>_. True"] by blast
  show ?thesis
    using h unfolding history_def Let_def pr rd' dead using same ex rd'(3) by metis
qed

lemma history_thread_new:
  assumes inv: "threads_ok (heap s)" and p: "heap s p = Some t" "fst (environment t) = f"
    and heap: "heap s' = (heap s)(p \<mapsto> t')" "fst (environment t') = f"
    and lines: "lines_ok f a (read_values b (reads (trace s'))) (printed (func_id f) (trace s'))"
    and k: "k = length (printed (func_id f) (trace s'))" "f = Max_subarray \<Longrightarrow> length (reads (trace s')) = k"
    and new: "if exiting s' p then ended f a k else running f a k \<and> thread_at f a b (reads (trace s')) k t'"
  shows "history a b s' f"
proof -
  have uniq: "q = p \<and> x = t'" if "heap s' q = Some x" "fst (environment x) = f" for q x
  proof (cases "q = p")
    case False
    then have "heap s q = Some x" using that heap by simp
    then show ?thesis using threads_ok_unique [OF inv _ p(1), of q x] that p(2) False by simp
  qed (use that heap in simp)
  have "heap s' p = Some t'" using heap by simp
  then have alive: "\<not> (\<forall>q x. heap s' q = Some x \<longrightarrow> fst (environment x) \<noteq> f)" using heap(2) by blast
  show ?thesis
    unfolding history_def Let_def using lines k new uniq alive by metis
qed

lemma history_free:
  assumes inv: "threads_ok (heap s)" and st: "free_step p s s'" and h: "history a b s f"
  shows "history a b s' f"
proof -
  obtain t where t: "heap s p = Some t" using st by (auto simp: free_step_def)
  have s': "heap s' = (heap s)(p := None)" "trace s' = trace s" "exiting s p" "\<And>q. \<not> exiting s' q"
    "\<And>q. q \<noteq> p \<Longrightarrow> \<not> exiting s q"
    using st by (auto simp: free_step_def exiting_def)
  show ?thesis
  proof (cases "fst (environment t) = f")
    case False
    then show ?thesis by (intro history_other [OF h t False s'(1)]) (simp_all add: s')
  next
    case True
    have "ended f a (length (printed (func_id f) (trace s)))"
      using h t True s'(3) by (auto simp: history_def Let_def)
    moreover have "fst (environment x) \<noteq> f" if "heap s' q = Some x" for q x
    proof
      assume "fst (environment x) = f"
      moreover have "heap s q = Some x" "q \<noteq> p" using that s'(1) by (auto split: if_splits)
      ultimately show False using threads_ok_unique [OF inv _ t, of q x] True by simp
    qed
    ultimately show ?thesis using h s'(2) by (auto simp: history_def Let_def)
  qed
qed

lemma printed_after_round:
  "printed i (trace (after_round f p u s)) =
    printed i (trace s) @ (if t_id u = i then [printed_value f u] else [])"
  "reads (trace (after_round f p u s)) = reads (trace s)"
  by simp_all

text \<open>A round whose computation leaves the thread as it is after \<open>k + 1\<close> rounds.\<close>

lemma history_after_round:
  assumes inv: "threads_ok (heap s)" and p: "heap s p = Some t" "fst (environment t) = f"
    and u: "t_id u = func_id f" "fst (environment u) = f"
    and ps: "k = length (printed (func_id f) (trace s))"
    and rs: "f = Max_subarray \<Longrightarrow> length (reads (trace s)) = Suc k"
    and lines: "lines_ok f a (read_values b (reads (trace s))) (printed (func_id f) (trace s))"
    and run: "running f a k"
    and round: "thread_at f a b (reads (trace s)) (Suc k) (u\<lparr>environment := (f, After_yield)\<rparr>)"
      "loop_ends f u \<longleftrightarrow> round_ends f a (Suc k)"
      "counts f (Suc k) \<Longrightarrow> printed_value f u = round_value f a (read_values b (reads (trace s))) (Suc k)"
    and R: "RUNNING s = Some p"
  shows "history a b (after_round f p u s) f"
proof (rule history_thread_new [OF inv p heap_after_round(1)])
  show "lines_ok f a (read_values b (reads (trace (after_round f p u s))))
      (printed (func_id f) (trace (after_round f p u s)))"
    using lines_ok_snoc [OF lines, of "printed_value f u"] round(3) ps
    by (simp add: printed_after_round u(1))
  show "if exiting (after_round f p u s) p then ended f a (Suc k)
    else running f a (Suc k) \<and> thread_at f a b (reads (trace (after_round f p u s))) (Suc k)
      (if loop_ends f u then u else u\<lparr>environment := (f, After_yield)\<rparr>)"
    using run round(1,2) R ended_Suc
    by (auto simp: exiting_def heap_after_round printed_after_round running_Suc)
qed (use ps rs u in \<open>simp_all add: printed_after_round\<close>)

lemma history_thread:
  assumes inv: "threads_ok (heap s)" and st: "thread_step p t s s'" and h: "history a b s f"
  shows "history a b s' f"
proof -
  obtain f0 r where e: "environment t = (f0, r)" by (cases "environment t")
  have R: "RUNNING s = Some p" and p: "heap s p = Some t" and pc: "pc s \<noteq> Sched 3"
    using st by (simp_all add: thread_step_def)
  have id: "t_id t = func_id f0" using inv p e unfolding threads_ok_def by fastforce
  have ex: "\<not> exiting s q" for q using pc by (simp add: exiting_def)
  let ?rs = "reads (trace s)" and ?ps = "printed (func_id f) (trace s)"
  show ?thesis
  proof (cases "f = f0")
    case False
    then have nid: "func_id f \<noteq> func_id f0" by simp
    obtain u where "heap s' = (heap s)(p \<mapsto> u)" "fst (environment u) = f0" "RUNNING s' = Some p"
      "printed (func_id f) (trace s') = ?ps" "f = Max_subarray \<longrightarrow> reads (trace s') = ?rs"
      using st False nid id e R
      by (auto simp: thread_step_def heap_after_round printed_after_round after_request_def after_input_def
          simp del: loop_body.simps func_id_inject split: if_splits)
    then show ?thesis
      using False e ex by (intro history_other [OF h p]) (auto simp: exiting_def)
  next
    case True
    have at: "thread_at f a b ?rs (length ?ps) t" and run: "running f a (length ?ps)"
      and lines: "lines_ok f a (read_values b ?rs) ?ps"
      and len: "f = Max_subarray \<Longrightarrow> length ?rs = length ?ps"
      using h p e True ex by (auto simp: history_def Let_def)
    consider "f \<noteq> Max_subarray" | "f = Max_subarray" "r \<noteq> After_read" | "f = Max_subarray" "r = After_read"
      by blast
    then show ?thesis
    proof cases
      case 1
      let ?u = "loop_body f (next_i r t)"
      have s': "s' = after_round f p ?u s" using st e True 1 by (simp add: thread_step_def)
      have round: "thread_at f a b ?rs (Suc (length ?ps)) (?u\<lparr>environment := (f, After_yield)\<rparr>)"
        "loop_ends f ?u \<longleftrightarrow> round_ends f a (Suc (length ?ps))"
        "counts f (Suc (length ?ps)) \<Longrightarrow> printed_value f ?u = round_value f a (read_values b ?rs) (Suc (length ?ps))"
        using plain_round [OF at 1] e True by simp_all
      show ?thesis unfolding s'
        by (rule history_after_round [OF inv p _ _ _ refl _ lines run round R]) (use e True id 1 in simp_all)
    next
      case 2
      then have s': "s' = after_request p (next_i r t) s" using st e True by (simp add: thread_step_def)
      show ?thesis
        by (rule history_thread_new [OF inv p,
              where t' = "(next_i r t)\<lparr>environment := (Max_subarray, After_read)\<rparr>" and k = "length ?ps"])
          (use e True 2 lines len run max_request [of a b ?rs "length ?ps" t] at
            in \<open>simp_all add: s' after_request_def exiting_def\<close>)
    next
      case 3
      then obtain bytes where s': "s' = after_round f p (loop_body f (t\<lparr>t_buf := buf_write bytes (t_buf t)\<rparr>))
          (after_input bytes (t_fd t) s)"
        using st e True by (auto simp: thread_step_def)
      let ?s1 = "after_input bytes (t_fd t) s" and ?u = "loop_body f (t\<lparr>t_buf := buf_write bytes (t_buf t)\<rparr>)"
      have s1: "heap ?s1 = heap s" "RUNNING ?s1 = RUNNING s" "reads (trace ?s1) = ?rs @ [bytes]"
        "printed i (trace ?s1) = printed i (trace s)" for i
        by (simp_all add: after_input_def)
      have at': "thread_at Max_subarray a b ?rs (length ?ps) t" "snd (environment t) = After_read"
        using at e 3 by simp_all
      show ?thesis unfolding s'
      proof (rule history_after_round [where t = t and k = "length ?ps"])
        show "lines_ok f a (read_values b (reads (trace ?s1))) (printed (func_id f) (trace ?s1))"
          unfolding s1 using lines len 3(1) read_values_snoc lines_ok_more_reads by simp
      qed (use inv p s1 e True id 3 len run R max_round [OF at', of bytes] in \<open>simp_all del: loop_body.simps\<close>)
    qed
  qed
qed

lemma step_history:
  assumes inv: "sched_inv ro s" and pc: "pc s \<noteq> Returned" and h: "history a b s f"
  shows "history a b (step s) f"
proof -
  have ok: "threads_ok (heap s)" using inv by (auto simp: sched_inv_def sched_at_def)
  from inv pc show ?thesis
    by (rule step_kinds) (use h ok history_quiet history_thread history_free in blast)+
qed

section \<open>The alarm, the descriptors and the FIFO files\<close>

definition alarm_inv :: "threads \<Rightarrow> bool" where
  "alarm_inv s \<longleftrightarrow> timeslice s \<noteq> 0 \<longrightarrow> timer s \<or> SIGALRM \<in> pending s"

lemma run_pc_signals:
  assumes at: "sched_at ro s R W" and pc: "pc s \<noteq> Returned" and s': "run_pc s = Some s'"
  shows "timer s' = timer s" and "pending s' = pending s" and "timeslice s' = timeslice s"
proof -
  have "timer s' = timer s \<and> pending s' = pending s \<and> timeslice s' = timeslice s"
  proof (cases "pc s")
    case (At f r)
    have q: "queues s R W" and c: "rq_current s < length R" using at At by (simp_all add: sched_at_def)
    obtain p t where run: "RUNNING s = Some p" "heap s p = Some t" using running_thread [OF q c] by blast
    show ?thesis
      using s' At thread_code_round [OF run, of f r] thread_code_request [OF run, of r] thread_code_read [OF run]
      by (cases "f = Max_subarray"; cases "r = After_read")
        (auto simp: run_pc_def after_request_def after_input_def)
  next
    case (Sched tmp)
    show ?thesis
    proof (cases "tmp = 0")
      case True
      then show ?thesis using sched_at_first [OF at] Sched s' by (auto simp: run_pc_def)
    next
      case False
      obtain R' c' W' where spec: "sched_lists (thread_readable s) tmp (R, rq_current s, W) = (R', c', W')"
        by (metis prod_cases3)
      show ?thesis
        using sched_at_scheduler [OF at Sched False spec] Sched s' by (auto simp: run_pc_def sched_frame_def)
    qed
  next
    case Waiting
    then show ?thesis using sched_at_wait_round [OF at Waiting] s'
      by (auto simp: run_pc_def sched_frame_def)
  qed (use pc s' in \<open>auto simp: run_pc_def\<close>)
  then show "timer s' = timer s" and "pending s' = pending s" and "timeslice s' = timeslice s" by simp_all
qed

lemma step_alarm_inv:
  assumes inv: "sched_inv ro s" and pc: "pc s \<noteq> Returned" and h: "alarm_inv s"
  shows "alarm_inv (step s)" and "timeslice (step s) = timeslice s"
proof -
  obtain R W where at: "sched_at ro s R W" using inv by (auto simp: sched_inv_def)
  obtain s' where s': "run_pc s = Some s'" using run_pc_keeps_sched_inv [OF inv pc] by blast
  note sig = run_pc_signals [OF at pc s']
  show "alarm_inv (step s)" and "timeslice (step s) = timeslice s"
    using h s' sig by (auto simp: step_def alarm_inv_def split: option.splits)
qed

definition res_inv :: "threads \<Rightarrow> bool" where
  "res_inv s \<longleftrightarrow> {0, 1, 2} \<subseteq> set (open_fds s)
     \<and> (\<forall>d\<in>set (open_fds s). d \<in> {0, 1, 2} \<or> (\<exists>p t. heap s p = Some t \<and> \<not> exiting s p \<and> t_fd t = d))
     \<and> (\<forall>p t. heap s p = Some t \<longrightarrow> t_fd t \<notin> {0, 1, 2})
     \<and> (\<forall>n\<in>set (fifo_names s). \<exists>p t. heap s p = Some t \<and> \<not> exiting s p \<and> fifoname t = n)"

lemma res_inv_same:
  assumes "res_inv s" and "heap s' = heap s" and "open_fds s' = open_fds s" and "fifo_names s' = fifo_names s"
    and "\<And>p. exiting s' p = exiting s p"
  shows "res_inv s'"
  using assms unfolding res_inv_def by simp

lemma res_inv_free: "free_step p s s' \<Longrightarrow> res_inv s \<Longrightarrow> res_inv s'"
proof -
  assume st: "free_step p s s'" and r: "res_inv s"
  have s': "heap s' = (heap s)(p := None)" "exiting s p" "\<And>q. \<not> exiting s' q" "open_fds s' = open_fds s"
    "fifo_names s' = fifo_names s"
    using st by (auto simp: free_step_def exiting_def)
  have alive: "heap s' q = Some t \<and> \<not> exiting s' q" if "heap s q = Some t" "\<not> exiting s q" for q t
    using that s'(1-3) by (cases "q = p") auto
  have "\<forall>q t. heap s' q = Some t \<longrightarrow> t_fd t \<notin> {0, 1, 2}"
    using r s'(1) by (auto simp: res_inv_def split: if_splits)
  then show ?thesis using r alive unfolding res_inv_def s'(4,5) by meson
qed

lemma res_inv_update:
  assumes r: "res_inv s" and p: "heap s p = Some t" and ex: "\<And>q. \<not> exiting s q"
    and s': "heap s' = (heap s)(p \<mapsto> u)" "t_fd u = t_fd t" "fifoname u = fifoname t" "\<And>q. exiting s' q \<Longrightarrow> q = p"
    and keep: "\<not> exiting s' p \<Longrightarrow> open_fds s' = open_fds s \<and> fifo_names s' = fifo_names s"
    and exit: "exiting s' p \<Longrightarrow> open_fds s' = filter (\<lambda>d. d \<noteq> t_fd t) (open_fds s)
      \<and> fifo_names s' = filter (\<lambda>n. n \<noteq> fifoname t) (fifo_names s)"
  shows "res_inv s'"
proof -
  have fd: "t_fd t \<notin> {0, 1, 2}" using r p by (auto simp: res_inv_def)
  have alive: "\<exists>t'. heap s' q = Some t' \<and> t_fd t' = t_fd x \<and> fifoname t' = fifoname x" if "heap s q = Some x" for q x
    using that p s' by (cases "q = p") auto
  have fds: "\<forall>q t. heap s' q = Some t \<longrightarrow> t_fd t \<notin> {0, 1, 2}"
    using r fd s'(1,2) unfolding res_inv_def by (auto split: if_splits)
  show ?thesis
  proof (cases "exiting s' p")
    case False
    then have none: "\<not> exiting s' q" for q using s'(4) by blast
    show ?thesis using r keep [OF False] fds alive none ex unfolding res_inv_def by metis
  next
    case True
    have other: "\<exists>q t'. heap s' q = Some t' \<and> \<not> exiting s' q \<and> P t'"
      if "heap s q = Some x" "P x" "\<not> P t" for q x P
    proof -
      have "q \<noteq> p" using that p by auto
      then show ?thesis using that s'(1,4) by auto
    qed
    have "d \<in> {0, 1, 2} \<or> (\<exists>q t'. heap s' q = Some t' \<and> \<not> exiting s' q \<and> t_fd t' = d)"
      if d: "d \<in> set (open_fds s')" for d
    proof -
      have "d \<in> set (open_fds s)" "d \<noteq> t_fd t" using d exit [OF True] by auto
      then show ?thesis using r other [of _ _ "\<lambda>x. t_fd x = d"] unfolding res_inv_def by metis
    qed
    moreover have "\<exists>q t'. heap s' q = Some t' \<and> \<not> exiting s' q \<and> fifoname t' = n"
      if n: "n \<in> set (fifo_names s')" for n
    proof -
      have "n \<in> set (fifo_names s)" "n \<noteq> fifoname t" using n exit [OF True] by auto
      then show ?thesis using r other [of _ _ "\<lambda>x. fifoname x = n"] unfolding res_inv_def by metis
    qed
    moreover have "{0, 1, 2} \<subseteq> set (open_fds s')" using r fd exit [OF True] by (auto simp: res_inv_def)
    ultimately show ?thesis using fds unfolding res_inv_def by blast
  qed
qed

lemma res_inv_thread:
  assumes r: "res_inv s" and st: "thread_step p t s s'"
  shows "res_inv s'"
proof -
  have R: "RUNNING s = Some p" and p: "heap s p = Some t" and ex: "\<And>q. \<not> exiting s q"
    using st by (simp_all add: thread_step_def exiting_def)
  have round: "res_inv (after_round f p u s1)"
    if u: "t_fd u = t_fd t" "fifoname u = fifoname t"
      and s1: "heap s1 = heap s" "RUNNING s1 = Some p" "open_fds s1 = open_fds s" "fifo_names s1 = fifo_names s" for f u s1
    by (rule res_inv_update [OF r p ex, where u = "if loop_ends f u then u else u\<lparr>environment := (f, After_yield)\<rparr>"])
      (use u s1 in \<open>auto simp: heap_after_round exiting_def\<close>)
  obtain f rr where e: "environment t = (f, rr)" by (cases "environment t")
  consider u where "s' = after_round f p u s" "t_fd u = t_fd t" "fifoname u = fifoname t"
    | "s' = after_request p (next_i rr t) s"
    | bytes u where "s' = after_round f p u (after_input bytes (t_fd t) s)" "t_fd u = t_fd t" "fifoname u = fifoname t"
    using st e unfolding thread_step_def by (auto simp del: loop_body.simps split: if_splits)
  then show ?thesis
  proof cases
    case 1
    then show ?thesis using round R by simp
  next
    case 2
    show ?thesis unfolding 2
      by (rule res_inv_update [OF r p ex, where u = "(next_i rr t)\<lparr>environment := (Max_subarray, After_read)\<rparr>"])
        (simp_all add: after_request_def exiting_def)
  next
    case 3
    then show ?thesis using round [of u "after_input bytes (t_fd t) s"] R by (simp add: after_input_def)
  qed
qed

lemma step_res_inv:
  assumes inv: "sched_inv ro s" and pc: "pc s \<noteq> Returned" and h: "res_inv s"
  shows "res_inv (step s)"
  using inv pc
proof (rule step_kinds)
  assume "quiet_step s (step s)"
  then show ?thesis by (intro res_inv_same [OF h]) (simp_all add: quiet_step_def exiting_def)
qed (use h res_inv_thread res_inv_free in blast)+

section \<open>The start\<close>

text \<open>\<open>fs\<close> are the functions \<open>init_threads\<close> has looked at so far.\<close>

definition init_at :: "tcb \<Rightarrow> (func \<Rightarrow> cint) \<Rightarrow> func set \<Rightarrow> threads \<Rightarrow> bool" where
  "init_at raw arg fs s \<longleftrightarrow> (\<exists>R. queues s R [] \<and> (\<forall>p\<in>set R. p < brk s)) \<and> rq_current s = 0 \<and> trace s = []
     \<and> blocked s = base_mask \<and> pending s = {}
     \<and> (\<forall>p t. heap s p = Some t \<longrightarrow> (\<exists>f\<in>fs. environment t = (f, After_setup) \<and> t_id t = func_id f
          \<and> t_arg t = arg f \<and> t_buf t = t_buf raw \<and> 0 \<le> sint (arg f)))
     \<and> (\<forall>f\<in>fs. 0 \<le> sint (arg f) \<longrightarrow> (\<exists>p t. heap s p = Some t \<and> fst (environment t) = f))
     \<and> threads_ok (heap s) \<and> res_inv s"

lemma lowest_fd_fresh: "lowest_fd fds \<notin> set fds"
proof -
  let ?c = "filter (\<lambda>d. d \<notin> set fds) [0..<length fds + 1]"
  have "?c \<noteq> []"
  proof
    assume "?c = []"
    then have "{0..<length fds + 1} \<subseteq> set fds" by (auto simp: filter_empty_conv simp del: upt_Suc)
    then have "card {0..<length fds + 1} \<le> length fds"
      by (meson card_length card_mono finite_set le_trans)
    then show False by simp
  qed
  then have "hd ?c \<in> set ?c" by (rule hd_in_set)
  then show ?thesis unfolding lowest_fd_def set_filter by blast
qed

lemma thread_setup_init:
  assumes i: "init_at raw arg fs s" and f: "f \<notin> fs" and n: "rq_size s < THREAD_MAX" and pc: "pc s = Sched 0"
    and a: "0 \<le> sint (arg f)"
  shows "\<exists>s'. thread_setup raw f (func_id f) (arg f) s = Some s' \<and> init_at raw arg (insert f fs) s'
    \<and> rq_size s' = rq_size s + 1 \<and> pc s' = Sched 0 \<and> timeslice s' = timeslice s"
proof -
  obtain R where q: "queues s R []" and R: "\<forall>p\<in>set R. p < brk s" using i by (auto simp: init_at_def)
  have dom: "dom (heap s) = set R" and rep: "queue_rep (ready_queue s) (rq_size s) R"
    and len: "rq_size s = length R" using q queues_sizes [OF q] by (simp_all add: queues_def)
  obtain rq where rq: "queue_put (ready_queue s) (rq_size s) (Some (brk s)) = Some rq"
    "queue_rep rq (rq_size s + 1) (R @ [brk s])" using tcb_queue.put_end [OF rep n] by blast
  let ?fd = "lowest_fd (open_fds s)" and ?name = "fmt_d (func_id f) @ ''_'' @ func_name f"
  let ?t = "raw\<lparr>t_id := func_id f, t_arg := arg f, fifoname := ?name, t_fd := ?fd, environment := (f, After_setup)\<rparr>"
  let ?s = "s\<lparr>ready_queue := rq, rq_size := rq_size s + 1, heap := (heap s)(brk s \<mapsto> ?t), brk := brk s + 1,
    open_fds := ?fd # open_fds s, fifo_names := List.insert ?name (fifo_names s)\<rparr>"
  have new: "brk s \<notin> set R" "heap s (brk s) = None" using R dom by auto
  have run: "thread_setup raw f (func_id f) (arg f) s = Some ?s"
    using rq(1) by (simp add: thread_setup_def Let_def)
  have queues: "queues ?s (R @ [brk s]) []"
    using q rq(2) new dom len n by (auto simp: queues_def)
  have thr: "threads_ok (heap ?s)"
  proof -
    have ok: "threads_ok (heap s)" and fresh: "\<And>p t. heap s p = Some t \<Longrightarrow> fst (environment t) \<noteq> f"
      using i f unfolding init_at_def by force+
    show ?thesis
      using ok fresh unfolding threads_ok_def by (auto split: if_splits)
  qed
  have res: "res_inv ?s"
  proof -
    have r: "res_inv s" using i by (simp add: init_at_def)
    have ex: "\<not> exiting ?s p" "\<not> exiting s p" for p using pc by (simp_all add: exiting_def)
    have fd: "?fd \<notin> {0, 1, 2}" using lowest_fd_fresh [of "open_fds s"] r unfolding res_inv_def by blast
    have keep: "heap ?s p = Some t" if "heap s p = Some t" for p t using that new by auto
    have at: "heap ?s (brk s) = Some ?t" by simp
    have "\<exists>p t. heap ?s p = Some t \<and> t_fd t = d" if d: "d \<in> set (open_fds ?s)" "d \<notin> {0, 1, 2}" for d
    proof (cases "d = ?fd")
      case True
      then show ?thesis using at by (intro exI [of _ "brk s"] exI [of _ ?t]) simp
    next
      case False
      then have "d \<in> set (open_fds s)" using d by simp
      then obtain p t where "heap s p = Some t" "t_fd t = d" using r d unfolding res_inv_def by blast
      then show ?thesis using keep by blast
    qed
    moreover have "\<exists>p t. heap ?s p = Some t \<and> fifoname t = m" if m: "m \<in> set (fifo_names ?s)" for m
    proof (cases "m = ?name")
      case True
      then show ?thesis using at by (intro exI [of _ "brk s"] exI [of _ ?t]) simp
    next
      case False
      then have "m \<in> set (fifo_names s)" using m by simp
      then obtain p t where "heap s p = Some t" "fifoname t = m" using r unfolding res_inv_def by blast
      then show ?thesis using keep by blast
    qed
    moreover have "t_fd t \<notin> {0, 1, 2}" if "heap ?s p = Some t" for p t
      using that r fd unfolding res_inv_def by (auto split: if_splits)
    moreover have "{0, 1, 2} \<subseteq> set (open_fds ?s)" using r by (auto simp: res_inv_def)
    ultimately show ?thesis using ex unfolding res_inv_def by metis
  qed
  have alive: "\<exists>p t. heap ?s p = Some t \<and> fst (environment t) = g"
    if g: "g \<in> insert f fs" "0 \<le> sint (arg g)" for g
  proof (cases "g = f")
    case True
    then show ?thesis by (intro exI [of _ "brk s"] exI [of _ ?t]) simp
  next
    case False
    then obtain p t where "heap s p = Some t" "fst (environment t) = g"
      using g i unfolding init_at_def by blast
    then show ?thesis using new by (intro exI [of _ p] exI [of _ t]) auto
  qed
  have heap: "\<exists>g\<in>insert f fs. environment t = (g, After_setup) \<and> t_id t = func_id g
      \<and> t_arg t = arg g \<and> t_buf t = t_buf raw \<and> 0 \<le> sint (arg g)" if "heap ?s p = Some t" for p t
  proof (cases "p = brk s")
    case False
    then have "heap s p = Some t" using that by simp
    then show ?thesis using i unfolding init_at_def by blast
  qed (use that a in auto)
  have "\<forall>p\<in>set (R @ [brk s]). p < brk ?s" using R by auto
  with queues have "\<exists>R. queues ?s R [] \<and> (\<forall>p\<in>set R. p < brk ?s)" by blast
  moreover have "rq_current ?s = 0" "trace ?s = []" "blocked ?s = base_mask" "pending ?s = {}"
    using i by (simp_all add: init_at_def)
  ultimately have "init_at raw arg (insert f fs) ?s"
    unfolding init_at_def using thr res alive heap by blast
  with run pc show ?thesis by simp
qed

definition start_arg :: "string list \<Rightarrow> func \<Rightarrow> cint" where
  "start_arg argv f = atoi (argv ! (case f of Fibonacci \<Rightarrow> 2 | Collatz \<Rightarrow> 3 | Max_subarray \<Rightarrow> 4))"

lemma start_arg_func:
  "start_arg argv Fibonacci = atoi (argv ! 2)" "start_arg argv Collatz = atoi (argv ! 3)"
  "start_arg argv Max_subarray = atoi (argv ! 4)"
  by (simp_all add: start_arg_def)

lemma maybe_setup_init:
  assumes i: "init_at raw arg fs s" and f: "f \<notin> fs" and n: "rq_size s < THREAD_MAX" and pc: "pc s = Sched 0"
  shows "\<exists>s'. (if c_le 0 (arg f) then thread_setup raw f (func_id f) (arg f) s else Some s) = Some s'
    \<and> init_at raw arg (insert f fs) s' \<and> rq_size s' \<le> rq_size s + 1 \<and> pc s' = Sched 0
    \<and> timeslice s' = timeslice s"
proof (cases "0 \<le> sint (arg f)")
  case True
  then show ?thesis using thread_setup_init [OF i f n pc True] by (auto simp: c_le_def)
next
  case False
  then have "init_at raw arg (insert f fs) s" using i unfolding init_at_def by blast
  then show ?thesis using False pc by (simp add: c_le_def)
qed

lemma globals_init: "init_at raw arg {} (init_signal (globals ts))"
proof -
  have "queues (init_signal (globals ts)) [] []"
    by (simp add: queues_def queue_rep_def init_signal_def globals_def)
  moreover have "res_inv (init_signal (globals ts))"
    by (simp add: res_inv_def init_signal_def globals_def)
  ultimately show ?thesis
    by (auto simp: init_at_def init_signal_def globals_def threads_ok_def)
qed

lemma main_init:
  assumes "length argv = 5"
  shows "\<exists>s s'. main raw argv = Some s' \<and> s' = start_threading s \<and> init_at raw (start_arg argv) UNIV s
    \<and> pc s = Sched 0 \<and> timeslice s = atoi (argv ! 1)"
proof -
  let ?s0 = "init_signal (globals (atoi (argv ! 1)))" and ?a = "start_arg argv"
  have s0: "rq_size ?s0 = 0" "pc ?s0 = Sched 0" "timeslice ?s0 = atoi (argv ! 1)"
    by (simp_all add: init_signal_def globals_def)
  obtain s1 where s1: "(if c_le 0 (?a Fibonacci) then thread_setup raw Fibonacci 0 (?a Fibonacci) ?s0 else Some ?s0) = Some s1"
    "init_at raw ?a {Fibonacci} s1" "rq_size s1 \<le> 1" "pc s1 = Sched 0" "timeslice s1 = timeslice ?s0"
    using maybe_setup_init [OF globals_init [of raw ?a "atoi (argv ! 1)"], of Fibonacci, unfolded func_id.simps] s0 by (auto simp: THREAD_MAX_def)
  obtain s2 where s2: "(if c_le 0 (?a Collatz) then thread_setup raw Collatz 1 (?a Collatz) s1 else Some s1) = Some s2"
    "init_at raw ?a {Collatz, Fibonacci} s2" "rq_size s2 \<le> rq_size s1 + 1" "pc s2 = Sched 0" "timeslice s2 = timeslice s1"
    using maybe_setup_init [OF s1(2), of Collatz, unfolded func_id.simps] s1 by (auto simp: THREAD_MAX_def)
  obtain s3 where s3: "(if c_le 0 (?a Max_subarray) then thread_setup raw Max_subarray 2 (?a Max_subarray) s2 else Some s2) = Some s3"
    "init_at raw ?a {Max_subarray, Collatz, Fibonacci} s3" "pc s3 = Sched 0" "timeslice s3 = timeslice s2"
    using maybe_setup_init [OF s2(2), of Max_subarray, unfolded func_id.simps] s1 s2 by (auto simp: THREAD_MAX_def)
  have "{Max_subarray, Collatz, Fibonacci} = UNIV" using func.exhaust by blast
  then have "init_at raw ?a UNIV s3" using s3(2) by simp
  moreover have "main raw argv = Some (start_threading s3)"
    using assms s1(1) s2(1) s3(1) unfolding main_def init_threads_def start_arg_func by simp
  ultimately show ?thesis using s3 s2 s1 s0 by auto
qed

text \<open>With no thread at all \<open>ready_queue[0]\<close> is \<open>NULL\<close>; otherwise the invariants hold.\<close>

lemma init_invariants:
  assumes i: "init_at raw arg UNIV s" and pc: "pc s = Sched 0" and some: "\<exists>f. 0 \<le> sint (arg f)"
  defines "s' \<equiv> start_threading s"
  shows "sched_inv ro s'" and "alarm_inv s'" and "res_inv s'" and "history (arg f) (t_buf raw) s' f"
proof -
  obtain R where q: "queues s R []" using i by (auto simp: init_at_def)
  obtain p t where "heap s p = Some t" using some i unfolding init_at_def by blast
  then have "R \<noteq> []" using q by (auto simp: queues_def dom_def)
  have s': "heap s' = heap s" "trace s' = []" "rq_current s' = 0" "blocked s' = base_mask" "pc s' = Sched 0"
    "open_fds s' = open_fds s" "fifo_names s' = fifo_names s" and q': "queues s' R []"
    using i q by (simp_all add: s'_def start_threading_def init_at_def queues_def)
  have envs: "\<And>p t. heap s p = Some t \<Longrightarrow> snd (environment t) = After_setup"
    using i unfolding init_at_def by fastforce
  then have "read_ready ro s' R"
    unfolding read_ready_def env_of_def s' using queues_heap [OF q] by fastforce
  then have "sched_at ro s' R []"
    using q' s' i \<open>R \<noteq> []\<close> by (simp add: sched_at_def mask_of_def init_at_def)
  then show "sched_inv ro s'" by (auto simp: sched_inv_def)
  show "alarm_inv s'" by (simp add: alarm_inv_def s'_def start_threading_def)
  have ex: "\<not> exiting s' p" "\<not> exiting s p" for p using s' pc by (simp_all add: exiting_def)
  show "res_inv s'" by (rule res_inv_same [of s]) (use i s' ex in \<open>simp_all add: init_at_def\<close>)
  have th: "thread_at f (arg f) (t_buf raw) [] 0 t" if "heap s p = Some t" "fst (environment t) = f" for p t
  proof -
    have "environment t = (f, After_setup)" "t_arg t = arg f" "t_buf t = t_buf raw"
      using that i unfolding init_at_def by fastforce+
    then show ?thesis by (cases f) (simp_all add: thread_at_def buf_after_def)
  qed
  have dead: "sint (arg f) < 0" if "\<forall>p t. heap s p = Some t \<longrightarrow> fst (environment t) \<noteq> f"
    using that i unfolding init_at_def by (metis UNIV_I not_less)
  show "history (arg f) (t_buf raw) s' f"
    unfolding history_def Let_def s' using th dead ex by (simp add: lines_ok_def running_def)
qed

end
