(* ===== verification/Thread_Props.thy ===== *)
theory Thread_Props
  imports Thread_Inv
begin

text \<open>
  What thread-library guarantees, for every interleaving of the process with
  the terminal, the alarm and the writers of the FIFOs: it never leaves its
  arrays or follows a null pointer, each thread prints what it would print
  alone, the mask and the alarm are as the scheduler needs them, and when
  \<open>main\<close> returns nothing is left behind. Each property is followed by a
  witness on a concrete command line.
\<close>

section \<open>Runs\<close>

definition all_inv :: "bool \<Rightarrow> (func \<Rightarrow> cint) \<Rightarrow> string \<Rightarrow> threads \<Rightarrow> bool" where
  "all_inv ro arg b s \<longleftrightarrow> sched_inv ro s \<and> alarm_inv s \<and> res_inv s \<and> (\<forall>f. history (arg f) b s f)"

lemma history_same:
  assumes "history a b s f" and "heap s' = heap s" and "trace s' = trace s" and "\<And>p. exiting s' p = exiting s p"
  shows "history a b s' f"
  using assms by (simp add: history_def)

lemma all_inv_step: "all_inv ro arg b s \<Longrightarrow> pc s \<noteq> Returned \<Longrightarrow> all_inv ro arg b (step s)"
  unfolding all_inv_def
  using step_keeps_sched_inv step_alarm_inv(1) step_res_inv step_history by blast

lemma all_inv_environment:
  assumes "all_inv ro arg b s" and "tstep ro s s'" and "heap s' = heap s" and "trace s' = trace s"
    and "pc s' = pc s" and "RUNNING s' = RUNNING s" and "open_fds s' = open_fds s" and "fifo_names s' = fifo_names s"
    and "alarm_inv s \<Longrightarrow> alarm_inv s'"
  shows "all_inv ro arg b s'"
proof -
  have ex: "exiting s' p = exiting s p" for p using assms by (simp add: exiting_def)
  show ?thesis
    using assms ex tstep_keeps_sched_inv [OF assms(2)] res_inv_same [of s s'] history_same [of _ b s _ s']
    unfolding all_inv_def by blast
qed

lemma all_inv_tstep:
  assumes "tstep ro s s'" and "all_inv ro arg b s"
  shows "all_inv ro arg b s'"
  using assms
proof (cases rule: tstep.cases)
  case Run
  then show ?thesis using all_inv_step assms by simp
qed (rule all_inv_environment [OF assms(2,1)]; simp add: alarm_inv_def)+

lemma all_inv_run: "run_from ro s0 s \<Longrightarrow> all_inv ro arg b s0 \<Longrightarrow> all_inv ro arg b s"
  by (induction rule: run_from.induct) (auto intro: all_inv_tstep)

text \<open>A command line that starts at least one thread.\<close>

definition starts :: "tcb \<Rightarrow> string list \<Rightarrow> threads \<Rightarrow> bool" where
  "starts raw argv s0 \<longleftrightarrow> main raw argv = Some s0 \<and> (\<exists>f. 0 \<le> sint (start_arg argv f))"

lemma starts_all_inv:
  assumes "starts raw argv s0"
  shows "all_inv ro (start_arg argv) (t_buf raw) s0"
proof -
  have "length argv = 5" using assms by (auto simp: starts_def main_def split: if_splits)
  from main_init [OF this, of raw] assms obtain s where
    s: "s0 = start_threading s" "init_at raw (start_arg argv) UNIV s" "pc s = Sched 0"
    by (auto simp: starts_def)
  have "\<exists>f. 0 \<le> sint (start_arg argv f)" using assms by (simp add: starts_def)
  from init_invariants [OF s(2,3) this] show ?thesis by (simp add: all_inv_def s(1))
qed

lemmas run_all_inv = all_inv_run [OF _ starts_all_inv]

lemma run_timeslice:
  assumes "starts raw argv s0" and "run_from ro s0 s"
  shows "timeslice s = atoi (argv ! 1)"
  using assms(2)
proof induction
  case Start
  have "length argv = 5" using assms(1) by (auto simp: starts_def main_def split: if_splits)
  from main_init [OF this, of raw] assms(1) show ?case by (auto simp: starts_def start_threading_def)
next
  case (Step s s')
  have inv: "sched_inv ro s" "alarm_inv s"
    using run_all_inv [OF Step.hyps(1) assms(1)] by (simp_all add: all_inv_def)
  from Step.hyps(2) show ?case
    by cases (use Step.IH inv step_alarm_inv(2) in auto)
qed

lemma map_nth_upt:
  assumes "\<And>j. j < length ps \<Longrightarrow> ps ! j = g (Suc j)"
  shows "ps = map g [1..<Suc (length ps)]"
  using assms by (intro nth_equalityI) (simp_all del: upt_Suc)

text \<open>The lines of one thread at any moment of a run.\<close>

lemma run_lines:
  fixes s
  assumes st: "starts raw argv s0" and run: "run_from ro s0 s" and a: "0 \<le> sint (start_arg argv f)"
  defines "ps \<equiv> printed (func_id f) (trace s)" and "a \<equiv> start_arg argv f"
    and "vs \<equiv> read_values (t_buf raw) (reads (trace s))"
  shows "lines_ok f a vs ps"
    and "running f a (length ps) \<or> ended f a (length ps)"
    and "pc s = Returned \<Longrightarrow> ended f a (length ps)"
    and "f = Max_subarray \<Longrightarrow> length (reads (trace s)) = length ps"
proof -
  have inv: "history a (t_buf raw) s f" "sched_inv ro s"
    using run_all_inv [OF run st] by (simp_all add: all_inv_def a_def)
  show "lines_ok f a vs ps" "f = Max_subarray \<Longrightarrow> length (reads (trace s)) = length ps"
    using inv(1) by (simp_all add: history_def Let_def ps_def vs_def)
  have dead: "ended f a (length ps)" if "\<forall>p t. heap s p = Some t \<longrightarrow> fst (environment t) \<noteq> f"
    using inv(1) a that by (auto simp: history_def Let_def ps_def a_def)
  show "running f a (length ps) \<or> ended f a (length ps)"
    using inv(1) dead unfolding history_def Let_def ps_def [symmetric] by metis
  show "pc s = Returned \<Longrightarrow> ended f a (length ps)"
    using inv(2) dead by (auto simp: sched_inv_def sched_at_def queues_def dom_def)
qed

lemma round_ends_bound:
  assumes "f \<noteq> Collatz" and "0 < sint a"
  shows "ended f a (nat (sint a))"
proof -
  have lt: "nat (sint a) < 2 ^ 31" using int_fits_sint [of a] assms(2) by (simp add: int_fits_def)
  have no: "\<not> round_ends f a j" if "j < nat (sint a)" for j
  proof
    assume "round_ends f a j"
    then have "word_of_nat j = a" using assms(1) by (cases f) simp_all
    then have "sint a = int j" using sint_of_nat [of j] that lt by auto
    then show False using that by simp
  qed
  have "round_ends f a (nat (sint a))"
    using assms by (cases f) (simp_all add: word_of_int_nat)
  then show ?thesis using assms(2) no by (auto simp: ended_def running_def)
qed

text \<open>The test first holds at one round only.\<close>

lemma running_before_ended: "running f a k \<Longrightarrow> ended f a n \<Longrightarrow> k < n"
  by (rule ccontr) (auto simp: running_def ended_def)

lemma ended_unique: "ended f a k \<Longrightarrow> ended f a n \<Longrightarrow> k = n"
  by (rule linorder_cases [of k n]) (auto simp: ended_def running_def)

lemma run_lines_count:
  assumes "starts raw argv s0" and "run_from ro s0 s" and "0 \<le> sint (start_arg argv f)"
    and "ended f (start_arg argv f) n"
  shows "length (printed (func_id f) (trace s)) \<le> n"
    and "pc s = Returned \<Longrightarrow> length (printed (func_id f) (trace s)) = n"
proof -
  let ?a = "start_arg argv f" and ?k = "length (printed (func_id f) (trace s))"
  from run_lines(2) [OF assms(1-3)] show "?k \<le> n"
  proof
    assume "running f ?a ?k"
    from running_before_ended [OF this assms(4)] show ?thesis by simp
  next
    assume "ended f ?a ?k"
    from ended_unique [OF this assms(4)] show ?thesis by simp
  qed
  show "pc s = Returned \<Longrightarrow> ?k = n"
    by (rule ended_unique [OF run_lines(3) [OF assms(1-3)] assms(4)])
qed

section \<open>Runs to look at\<close>

definition demo_raw :: tcb where
  "demo_raw = \<lparr>t_id = 0, environment = (Fibonacci, After_setup), t_arg = 0, t_fd = 0, t_buf = [],
     fifoname = [], t_i = 0, t_x = 0, t_y = 0\<rparr>"

text \<open>\<open>./main 3 2 2 -1\<close>: the Fibonacci and the Collatz thread.\<close>

definition demo_argv :: "string list" where
  "demo_argv = [''main'', ''3'', ''2'', ''2'', ''-1'']"

lemmas sched_eval = init_threads_def thread_setup_def init_signal_def start_threading_def globals_def
  THREAD_MAX_def queue_put_def queue_get_def lowest_fd_def c_le_def c_less_def Let_def

lemmas step_eval = step_def deliverable_def run_pc_def scheduler_def longjmp_env_def deref_def
  set_running_def RUNNING_def compute_def thread_exit_def thread_yield_def next_i_def fib_body_def
  collatz_body_def poll_waiting_def waiting_fds_def leave_queue_def fill_hole_def free_tcb_def
  choose_next_def dispatch_def base_mask_def tstp_mask_def alrm_mask_def

definition demo_start :: threads where
  "demo_start = the (main demo_raw demo_argv)"

lemma demo_starts: "starts demo_raw demo_argv demo_start"
proof -
  obtain s where "main demo_raw demo_argv = Some s"
    using main_init [of demo_argv demo_raw] by (auto simp: demo_argv_def)
  moreover have "start_arg demo_argv Fibonacci = 2"
    by (simp add: start_arg_def demo_argv_def string_eval)
  ultimately show ?thesis unfolding starts_def demo_start_def by (auto intro: exI [of _ Fibonacci])
qed

lemma demo_start_eq:
  "demo_start = \<lparr>ready_queue = [Some 0, Some 1, None, None, None, None, None, None, None, None, None,
         None, None, None, None, None], waiting_queue = replicate 16 None,
     rq_size = 2, rq_current = 0, wq_size = 0,
     heap = [0 \<mapsto> demo_raw\<lparr>t_arg := 2, t_fd := 3, fifoname := fmt_d 0 @ ''_fibonacci''\<rparr>,
       1 \<mapsto> demo_raw\<lparr>t_id := 1, environment := (Collatz, After_setup), t_arg := 2, t_fd := 4,
         fifoname := fmt_d 1 @ ''_collatz''\<rparr>],
     brk = 2, timeslice = 3, blocked = base_mask, pending = {}, timer = (3 \<noteq> (0 :: cint)),
     fifos = (\<lambda>_. \<lparr>f_data = [], f_hup = False\<rparr>), open_fds = [4, 3, 0, 1, 2],
     fifo_names = [fmt_d 1 @ ''_collatz'', fmt_d 0 @ ''_fibonacci''], trace = [], pc = Sched 0\<rparr>"
  by (simp add: demo_start_def main_def demo_argv_def string_eval sched_eval demo_raw_def numeral_nat)

text \<open>Running on without signals.\<close>

lemma step_Returned:
  assumes "sched_inv ro s" and "pc s = Returned"
  shows "step s = s"
proof -
  have "deliverable s = None"
    using assms by (auto simp: sched_inv_def sched_at_def mask_of_def deliverable_def base_mask_def)
  then show ?thesis by (simp add: step_def run_pc_def assms(2))
qed

lemma run_from_trans: "run_from ro s1 s2 \<Longrightarrow> run_from ro s0 s1 \<Longrightarrow> run_from ro s0 s2"
  by (induction rule: run_from.induct) (auto intro: run_from.Step)

lemma run_from_steps:
  assumes "all_inv ro arg b s"
  shows "run_from ro s ((step ^^ n) s)"
proof (induction n)
  case (Suc n)
  let ?s = "(step ^^ n) s"
  have inv: "sched_inv ro ?s" using all_inv_run [OF Suc assms] by (simp add: all_inv_def)
  then have "pc ?s \<noteq> Crashed" by (auto simp: sched_inv_def sched_at_def)
  then show ?case
    using Suc step_Returned [OF inv] tstep.Run [of ?s ro] run_from.Step
    by (cases "pc ?s = Returned") auto
qed (simp add: run_from.Start)

definition demo_end :: threads where
  "demo_end = (step ^^ 8) demo_start"

lemma demo_run: "run_from ro demo_start demo_end"
  unfolding demo_end_def by (rule run_from_steps [OF starts_all_inv [OF demo_starts]])

lemma funpow_8: "(g ^^ 8) x = g (g (g (g (g (g (g (g x)))))))"
  by (simp add: numeral_eq_Suc)

lemma demo_end_facts:
  "trace demo_end = [Printed 0 1, Printed 0 1, Printed 1 1]" "pc demo_end = Returned"
  "open_fds demo_end = [0, 1, 2]" "fifo_names demo_end = []" "heap demo_end = (\<lambda>_. None)"
  by (simp_all add: demo_end_def funpow_8 demo_start_eq step_eval sched_eval demo_raw_def c_mod_def c_div_def fun_eq_iff)

text \<open>\<open>./main 0 -1 -1 1\<close> with a line written to the FIFO of \<open>max_subarray\<close>.\<close>

definition reader_argv :: "string list" where
  "reader_argv = [''main'', ''0'', ''-1'', ''-1'', ''1'']"

definition reader_start :: threads where
  "reader_start = the (main demo_raw reader_argv)"

definition reader_line :: string where
  "reader_line = replicate 2 CHR '' '' @ fmt_d 42 @ [LF]"

definition reader_fed :: threads where
  "reader_fed = reader_start\<lparr>fifos := (fifos reader_start)(3 := (fifos reader_start 3)\<lparr>
     f_data := f_data (fifos reader_start 3) @ reader_line\<rparr>)\<rparr>"

definition reader_at :: "nat \<Rightarrow> threads" where
  "reader_at n = (step ^^ n) reader_fed"

lemma reader_starts: "starts demo_raw reader_argv reader_start"
proof -
  obtain s where "main demo_raw reader_argv = Some s"
    using main_init [of reader_argv demo_raw] by (auto simp: reader_argv_def)
  moreover have "start_arg reader_argv Max_subarray = 1"
    by (simp add: start_arg_def reader_argv_def string_eval)
  ultimately show ?thesis unfolding starts_def reader_start_def by (auto intro: exI [of _ Max_subarray])
qed

lemma reader_run: "run_from ro reader_start (reader_at n)"
proof -
  have "tstep ro reader_start reader_fed" unfolding reader_fed_def by (rule tstep.Data)
  then have fed: "run_from ro reader_start reader_fed" by (rule run_from.Step [OF run_from.Start])
  show ?thesis
    unfolding reader_at_def
    using run_from_trans [OF run_from_steps [OF run_all_inv [OF fed reader_starts]] fed] .
qed

lemma reader_start_eq:
  "reader_start = \<lparr>ready_queue = [Some 0, None, None, None, None, None, None, None, None, None, None,
         None, None, None, None, None], waiting_queue = [None, None, None, None, None, None, None, None, None, None, None,
         None, None, None, None, None],
     rq_size = 1, rq_current = 0, wq_size = 0,
     heap = [0 \<mapsto> demo_raw\<lparr>t_id := 2, environment := (Max_subarray, After_setup), t_arg := 1, t_fd := 3,
         fifoname := fmt_d 2 @ ''_max_subarray''\<rparr>],
     brk = 1, timeslice = 0, blocked = base_mask, pending = {}, timer = False,
     fifos = (\<lambda>_. \<lparr>f_data = [], f_hup = False\<rparr>), open_fds = [3, 0, 1, 2],
     fifo_names = [fmt_d 2 @ ''_max_subarray''], trace = [], pc = Sched 0\<rparr>"
  by (simp add: reader_start_def main_def reader_argv_def string_eval sched_eval demo_raw_def numeral_nat)

lemma reader_line_eq: "reader_line = ''  42'' @ [LF]"
  by (simp add: reader_line_def fmt_eval numeral_2_eq_2)

lemmas reader_eval = step_eval sched_eval demo_raw_def reader_fed_def reader_start_eq reader_line_eq
  set_running_def async_read_def read_fifo_def wait_round_def take_ready_def readable_def buf_write_def max_body_def
  string_eval

lemma funpow_6: "(g ^^ 6) x = g (g (g (g (g (g x)))))" and funpow_4: "(g ^^ 4) x = g (g (g (g x)))"
  by (simp_all add: numeral_eq_Suc)

lemma reader_end_facts:
  "trace (reader_at 6) = [Did_read reader_line, Printed 2 42]" "pc (reader_at 6) = Returned"
  by (simp_all add: reader_at_def funpow_6 reader_eval)

lemma reader_mid_facts: "pc (reader_at 4) = At Max_subarray After_read"
  by (simp add: reader_at_def funpow_4 reader_eval)

section \<open>Termination of the computing threads\<close>

text \<open>\<open>run_count ro s0 n s\<close>: the run took \<open>n\<close> steps of the process itself.\<close>

inductive run_count :: "bool \<Rightarrow> threads \<Rightarrow> nat \<Rightarrow> threads \<Rightarrow> bool" for reopen s0 where
  Start: "run_count reopen s0 0 s0"
| Process: "run_count reopen s0 n s \<Longrightarrow> pc s \<noteq> Returned \<Longrightarrow> run_count reopen s0 (Suc n) (step s)"
| Environment: "run_count reopen s0 n s \<Longrightarrow> tstep reopen s s' \<Longrightarrow> heap s' = heap s \<Longrightarrow> trace s' = trace s
    \<Longrightarrow> pc s' = pc s \<Longrightarrow> run_count reopen s0 n s'"

text \<open>
  The work left: four steps for each round to come, and what is left of the
  switch under way.
\<close>

definition pc_work :: "pc \<Rightarrow> nat" where
  "pc_work l = (case l of Yield_tstp _ \<Rightarrow> 3 | Yield_alrm _ \<Rightarrow> 2 | Sched _ \<Rightarrow> 1 | _ \<Rightarrow> 0)"

definition rounds_left :: "(func \<Rightarrow> nat) \<Rightarrow> event list \<Rightarrow> nat" where
  "rounds_left n tr = (n Fibonacci - length (printed 0 tr)) + (n Collatz - length (printed 1 tr))"

definition work :: "(func \<Rightarrow> nat) \<Rightarrow> threads \<Rightarrow> nat" where
  "work n s = 4 * rounds_left n (trace s) + pc_work (pc s)"

text \<open>No thread of a function ever appears after the start.\<close>

lemma step_funcs:
  assumes inv: "sched_inv ro s" and pc: "pc s \<noteq> Returned" and x: "heap (step s) q = Some x"
  shows "\<exists>y. heap s q = Some y \<and> fst (environment y) = fst (environment x) \<and> t_fd y = t_fd x"
  using inv pc
proof (rule step_kinds)
  fix p t assume st: "thread_step p t s (step s)"
  show ?thesis
    using st x by (cases "environment t")
      (auto simp: thread_step_def heap_after_round after_request_def after_input_def simp del: loop_body.simps
        split: if_splits)
qed (use x in \<open>auto simp: quiet_step_def free_step_def split: if_splits\<close>)

definition only_computing :: "threads \<Rightarrow> bool" where
  "only_computing s \<longleftrightarrow> (\<forall>p t. heap s p = Some t \<longrightarrow> fst (environment t) \<noteq> Max_subarray)"

lemma only_computing_step:
  "sched_inv ro s \<Longrightarrow> pc s \<noteq> Returned \<Longrightarrow> only_computing s \<Longrightarrow> only_computing (step s)"
  unfolding only_computing_def by (metis step_funcs)

lemma only_computing_pc:
  assumes at: "sched_at ro s R W" and o: "only_computing s"
  shows "pc s \<noteq> Waiting" and "pc s \<noteq> Sched 2"
proof -
  have q: "queues s R W" and W: "\<forall>p\<in>set W. env_of s p = (Max_subarray, After_read)"
    using at by (simp_all add: sched_at_def)
  have no: "env_of s p \<noteq> (Max_subarray, After_read)" if "p \<in> set R \<union> set W" for p
    using queues_heap [OF q that] o unfolding only_computing_def env_of_def
    by (metis fst_conv option.sel)
  then have "W = []" using W by (cases W) auto
  then show "pc s \<noteq> Waiting" using at by (auto simp: sched_at_def)
  show "pc s \<noteq> Sched 2"
  proof
    assume "pc s = Sched 2"
    then have "rq_current s < length R" "env_of s (R ! rq_current s) = (Max_subarray, After_read)"
      using at by (simp_all add: sched_at_def)
    then show False using no [of "R ! rq_current s"] by simp
  qed
qed

lemma run_pc_work:
  assumes at: "sched_at ro s R W" and o: "only_computing s" and pc: "pc s \<noteq> Returned" and s': "run_pc s = Some s'"
    and left: "\<And>p t. heap s p = Some t \<Longrightarrow> \<not> exiting s p \<Longrightarrow>
      length (printed (func_id (fst (environment t))) (trace s)) < n (fst (environment t))"
  shows "work n s' < work n s"
proof (cases "pc s")
  case (At f r)
  have q: "queues s R W" and c: "rq_current s < length R" and e: "env_of s (R ! rq_current s) = (f, r)"
    and ok: "threads_ok (heap s)"
    using at At by (simp_all add: sched_at_def)
  obtain p t where run: "RUNNING s = Some p" "p = R ! rq_current s" "heap s p = Some t"
    using running_thread [OF q c] by blast
  have t: "environment t = (f, r)" and f: "f \<noteq> Max_subarray" and id: "t_id t = func_id f"
    using e run o ok unfolding env_of_def only_computing_def threads_ok_def by fastforce+
  have "\<not> exiting s p" using At by (simp add: exiting_def)
  with left [OF run(3)] t have lt: "length (printed (func_id f) (trace s)) < n f" by simp
  have "s' = after_round f p (loop_body f (next_i r t)) s"
    using s' At thread_code_round [OF run(1,3) f] by (simp add: run_pc_def)
  then show ?thesis
    using lt f id At
    by (cases f) (auto simp: work_def rounds_left_def pc_work_def heap_after_round simp del: loop_body.simps)
next
  case (Sched tmp)
  have "trace s' = trace s \<and> pc_work (pc s') = 0"
  proof (cases "tmp = 0")
    case True
    then show ?thesis using sched_at_first [OF at] Sched s' by (auto simp: run_pc_def pc_work_def)
  next
    case False
    obtain R' c' W' where spec: "sched_lists (thread_readable s) tmp (R, rq_current s, W) = (R', c', W')"
      by (metis prod_cases3)
    show ?thesis
      using sched_at_scheduler [OF at Sched False spec] Sched s'
      by (auto simp: run_pc_def pc_work_def sched_frame_def dispatched_def)
  qed
  then show ?thesis using Sched by (simp add: work_def pc_work_def)
qed (use s' pc only_computing_pc [OF at o] at in
    \<open>auto simp: run_pc_def work_def pc_work_def sched_at_def\<close>)

lemma step_work:
  assumes inv: "sched_inv ro s" and o: "only_computing s" and pc: "pc s \<noteq> Returned"
    and left: "\<And>p t. heap s p = Some t \<Longrightarrow> \<not> exiting s p \<Longrightarrow>
      length (printed (func_id (fst (environment t))) (trace s)) < n (fst (environment t))"
  shows "work n (step s) < work n s"
proof -
  obtain R W where at: "sched_at ro s R W" using inv by (auto simp: sched_inv_def)
  show ?thesis
  proof (cases "deliverable s")
    case None
    obtain s' where "run_pc s = Some s'" using run_pc_keeps_sched_inv [OF inv pc] by blast
    then show ?thesis using run_pc_work [OF at o pc _ left] None by (simp add: step_def)
  next
    case (Some x)
    then show ?thesis
      using deliverable_pc [OF Some] at
      by (auto simp: step_def work_def rounds_left_def pc_work_def sched_at_def)
  qed
qed

text \<open>\<open>n f\<close> is the round at which the thread of \<open>f\<close> ends.\<close>

definition ends_at :: "(func \<Rightarrow> cint) \<Rightarrow> (func \<Rightarrow> nat) \<Rightarrow> bool" where
  "ends_at arg n \<longleftrightarrow> sint (arg Max_subarray) < 0 \<and>
     (\<forall>f\<in>{Fibonacci, Collatz}. 0 \<le> sint (arg f) \<longrightarrow> ended f (arg f) (n f))"

definition started_ok :: "(func \<Rightarrow> cint) \<Rightarrow> threads \<Rightarrow> bool" where
  "started_ok arg s \<longleftrightarrow> (\<forall>p t. heap s p = Some t \<longrightarrow> 0 \<le> sint (arg (fst (environment t))))"

lemma rounds_still_left:
  assumes inv: "all_inv ro arg b s" and ends: "ends_at arg n" and st: "started_ok arg s"
    and p: "heap s p = Some t" "\<not> exiting s p"
  shows "length (printed (func_id (fst (environment t))) (trace s)) < n (fst (environment t))"
proof -
  let ?f = "fst (environment t)"
  have a: "0 \<le> sint (arg ?f)" using st p(1) by (simp add: started_ok_def)
  then have "?f \<noteq> Max_subarray" using ends unfolding ends_at_def by (metis not_less)
  then have "?f \<in> {Fibonacci, Collatz}" by (cases ?f) simp_all
  then have e: "ended ?f (arg ?f) (n ?f)" using ends a unfolding ends_at_def by blast
  have "running ?f (arg ?f) (length (printed (func_id ?f) (trace s)))"
    using inv p by (simp add: all_inv_def history_def Let_def)
  then show ?thesis using running_before_ended e by blast
qed

lemma run_count_work:
  assumes "run_count ro s0 k s" and inv0: "all_inv ro arg b s0" and st0: "started_ok arg s0" and ends: "ends_at arg n"
  shows "all_inv ro arg b s \<and> started_ok arg s \<and> k + work n s \<le> work n s0"
  using assms(1)
proof induction
  case Start
  then show ?case using inv0 st0 by simp
next
  case (Process k s)
  then have inv: "all_inv ro arg b s" "sched_inv ro s" and st: "started_ok arg s" by (simp_all add: all_inv_def)
  have "only_computing s"
    using st ends unfolding only_computing_def started_ok_def ends_at_def by (metis not_less)
  then have "work n (step s) < work n s"
    using step_work [OF inv(2)] Process.hyps rounds_still_left [OF inv(1) ends st] by blast
  moreover have "started_ok arg (step s)"
    using step_funcs [OF inv(2) Process.hyps(2)] st unfolding started_ok_def by metis
  ultimately show ?case using Process.IH all_inv_step [OF inv(1) Process.hyps(2)] by linarith
next
  case (Environment k s s')
  then show ?case using all_inv_tstep by (auto simp: started_ok_def work_def)
qed

lemma starts_started_ok:
  assumes "starts raw argv s0"
  shows "started_ok (start_arg argv) s0" and "trace s0 = []" and "pc s0 = Sched 0"
proof -
  have "length argv = 5" using assms by (auto simp: starts_def main_def split: if_splits)
  from main_init [OF this, of raw] assms obtain s where
    s: "s0 = start_threading s" "init_at raw (start_arg argv) UNIV s" "pc s = Sched 0"
    by (auto simp: starts_def)
  show "started_ok (start_arg argv) s0" "trace s0 = []" "pc s0 = Sched 0"
    using s unfolding init_at_def started_ok_def start_threading_def by fastforce+
qed

section \<open>Runs with the FIFOs that writers open again\<close>

text \<open>\<open>F\<close> are the descriptors of the FIFOs that a writer has opened again so far.\<close>

inductive run_opened :: "threads \<Rightarrow> nat set \<Rightarrow> threads \<Rightarrow> bool" for s0 where
  Start: "run_opened s0 {} s0"
| Step: "run_opened s0 F s \<Longrightarrow> tstep False s s' \<Longrightarrow> run_opened s0 F s'"
| Opened: "run_opened s0 F s \<Longrightarrow>
    run_opened s0 (insert fd F) (s\<lparr>fifos := (fifos s)(fd := (fifos s fd)\<lparr>f_hup := False\<rparr>)\<rparr>)"

lemma tstep_reopen: "tstep False s s' \<Longrightarrow> tstep ro s s'"
  by (erule tstep.cases) (auto intro: tstep.intros)

lemma tstep_not_reopen:
  "tstep True s s' \<Longrightarrow> tstep False s s' \<or> (\<exists>fd. s' = s\<lparr>fifos := (fifos s)(fd := (fifos s fd)\<lparr>f_hup := False\<rparr>)\<rparr>)"
  by (erule tstep.cases) (auto intro: tstep.intros)

text \<open>Every run is one of these.\<close>

lemma run_opened_iff: "run_from True s0 s \<longleftrightarrow> (\<exists>F. run_opened s0 F s)"
proof
  show "run_from True s0 s \<Longrightarrow> \<exists>F. run_opened s0 F s"
    by (induction rule: run_from.induct) (use tstep_not_reopen run_opened.intros in blast)+
  have "run_opened s0 F s \<Longrightarrow> run_from True s0 s" for F
    by (induction rule: run_opened.induct)
      (auto intro: run_from.Start run_from.Step tstep_reopen tstep.Reopen)
  then show "\<exists>F. run_opened s0 F s \<Longrightarrow> run_from True s0 s" by blast
qed

text \<open>As long as the FIFO of the reader is not opened again, its \<open>read\<close> is ready when it is due.\<close>

lemma reopen_other:
  assumes "sched_inv False s" and "heap s p = Some t" and "fst (environment t) = Max_subarray" and "t_fd t \<noteq> fd"
  shows "sched_inv False (s\<lparr>fifos := (fifos s)(fd := (fifos s fd)\<lparr>f_hup := False\<rparr>)\<rparr>)"
proof -
  let ?s' = "s\<lparr>fifos := (fifos s)(fd := (fifos s fd)\<lparr>f_hup := False\<rparr>)\<rparr>"
  obtain R W where at: "sched_at False s R W" using assms(1) by (auto simp: sched_inv_def)
  then have ok: "threads_ok (heap s)" by (simp add: sched_at_def)
  have "thread_readable ?s' x" if x: "thread_readable s x" "snd (env_of s x) = After_read" for x
  proof -
    obtain u where u: "heap s x = Some u" using x(1) by (auto simp: thread_readable_def split: option.splits)
    then have "environment u = (Max_subarray, After_read)" using threads_ok_reader [OF ok u] x(2) by (simp add: env_of_def)
    then have "x = p" using threads_ok_unique [OF ok u assms(2)] assms(3) by simp
    then show ?thesis using x(1) u assms(2,4) by (simp add: thread_readable_def readable_def)
  qed
  then have "sched_at False ?s' R W"
    by (intro sched_at_same [OF at]) (use at in \<open>simp_all add: sched_at_def\<close>)
  then show ?thesis by (auto simp: sched_inv_def)
qed

lemma run_opened_inv:
  assumes "run_opened s0 F s" and "starts raw argv s0" and "heap s p = Some t" and "fst (environment t) = Max_subarray" and "t_fd t \<notin> F"
  shows "sched_inv False s"
  using assms(1,3-5)
proof (induction arbitrary: t rule: run_opened.induct)
  case Start
  then show ?case using starts_all_inv [OF assms(2)] by (simp add: all_inv_def)
next
  case (Step F s s')
  have all: "sched_inv True s"
    using run_all_inv [OF _ assms(2), of True s] run_opened_iff Step.hyps(1) by (auto simp: all_inv_def)
  have "\<exists>y. heap s p = Some y \<and> fst (environment y) = fst (environment t) \<and> t_fd y = t_fd t"
    using Step.hyps(2)
  proof cases
    case Run
    then show ?thesis using step_funcs [OF all, of p t] Step.prems(1) by simp
  qed (use Step.prems(1) in simp_all)
  then obtain y where "heap s p = Some y" "fst (environment y) = fst (environment t)" "t_fd y = t_fd t" by blast
  then have "sched_inv False s" using Step.IH [of y] Step.prems by simp
  then show ?case by (rule tstep_keeps_sched_inv [OF Step.hyps(2)])
next
  case (Opened F s fd)
  then show ?case using reopen_other [of s p t fd] by simp
qed

section \<open>Properties\<close>

text \<open>
  C11: whatever signals, data and hang-ups come and when, the process never
  follows a null pointer, leaves a queue or divides by zero, and every live
  thread is in exactly one of the two queues, at most one of them waiting.
\<close>

theorem threads_never_crash:
  assumes "starts raw argv s0" and "run_from reopen s0 s"
  shows "pc s \<noteq> Crashed \<and> (\<exists>R W. queue_rep (ready_queue s) (rq_size s) R \<and> queue_rep (waiting_queue s) (wq_size s) W
    \<and> distinct (R @ W) \<and> set (R @ W) = dom (heap s) \<and> length W \<le> 1 \<and> (R \<noteq> [] \<longrightarrow> rq_current s < length R))"
proof -
  obtain R W where at: "sched_at reopen s R W"
    using run_all_inv [OF assms(2,1)] by (auto simp: all_inv_def sched_inv_def)
  then have "R \<noteq> [] \<longrightarrow> rq_current s < length R" "pc s \<noteq> Crashed"
    by (cases "pc s"; simp add: sched_at_def)+
  then show ?thesis using at unfolding sched_at_def queues_def by blast
qed

theorem threads_never_crash_witness:
  "pc demo_end \<noteq> Crashed \<and> (\<exists>R W. queue_rep (ready_queue demo_end) (rq_size demo_end) R
    \<and> queue_rep (waiting_queue demo_end) (wq_size demo_end) W
    \<and> distinct (R @ W) \<and> set (R @ W) = dom (heap demo_end) \<and> length W \<le> 1
    \<and> (R \<noteq> [] \<longrightarrow> rq_current demo_end < length R))"
  by (rule threads_never_crash [OF demo_starts demo_run])

text \<open>
  C12: the Fibonacci thread with argument \<open>a > 0\<close> has printed the first \<open>n\<close>
  Fibonacci numbers (mod \<open>2 ^ 32\<close>), \<open>n \<le> a\<close>, at every moment of every
  interleaving with the other threads, and all \<open>a\<close> of them when \<open>main\<close> returns.
\<close>

theorem fibonacci_lines:
  assumes "starts raw argv s0" and "run_from reopen s0 s" and "0 < sint (start_arg argv Fibonacci)"
  shows "\<exists>n \<le> nat (sint (start_arg argv Fibonacci)).
    printed 0 (trace s) = map (\<lambda>k. word_of_nat (fib k)) [1..<Suc n]
    \<and> (pc s = Returned \<longrightarrow> n = nat (sint (start_arg argv Fibonacci)))"
proof -
  let ?a = "start_arg argv Fibonacci" and ?ps = "printed 0 (trace s)"
  have a: "0 \<le> sint ?a" using assms(3) by simp
  have e: "ended Fibonacci ?a (nat (sint ?a))" by (rule round_ends_bound) (use assms(3) in simp_all)
  note count = run_lines_count [OF assms(1,2) a e, unfolded func_id.simps]
  have lt: "nat (sint ?a) < 2 ^ 31" using int_fits_sint [of ?a] assms(3) by (simp add: int_fits_def)
  have "?ps = map (\<lambda>k. word_of_nat (fib k)) [1..<Suc (length ?ps)]"
    using run_lines(1) [OF assms(1,2) a] count(1) lt
    by (intro map_nth_upt) (simp add: lines_ok_def)
  then show ?thesis using count by blast
qed

theorem fibonacci_lines_witness:
  "\<exists>n \<le> nat (sint (start_arg demo_argv Fibonacci)).
    printed 0 (trace demo_end) = map (\<lambda>k. word_of_nat (fib k)) [1..<Suc n]
    \<and> (pc demo_end = Returned \<longrightarrow> n = nat (sint (start_arg demo_argv Fibonacci)))"
  by (rule fibonacci_lines [OF demo_starts demo_run]) (simp add: start_arg_def demo_argv_def string_eval)

text \<open>
  C13: the Collatz thread has printed the first \<open>n\<close> members of the Collatz
  sequence of its argument, none before the last of them is 1, and when \<open>main\<close>
  returns the last one is 1; this as long as the sequence stays within an \<open>int\<close>.
\<close>

theorem collatz_lines:
  assumes "starts raw argv s0" and "run_from reopen s0 s" and "0 \<le> sint (start_arg argv Collatz)"
    and "\<forall>j. int_fits ((collatz ^^ j) (sint (start_arg argv Collatz)))"
  shows "\<exists>n. map sint (printed 1 (trace s)) = map (\<lambda>k. (collatz ^^ k) (sint (start_arg argv Collatz))) [1..<Suc n]
    \<and> (\<forall>k. 0 < k \<and> k < n \<longrightarrow> (collatz ^^ k) (sint (start_arg argv Collatz)) \<noteq> 1)
    \<and> (pc s = Returned \<longrightarrow> 0 < n \<and> (collatz ^^ n) (sint (start_arg argv Collatz)) = 1)"
proof -
  let ?a = "start_arg argv Collatz" and ?ps = "printed 1 (trace s)"
  note lines = run_lines [OF assms(1-3), unfolded func_id.simps]
  have iter: "sint ((collatz_word ^^ k) ?a) = (collatz ^^ k) (sint ?a)" for k
    using sint_collatz_iter [OF assms(3), of k] assms(4) by blast
  have "map sint ?ps = map (\<lambda>k. (collatz ^^ k) (sint ?a)) [1..<Suc (length (map sint ?ps))]"
    using lines(1) iter by (intro map_nth_upt) (simp add: lines_ok_def del: funpow.simps)
  then have "map sint ?ps = map (\<lambda>k. (collatz ^^ k) (sint ?a)) [1..<Suc (length ?ps)]" by simp
  moreover have one: "(collatz ^^ k) (sint ?a) = 1 \<longleftrightarrow> round_ends Collatz ?a k" for k
    unfolding iter [symmetric] using sint_inject [of _ 1] by simp
  ultimately show ?thesis
    using lines(2,3) unfolding one by (intro exI [of _ "length ?ps"]) (auto simp: running_def ended_def)
qed

lemma collatz_cycle: "(collatz ^^ j) 2 \<in> {1, 2, 4}"
  by (induction j) (auto simp: collatz_def)

theorem collatz_lines_witness:
  "\<exists>n. map sint (printed 1 (trace demo_end)) = map (\<lambda>k. (collatz ^^ k) (sint (start_arg demo_argv Collatz))) [1..<Suc n]
    \<and> (\<forall>k. 0 < k \<and> k < n \<longrightarrow> (collatz ^^ k) (sint (start_arg demo_argv Collatz)) \<noteq> 1)
    \<and> (pc demo_end = Returned \<longrightarrow> 0 < n \<and> (collatz ^^ n) (sint (start_arg demo_argv Collatz)) = 1)"
proof (rule collatz_lines [OF demo_starts demo_run])
  have a: "sint (start_arg demo_argv Collatz) = 2" by (simp add: start_arg_def demo_argv_def string_eval)
  then show "0 \<le> sint (start_arg demo_argv Collatz)" by simp
  have "int_fits ((collatz ^^ j) 2)" for j using collatz_cycle [of j] by (auto simp: int_fits_def)
  then show "\<forall>j. int_fits ((collatz ^^ j) (sint (start_arg demo_argv Collatz)))" using a by simp
qed

text \<open>
  C14: when each read of \<open>max_subarray\<close> returned one line, a number padded with
  blanks, its \<open>k\<close>-th line of output is the largest sum of consecutive numbers
  among the first \<open>k\<close>, the empty sum included, if their absolute values add up
  to less than \<open>2 ^ 31\<close>; it prints at most as many lines as its argument says,
  and exactly as many when \<open>main\<close> returns.
\<close>

lemma sum_list_take_le: "sum_list (map (\<lambda>v. \<bar>sint v\<bar>) (take k vs)) \<le> sum_list (map (\<lambda>v. \<bar>sint v\<bar>) vs)"
proof -
  have "map (\<lambda>v. \<bar>sint v\<bar>) vs = map (\<lambda>v. \<bar>sint v\<bar>) (take k vs) @ map (\<lambda>v. \<bar>sint v\<bar>) (drop k vs)"
    by (simp flip: map_append)
  moreover have "0 \<le> sum_list (map (\<lambda>v. \<bar>sint v\<bar>) (drop k vs))" by (rule sum_list_nonneg) auto
  ultimately show ?thesis by simp
qed

theorem max_subarray_lines:
  assumes "starts raw argv s0" and "run_from reopen s0 s" and "0 < sint (start_arg argv Max_subarray)"
    and "reads (trace s) = map (\<lambda>(n, v). replicate n CHR '' '' @ fmt_d v @ [LF]) ls"
    and "sum_list (map (\<lambda>(n, v). \<bar>sint v\<bar>) ls) < 2 ^ 31"
  shows "map sint (printed 2 (trace s)) = map (\<lambda>k. best_sum (map sint (take k (map snd ls)))) [1..<Suc (length ls)]
    \<and> length ls \<le> nat (sint (start_arg argv Max_subarray))
    \<and> (pc s = Returned \<longrightarrow> length ls = nat (sint (start_arg argv Max_subarray)))"
proof -
  let ?a = "start_arg argv Max_subarray" and ?ps = "printed 2 (trace s)" and ?vs = "map snd ls"
  have a: "0 \<le> sint ?a" using assms(3) by simp
  have e: "ended Max_subarray ?a (nat (sint ?a))" by (rule round_ends_bound) (use assms(3) in simp_all)
  note count = run_lines_count [OF assms(1,2) a e, unfolded func_id.simps]
  have len: "length ?ps = length ls"
    using run_lines(4) [OF assms(1,2) a refl] assms(4) by simp
  have lt: "nat (sint ?a) < 2 ^ 31" using int_fits_sint [of ?a] assms(3) by (simp add: int_fits_def)
  have vs: "read_values (t_buf raw) (reads (trace s)) = ?vs"
    unfolding assms(4) by (rule read_values_padded)
  have small: "sum_list (map (\<lambda>v. \<bar>sint v\<bar>) ?vs) < 2 ^ 31"
    using assms(5) by (simp add: case_prod_unfold o_def)
  have best: "sint (?ps ! j) = best_sum (map sint (take (Suc j) ?vs))" if j: "j < length ?ps" for j
  proof -
    have "?ps ! j = snd (kadane (take (Suc j) ?vs))"
      using run_lines(1) [OF assms(1,2) a] j vs count(1) lt by (simp add: lines_ok_def)
    moreover have "take (Suc j) ?vs \<noteq> []" using j len by auto
    moreover have "sum_list (map (\<lambda>v. \<bar>sint v\<bar>) (take (Suc j) ?vs)) < 2 ^ 31"
      using sum_list_take_le [of "Suc j" ?vs] small by linarith
    ultimately show ?thesis using kadane_correct by simp
  qed
  have "map sint ?ps = map (\<lambda>k. best_sum (map sint (take k ?vs))) [1..<Suc (length (map sint ?ps))]"
    by (rule map_nth_upt) (use best in simp)
  then show ?thesis using len count by simp
qed

theorem max_subarray_lines_witness: "map sint (printed 2 (trace (reader_at 6))) = [best_sum [42]]"
proof -
  let ?ls = "[(2 :: nat, 42 :: cint)]"
  have reads: "reads (trace (reader_at 6)) = map (\<lambda>(n, v). replicate n CHR '' '' @ fmt_d v @ [LF]) ?ls"
    by (simp add: reader_end_facts reader_line_def)
  have "0 < sint (start_arg reader_argv Max_subarray)"
    by (simp add: start_arg_def reader_argv_def string_eval)
  from max_subarray_lines [OF reader_starts reader_run this reads] show ?thesis by simp
qed

text \<open>
  C15: the scheduler on the two arrays does what \<open>sched_lists\<close> does on lists.
  A signal passes the turn to the next thread of the ready queue; a thread that
  reads goes to the waiting queue and one that exits is freed, and the last
  ready thread takes its place; threads whose FIFO is readable become ready
  first; and with nothing ready the process waits or returns.
\<close>

theorem scheduler_implements_lists:
  assumes "queues s R W" and "rq_current s < length R" and "length W \<le> 1" and "tmp = 2 \<Longrightarrow> W = []"
    and "tmp \<in> {1, 2, 3}" and "sched_lists (thread_readable s) tmp (R, rq_current s, W) = (R', c', W')"
  shows "\<exists>s'. scheduler tmp s = Some s' \<and> queues s' R' W' \<and> rq_current s' = c'
    \<and> heap s' = (if tmp = 3 then (heap s)(R ! rq_current s := None) else heap s)
    \<and> pc s' = dispatched (heap s') R' c' W' \<and> sched_frame s s'"
  using scheduler_refines [OF assms(1-4) _ assms(6)] assms(5) by auto

theorem scheduler_implements_lists_witness:
  "\<exists>s'. scheduler 1 demo_start = Some s' \<and> queues s' [0, 1] [] \<and> rq_current s' = 1
    \<and> heap s' = (if 1 = (3 :: int) then (heap demo_start)([0, 1] ! rq_current demo_start := None) else heap demo_start)
    \<and> pc s' = dispatched (heap s') [0, 1] 1 [] \<and> sched_frame demo_start s'"
proof (rule scheduler_implements_lists)
  show "queues demo_start [0, 1] []"
    by (auto simp: queues_def queue_rep_def demo_start_eq THREAD_MAX_def numeral_nat dom_def split: if_splits)
  show "sched_lists (thread_readable demo_start) 1 ([0, 1], rq_current demo_start, []) = ([0, 1], 1, [])"
    by (simp add: sched_lists_def demo_start_eq)
qed (simp_all add: demo_start_eq)

text \<open>
  C16: both signals are blocked everywhere but in \<open>thread_yield\<close>, where SIGTSTP
  is open first and SIGALRM after it: the scheduler and the threads are never
  interrupted in the middle of their work.
\<close>

theorem signals_masked:
  assumes "starts raw argv s0" and "run_from reopen s0 s"
  shows "blocked s = (case pc s of Yield_tstp f \<Rightarrow> {SIGALRM} | Yield_alrm f \<Rightarrow> {SIGTSTP} | _ \<Rightarrow> {SIGTSTP, SIGALRM})"
  using run_all_inv [OF assms(2,1)]
  by (auto simp: all_inv_def sched_inv_def sched_at_def mask_of_def base_mask_def tstp_mask_def alrm_mask_def
      split: pc.splits)

theorem signals_masked_witness:
  "blocked demo_end = (case pc demo_end of Yield_tstp f \<Rightarrow> {SIGALRM} | Yield_alrm f \<Rightarrow> {SIGTSTP} | _ \<Rightarrow> {SIGTSTP, SIGALRM})"
  by (rule signals_masked [OF demo_starts demo_run])

text \<open>C17: with a time slice the alarm is always set or its signal pending: no switch is ever lost.\<close>

theorem alarm_never_lost:
  assumes "starts raw argv s0" and "run_from reopen s0 s" and "atoi (argv ! 1) \<noteq> 0"
  shows "timer s \<or> SIGALRM \<in> pending s"
  using run_all_inv [OF assms(2,1)] run_timeslice [OF assms(1,2)] assms(3)
  by (auto simp: all_inv_def alarm_inv_def)

theorem alarm_never_lost_witness: "timer demo_end \<or> SIGALRM \<in> pending demo_end"
  by (rule alarm_never_lost [OF demo_starts demo_run]) (simp add: demo_argv_def string_eval)

text \<open>
  C18: when a thread is back from \<open>async_read\<close> its FIFO has data, or has been
  hung up, or has been opened again by a writer during the run: in every run,
  with \<open>F\<close> the FIFOs opened again, \<open>read\<close> finds a FIFO outside \<open>F\<close> never merely
  empty. Every run is of this form, by \<open>run_opened_iff\<close>.
\<close>

theorem read_has_data:
  assumes "starts raw argv s0" and "run_opened s0 F s" and "pc s = At f After_read"
  shows "\<exists>p t. RUNNING s = Some p \<and> heap s p = Some t
    \<and> (f_data (fifos s (t_fd t)) \<noteq> [] \<or> f_hup (fifos s (t_fd t)) \<or> t_fd t \<in> F)"
proof -
  have r: "run_from True s0 s" using assms(2) run_opened_iff by blast
  obtain R W where at: "sched_at True s R W"
    using run_all_inv [OF r assms(1)] by (auto simp: all_inv_def sched_inv_def)
  have q: "queues s R W" and c: "rq_current s < length R" and e: "env_of s (R ! rq_current s) = (f, After_read)"
    using at assms(3) by (simp_all add: sched_at_def)
  obtain p t where run: "RUNNING s = Some p" "p = R ! rq_current s" "heap s p = Some t"
    using running_thread [OF q c] by blast
  have ok: "threads_ok (heap s)" using at by (simp add: sched_at_def)
  have env: "environment t = (Max_subarray, After_read)"
    using threads_ok_reader [OF ok run(3)] e run by (simp add: env_of_def)
  have "f_data (fifos s (t_fd t)) \<noteq> [] \<or> f_hup (fifos s (t_fd t))" if "t_fd t \<notin> F"
  proof -
    have "sched_inv False s" by (rule run_opened_inv [OF assms(2,1) run(3) _ that]) (simp add: env)
    then obtain R' W' where at': "sched_at False s R' W'" by (auto simp: sched_inv_def)
    have "queues s R' W'" "rq_current s < length R'" using at' assms(3) by (simp_all add: sched_at_def)
    then have "p \<in> set R'" using running_thread run(1) by (metis option.inject)
    then have "thread_readable s p" using at' env run assms(3) by (auto simp: sched_at_def read_ready_def env_of_def)
    then show ?thesis using run(3) by (auto simp: thread_readable_def readable_def)
  qed
  then show ?thesis using run by blast
qed

lemma reader_run_opened: "run_opened reader_start {} (reader_at n)"
proof -
  have fed: "run_opened reader_start {} reader_fed"
    unfolding reader_fed_def by (rule run_opened.Step [OF run_opened.Start]) (rule tstep.Data)
  have "run_opened reader_start {} s \<Longrightarrow> run_from False s t \<Longrightarrow> run_opened reader_start {} t" for s t
    by (rotate_tac, induction rule: run_from.induct) (auto intro: run_opened.Step)
  then show ?thesis
    unfolding reader_at_def using run_from_steps [OF run_all_inv [OF reader_run [of False 0] reader_starts]] fed
    by (simp add: reader_at_def)
qed

theorem read_has_data_witness:
  "\<exists>p t. RUNNING (reader_at 4) = Some p \<and> heap (reader_at 4) p = Some t
    \<and> (f_data (fifos (reader_at 4) (t_fd t)) \<noteq> [] \<or> f_hup (fifos (reader_at 4) (t_fd t)))"
  using read_has_data [OF reader_starts reader_run_opened reader_mid_facts] by simp

text \<open>
  C19: when \<open>main\<close> returns every thread control block is freed, every FIFO file
  unlinked, and the open descriptors are the three the program started with.
\<close>

theorem return_leaves_nothing:
  assumes "starts raw argv s0" and "run_from reopen s0 s" and "pc s = Returned"
  shows "heap s = (\<lambda>_. None) \<and> fifo_names s = [] \<and> set (open_fds s) = {0, 1, 2}"
proof -
  have inv: "res_inv s" "sched_inv reopen s" using run_all_inv [OF assms(2,1)] by (simp_all add: all_inv_def)
  have h: "heap s = (\<lambda>_. None)"
    using inv(2) assms(3) by (auto simp: sched_inv_def sched_at_def queues_def dom_def)
  have "fifo_names s = []" using inv(1) h by (cases "fifo_names s") (auto simp: res_inv_def)
  then show ?thesis using inv(1) h unfolding res_inv_def by auto
qed

theorem return_leaves_nothing_witness:
  "heap demo_end = (\<lambda>_. None) \<and> fifo_names demo_end = [] \<and> set (open_fds demo_end) = {0, 1, 2}"
  by (rule return_leaves_nothing [OF demo_starts demo_run demo_end_facts(2)])

text \<open>
  C20: without \<open>max_subarray\<close>, and with the Fibonacci and the Collatz thread
  ending after \<open>n Fibonacci\<close> and \<open>n Collatz\<close> rounds (\<open>ends_at\<close>: the Collatz
  thread of argument 0 has no such number), \<open>main\<close> returns within four steps
  for each round and one more, whatever signals come: no run takes more steps,
  and each run can be continued to the return.
\<close>

theorem computing_threads_terminate:
  assumes "starts raw argv s0" and "ends_at (start_arg argv) n" and "run_count reopen s0 k s"
  shows "k \<le> 4 * (n Fibonacci + n Collatz) + 1 \<and> (k = 4 * (n Fibonacci + n Collatz) + 1 \<longrightarrow> pc s = Returned)
    \<and> (\<exists>k' s'. k \<le> k' \<and> run_count reopen s0 k' s' \<and> pc s' = Returned)"
proof -
  let ?B = "4 * (n Fibonacci + n Collatz) + 1"
  have "work n s0 = ?B"
    using starts_started_ok(2,3) [OF assms(1)] by (simp add: work_def rounds_left_def pc_work_def)
  then have bound: "k' \<le> ?B" if "run_count reopen s0 k' s'" for k' s'
    using run_count_work [OF that starts_all_inv [OF assms(1)] starts_started_ok(1) [OF assms(1)] assms(2)] by simp
  have last: "pc s' = Returned" if run: "run_count reopen s0 ?B s'" for s'
    using bound [OF run_count.Process [OF run]] by auto
  have "\<exists>k' s'. k \<le> k' \<and> run_count reopen s0 k' s' \<and> pc s' = Returned"
    using bound [OF assms(3)] assms(3)
  proof (induction k arbitrary: s rule: inc_induct)
    case base
    then show ?case using last by blast
  next
    case (step k)
    show ?case
    proof (cases "pc s = Returned")
      case True
      then show ?thesis using step.prems(1) by blast
    next
      case False
      obtain k' s' where "Suc k \<le> k'" "run_count reopen s0 k' s'" "pc s' = Returned"
        using step.IH [OF run_count.Process [OF step.prems(1) False]] bound [OF run_count.Process [OF step.prems(1) False]]
        by blast
      then show ?thesis using Suc_leD by blast
    qed
  qed
  then show ?thesis using bound [OF assms(3)] last assms(3) by blast
qed

lemma run_count_steps:
  assumes "\<forall>j<n. pc ((step ^^ j) s) \<noteq> Returned"
  shows "run_count ro s n ((step ^^ n) s)"
  using assms by (induction n) (auto intro: run_count.intros)

lemma funpow_7: "(g ^^ 7) x = g (g (g (g (g (g (g x))))))"
  by (simp add: numeral_eq_Suc)

lemma demo_running:
  assumes "j < 8" shows "pc ((step ^^ j) demo_start) \<noteq> Returned"
proof
  assume r: "pc ((step ^^ j) demo_start) = Returned"
  have inv: "sched_inv True ((step ^^ j) demo_start)"
    using all_inv_run [OF run_from_steps [OF starts_all_inv [OF demo_starts]] starts_all_inv [OF demo_starts], of True j]
    by (simp add: all_inv_def)
  have "(step ^^ i) ((step ^^ j) demo_start) = (step ^^ j) demo_start" for i
    by (induction i) (simp_all add: step_Returned [OF inv r])
  from this [of "7 - j"] have "(step ^^ 7) demo_start = (step ^^ j) demo_start"
    using assms funpow_add [of "7 - j" j step] by simp
  moreover have "pc ((step ^^ 7) demo_start) = Sched 3"
    by (simp add: funpow_7 demo_start_eq step_eval sched_eval demo_raw_def c_mod_def c_div_def)
  ultimately show False using r by simp
qed

definition demo_rounds :: "func \<Rightarrow> nat" where
  "demo_rounds f = (case f of Fibonacci \<Rightarrow> 2 | Collatz \<Rightarrow> 1 | Max_subarray \<Rightarrow> 0)"

theorem computing_threads_terminate_witness:
  "\<not> (\<exists>s. run_count True demo_start 14 s) \<and>
    (\<exists>k s. 8 \<le> k \<and> run_count True demo_start k s \<and> pc s = Returned)"
proof -
  have ends: "ends_at (start_arg demo_argv) demo_rounds"
    by (auto simp: ends_at_def start_arg_def demo_argv_def string_eval ended_def running_def le_Suc_eq
        collatz_word_def c_mod_def c_div_def numeral_2_eq_2 demo_rounds_def)
  have "run_count True demo_start 8 demo_end"
    unfolding demo_end_def using demo_running by (intro run_count_steps) blast
  from computing_threads_terminate [OF demo_starts ends this]
  have "\<exists>k s. 8 \<le> k \<and> run_count True demo_start k s \<and> pc s = Returned" by blast
  moreover have "\<not> run_count True demo_start 14 s" for s
    using computing_threads_terminate [OF demo_starts ends, of True 14 s] by (auto simp: demo_rounds_def)
  ultimately show ?thesis by blast
qed

section \<open>Where the program goes wrong\<close>

text \<open>With three negative arguments there is no thread, and the scheduler jumps through \<open>NULL\<close>.\<close>

lemma no_thread_crashes:
  assumes "main raw argv = Some s0" and "\<And>f. sint (start_arg argv f) < 0"
  shows "pc (step s0) = Crashed"
proof -
  have "length argv = 5" using assms(1) by (auto simp: main_def split: if_splits)
  from main_init [OF this, of raw] assms(1) obtain s where
    s: "s0 = start_threading s" "init_at raw (start_arg argv) UNIV s" by auto
  have "heap s p = None" for p
    using s(2) assms(2) unfolding init_at_def by (metis not_less not_None_eq)
  moreover obtain R where q: "queues s R []" using s(2) by (auto simp: init_at_def)
  ultimately have "R = []" by (auto simp: queues_def dom_def)
  then have "queue_get (ready_queue s) 0 = None"
    using q tcb_queue.get_out [of "ready_queue s" "rq_size s" R 0] queues_sizes(1) [OF q] by (simp add: queues_def)
  moreover have "deliverable s0 = None"
    using s by (simp add: deliverable_def start_threading_def init_at_def)
  ultimately show ?thesis
    using s(1) by (simp add: step_def run_pc_def scheduler_def longjmp_env_def deref_def start_threading_def)
qed

text \<open>The sequence of 0 is constant: \<open>collatz\<close> with argument 0 never ends.\<close>

lemma collatz_0_never_ends: "\<not> ended Collatz 0 n"
proof -
  have "(collatz_word ^^ k) 0 = 0" for k
    by (induction k) (simp_all add: collatz_word_def c_mod_def c_div_def)
  then show ?thesis by (simp add: ended_def)
qed

end
