(* ===== verification/C_Double.thy ===== *)
theory C_Double
  imports Complex_Main C_Strings
begin

text \<open>
  C's \<open>double\<close>: IEEE 754 binary64 with rounding to nearest, ties to even. A
  finite number is a sign, a 53-bit integer and the exponent of its last bit.
  Sum, product, quotient and square root are the exact result rounded once by
  \<open>d_round\<close>; comparison is exact and false on a NaN. \<open>strtod\<close> reads decimal
  and hexadecimal numbers, infinities and NaNs. The order lemmas say that
  \<open>d_less\<close> and \<open>d_eq\<close> are a total preorder on everything but NaN, the sign
  lemmas that arithmetic on finite non-negative numbers stays non-negative,
  the format lemmas that every result has 53 bits and an exponent in range,
  and that dividing moderate numbers by the root of a sum of squares stays finite.
\<close>

section \<open>Numbers\<close>

datatype double = Nan | Inf bool | Fin bool nat int

definition signed :: "bool \<Rightarrow> nat \<Rightarrow> int" where
  "signed neg m = (if neg then - int m else int m)"

definition shift :: "nat \<Rightarrow> int \<Rightarrow> nat" where
  "shift m k = m * 2 ^ nat k"

fun bit_length :: "nat \<Rightarrow> nat" where
  "bit_length n = (if n = 0 then 0 else Suc (bit_length (n div 2)))"

declare bit_length.simps [simp del]

text \<open>The integer nearest to \<open>n / d\<close>, the even one of two.\<close>

definition round_quot :: "nat \<Rightarrow> nat \<Rightarrow> nat" where
  "round_quot n d =
     (let q = n div d; r = n mod d
      in if 2 * r < d \<or> 2 * r = d \<and> even q then q else q + 1)"

text \<open>\<open>d_round neg n d ex\<close> is the double nearest to \<open>n / d * 2 ^ ex\<close>, \<open>d > 0\<close>.\<close>

definition d_round :: "bool \<Rightarrow> nat \<Rightarrow> nat \<Rightarrow> int \<Rightarrow> double" where
  "d_round neg n d ex =
     (if n = 0 then Fin neg 0 (-1074)
      else
        let l = int (bit_length n) - int (bit_length d);
            lg = (if shift d l \<le> shift n (- l) then l else l - 1);
            e = max (-1074) (ex + lg - 52);
            m = round_quot (shift n (ex - e)) (shift d (e - ex));
            (m', e') = (if m = 2 ^ 53 then (2 ^ 52, e + 1) else (m, e))
        in if 971 < e' then Inf neg else Fin neg m' e')"

abbreviation d_zero :: double where "d_zero \<equiv> Fin False 0 (-1074)"

section \<open>Arithmetic\<close>

fun d_add :: "double \<Rightarrow> double \<Rightarrow> double" where
  "d_add Nan y = Nan"
| "d_add x Nan = Nan"
| "d_add (Inf a) (Inf b) = (if a = b then Inf a else Nan)"
| "d_add (Inf a) (Fin b m e) = Inf a"
| "d_add (Fin a m e) (Inf b) = Inf b"
| "d_add (Fin a m e) (Fin b n f) =
     (let c = min e f;
          s = signed a (shift m (e - c)) + signed b (shift n (f - c))
      in if s = 0 then Fin (a \<and> b) 0 (-1074) else d_round (s < 0) (nat \<bar>s\<bar>) 1 c)"

fun d_mult :: "double \<Rightarrow> double \<Rightarrow> double" where
  "d_mult Nan y = Nan"
| "d_mult x Nan = Nan"
| "d_mult (Inf a) (Inf b) = Inf (a \<noteq> b)"
| "d_mult (Inf a) (Fin b m e) = (if m = 0 then Nan else Inf (a \<noteq> b))"
| "d_mult (Fin a m e) (Inf b) = (if m = 0 then Nan else Inf (a \<noteq> b))"
| "d_mult (Fin a m e) (Fin b n f) = d_round (a \<noteq> b) (m * n) 1 (e + f)"

fun d_div :: "double \<Rightarrow> double \<Rightarrow> double" where
  "d_div Nan y = Nan"
| "d_div x Nan = Nan"
| "d_div (Inf a) (Inf b) = Nan"
| "d_div (Inf a) (Fin b m e) = Inf (a \<noteq> b)"
| "d_div (Fin a m e) (Inf b) = Fin (a \<noteq> b) 0 (-1074)"
| "d_div (Fin a m e) (Fin b n f) =
     (if n = 0 then (if m = 0 then Nan else Inf (a \<noteq> b)) else d_round (a \<noteq> b) m n (e - f))"

fun isqrt :: "nat \<Rightarrow> nat" where
  "isqrt n =
     (if n = 0 then 0
      else let s = 2 * isqrt (n div 4) in if (s + 1) * (s + 1) \<le> n then s + 1 else s)"

declare isqrt.simps [simp del]

text \<open>
  The root is taken of an integer of at least 111 bits; when it is not exact a
  last bit of one stands for the rest, which cannot be a tie.
\<close>

fun d_sqrt :: "double \<Rightarrow> double" where
  "d_sqrt Nan = Nan"
| "d_sqrt (Inf a) = (if a then Nan else Inf False)"
| "d_sqrt (Fin a m e) =
     (if m = 0 then Fin a 0 (-1074)
      else if a then Nan
      else
        let j = (if even e then 110 else 111);
            n = shift m j; s = isqrt n
        in if s * s = n then d_round False s 1 ((e - j) div 2)
           else d_round False (2 * s + 1) 1 ((e - j) div 2 - 1))"

section \<open>Comparison\<close>

fun d_less :: "double \<Rightarrow> double \<Rightarrow> bool" where
  "d_less Nan y = False"
| "d_less x Nan = False"
| "d_less (Inf a) (Inf b) = (a \<and> \<not> b)"
| "d_less (Inf a) (Fin b m e) = a"
| "d_less (Fin a m e) (Inf b) = (\<not> b)"
| "d_less (Fin a m e) (Fin b n f) =
     (let c = min e f in signed a (shift m (e - c)) < signed b (shift n (f - c)))"

fun d_eq :: "double \<Rightarrow> double \<Rightarrow> bool" where
  "d_eq Nan y = False"
| "d_eq x Nan = False"
| "d_eq (Inf a) (Inf b) = (a = b)"
| "d_eq (Inf a) (Fin b m e) = False"
| "d_eq (Fin a m e) (Inf b) = False"
| "d_eq (Fin a m e) (Fin b n f) =
     (let c = min e f in signed a (shift m (e - c)) = signed b (shift n (f - c)))"

section \<open>strtod\<close>

definition is_hex :: "char \<Rightarrow> bool" where
  "is_hex c \<longleftrightarrow> isdigit c \<or> (97 \<le> char_code c \<and> char_code c \<le> 102) \<or> (65 \<le> char_code c \<and> char_code c \<le> 70)"

definition hex_val :: "char \<Rightarrow> nat" where
  "hex_val c = (if isdigit c then char_code c - 48 else if 97 \<le> char_code c then char_code c - 87 else char_code c - 55)"

definition lower :: "char \<Rightarrow> char" where
  "lower c = (if 65 \<le> char_code c \<and> char_code c \<le> 90 then char_of (char_code c + 32) else c)"

definition mantissa :: "nat \<Rightarrow> (char \<Rightarrow> nat) \<Rightarrow> string \<Rightarrow> nat" where
  "mantissa base val ds = foldl (\<lambda>n c. base * n + val c) 0 ds"

text \<open>The digits before and after the point and what follows.\<close>

definition split_number :: "(char \<Rightarrow> bool) \<Rightarrow> string \<Rightarrow> string \<times> string \<times> string" where
  "split_number dig s =
     (let ip = takeWhile dig s; r = dropWhile dig s
      in case r of [] \<Rightarrow> (ip, [], [])
         | c # cs \<Rightarrow> if c = CHR ''.'' then (ip, takeWhile dig cs, dropWhile dig cs) else (ip, [], r))"

text \<open>An exponent counts only when a digit follows.\<close>

definition read_exponent :: "char \<Rightarrow> string \<Rightarrow> int" where
  "read_exponent mark s =
     (case s of [] \<Rightarrow> 0
      | c # cs \<Rightarrow>
          if lower c = mark
          then (case sign_split cs of (neg, ds) \<Rightarrow>
                  signed neg (digits_val (takeWhile isdigit ds)))
          else 0)"

definition decimal :: "bool \<Rightarrow> nat \<Rightarrow> int \<Rightarrow> double" where
  "decimal neg n x = (if 0 \<le> x then d_round neg (n * 10 ^ nat x) 1 0 else d_round neg n (10 ^ nat (- x)) 0)"

definition strtod :: "string \<Rightarrow> double" where
  "strtod s =
     (case sign_split (dropWhile isspace s) of (neg, r) \<Rightarrow>
        if map lower (take 3 r) = ''inf'' then Inf neg
        else if map lower (take 3 r) = ''nan'' then Nan
        else
          (case split_number is_hex (drop 2 r) of (hi, hf, ht) \<Rightarrow>
             if map lower (take 2 r) = ''0x'' \<and> hi @ hf \<noteq> []
             then d_round neg (mantissa 16 hex_val (hi @ hf)) 1 (read_exponent CHR ''p'' ht - 4 * int (length hf))
             else
               (case split_number isdigit r of (ip, fp, t) \<Rightarrow>
                  if ip @ fp = [] then d_zero
                  else decimal neg (digits_val (ip @ fp)) (read_exponent CHR ''e'' t - int (length fp)))))"

section \<open>Order\<close>

definition d_value :: "bool \<Rightarrow> nat \<Rightarrow> int \<Rightarrow> rat" where
  "d_value a m e = of_int (signed a m) * 2 powi e"

lemma signed_shift:
  assumes "c \<le> e"
  shows "of_int (signed a (shift m (e - c))) * 2 powi c = d_value a m e"
proof -
  have "(2 :: rat) powi e = 2 powi (e - c) * 2 powi c"
    using power_int_add [of "2 :: rat" "e - c" c] by simp
  moreover have "(2 :: rat) powi (e - c) = 2 ^ nat (e - c)"
    using assms by (simp add: power_int_def)
  ultimately show ?thesis by (simp add: d_value_def signed_def shift_def)
qed

lemma fin_compare:
  "signed a (shift m (e - min e f)) < signed b (shift n (f - min e f)) \<longleftrightarrow> d_value a m e < d_value b n f"
  "signed a (shift m (e - min e f)) = signed b (shift n (f - min e f)) \<longleftrightarrow> d_value a m e = d_value b n f"
proof -
  let ?c = "min e f" and ?x = "signed a (shift m (e - min e f))" and ?y = "signed b (shift n (f - min e f))"
  have v: "d_value a m e = of_int ?x * 2 powi ?c" "d_value b n f = of_int ?y * 2 powi ?c"
    using signed_shift [of ?c e a m] signed_shift [of ?c f b n] by simp_all
  have p: "(0 :: rat) < 2 powi ?c" by simp
  show "?x < ?y \<longleftrightarrow> d_value a m e < d_value b n f" unfolding v using p by simp
  show "?x = ?y \<longleftrightarrow> d_value a m e = d_value b n f" unfolding v using p by simp
qed

text \<open>The key that orders everything but NaN.\<close>

fun d_key :: "double \<Rightarrow> int \<times> rat" where
  "d_key Nan = (0, 0)"
| "d_key (Inf a) = (if a then (-1, 0) else (1, 0))"
| "d_key (Fin a m e) = (0, d_value a m e)"

definition key_less :: "int \<times> rat \<Rightarrow> int \<times> rat \<Rightarrow> bool" where
  "key_less p q \<longleftrightarrow> fst p < fst q \<or> fst p = fst q \<and> snd p < snd q"

lemma d_less_key: "x \<noteq> Nan \<Longrightarrow> y \<noteq> Nan \<Longrightarrow> d_less x y \<longleftrightarrow> key_less (d_key x) (d_key y)"
  by (cases x; cases y) (auto simp: key_less_def fin_compare Let_def)

lemma d_eq_key: "x \<noteq> Nan \<Longrightarrow> y \<noteq> Nan \<Longrightarrow> d_eq x y \<longleftrightarrow> d_key x = d_key y"
  by (cases x; cases y) (auto simp: fin_compare Let_def)

lemma d_less_Nan [simp]: "\<not> d_less x Nan" "\<not> d_less Nan y" "\<not> d_eq x Nan" "\<not> d_eq Nan y"
  by (cases x; simp)+

lemma d_less_trans: "d_less x y \<Longrightarrow> d_less y z \<Longrightarrow> d_less x z"
  using d_less_key key_less_def d_less_Nan
  by (cases "x = Nan \<or> y = Nan \<or> z = Nan") (auto simp: d_less_key key_less_def)

lemma d_less_irrefl [simp]: "\<not> d_less x x"
  by (cases "x = Nan") (simp_all add: d_less_key key_less_def)

lemma d_eq_refl: "x \<noteq> Nan \<Longrightarrow> d_eq x x"
  by (simp add: d_eq_key)

lemma d_eq_sym: "d_eq x y \<longleftrightarrow> d_eq y x"
  by (cases "x = Nan \<or> y = Nan") (auto simp: d_eq_key)

lemma d_trichotomy: "x \<noteq> Nan \<Longrightarrow> y \<noteq> Nan \<Longrightarrow> d_less x y \<or> d_eq x y \<or> d_less y x"
  by (auto simp: d_less_key d_eq_key key_less_def prod_eq_iff)

section \<open>Signs and rounding\<close>

lemma round_quot_nearest:
  assumes "0 < d" shows "2 * \<bar>int (round_quot n d) * int d - int n\<bar> \<le> int d"
proof -
  have n: "int n = int (n div d) * int d + int (n mod d)"
    by (metis div_mult_mod_eq of_nat_add of_nat_mult)
  have r: "n mod d < d" using assms by simp
  show ?thesis
  proof (cases "2 * (n mod d) < d \<or> 2 * (n mod d) = d \<and> even (n div d)")
    case True
    then have "round_quot n d = n div d" by (simp add: round_quot_def Let_def)
    then show ?thesis using n True by auto
  next
    case False
    then have "round_quot n d = n div d + 1" by (simp add: round_quot_def Let_def)
    then have eq: "int (round_quot n d) * int d - int n = int d - int (n mod d)"
      using n by (simp add: algebra_simps)
    have "int d \<le> 2 * int (n mod d)" "int (n mod d) < int d" using False r by linarith+
    moreover have "2 * \<bar>x - r\<bar> \<le> x" if "x \<le> 2 * r" "r < x" for x r :: int
      using that by (simp add: abs_if)
    ultimately have "2 * \<bar>int d - int (n mod d)\<bar> \<le> int d" by blast
    moreover note eq
    ultimately show ?thesis by simp
  qed
qed

definition finite_nonneg :: "double \<Rightarrow> bool" where
  "finite_nonneg x = (case x of Fin a m e \<Rightarrow> \<not> a \<or> m = 0 | _ \<Rightarrow> False)"

definition d_nonneg :: "double \<Rightarrow> bool" where
  "d_nonneg x = (case x of Nan \<Rightarrow> False | Inf a \<Rightarrow> \<not> a | Fin a m e \<Rightarrow> \<not> a \<or> m = 0)"

lemma d_round_cases: "(\<exists>m e. d_round neg n d ex = Fin neg m e) \<or> d_round neg n d ex = Inf neg"
  by (auto simp: d_round_def Let_def split: prod.splits if_splits)

lemma d_nonneg_round: "d_nonneg (d_round False n d ex)"
  using d_round_cases [of False n d ex] by (auto simp: d_nonneg_def)

lemma finite_nonneg_nonneg: "finite_nonneg x \<Longrightarrow> d_nonneg x"
  by (cases x) (simp_all add: finite_nonneg_def d_nonneg_def)

lemma d_nonneg_mult: "finite_nonneg x \<Longrightarrow> finite_nonneg y \<Longrightarrow> d_nonneg (d_mult x y)"
  by (cases x; cases y)
    (auto simp: finite_nonneg_def d_nonneg_round, auto simp: d_round_def d_nonneg_def d_nonneg_round [unfolded d_nonneg_def])

lemma signed_nonneg: "\<not> a \<or> m = 0 \<Longrightarrow> 0 \<le> signed a (shift m k)"
  by (auto simp: signed_def shift_def)

lemma d_nonneg_add:
  assumes "d_nonneg x" and "d_nonneg y" shows "d_nonneg (d_add x y)"
proof (cases "\<exists>a m e b n f. x = Fin a m e \<and> y = Fin b n f")
  case True
  then obtain a m e b n f where x: "x = Fin a m e" and y: "y = Fin b n f" by blast
  have "0 \<le> signed a (shift m (e - min e f)) + signed b (shift n (f - min e f))"
    using assms signed_nonneg [of a m] signed_nonneg [of b n] by (simp add: x y d_nonneg_def)
  then show ?thesis
    using d_nonneg_round by (simp add: x y Let_def) (simp add: d_nonneg_def)
next
  case False
  then show ?thesis using assms by (cases x; cases y) (auto simp: d_nonneg_def)
qed

lemma d_nonneg_not_Nan: "d_nonneg x \<Longrightarrow> x \<noteq> Nan"
  by (auto simp: d_nonneg_def)

lemma d_value_sign: "d_value a m e < 0 \<longleftrightarrow> a \<and> m \<noteq> 0"
proof -
  have p: "(0 :: rat) < 2 powi e" by simp
  then have "\<not> (2 :: rat) powi e < 0" by (meson less_asym)
  with p show ?thesis by (simp add: d_value_def signed_def mult_less_0_iff)
qed

lemma d_nonneg_iff: "d_nonneg x \<longleftrightarrow> x \<noteq> Nan \<and> \<not> d_less x d_zero"
proof (cases x)
  case (Fin a m e)
  have "d_less x d_zero \<longleftrightarrow> d_value a m e < d_value False 0 (-1074)"
    using d_less_key [of x d_zero] by (simp add: Fin key_less_def)
  also have "d_value False 0 (-1074) = 0" by (simp add: d_value_def signed_def)
  finally show ?thesis by (auto simp: Fin d_nonneg_def d_value_sign)
qed (simp_all add: d_nonneg_def)

section \<open>The format\<close>

text \<open>A finite number of the format: 53 bits, exponents of the last bit from -1074 to 971.\<close>

definition d_wf :: "double \<Rightarrow> bool" where
  "d_wf x = (case x of Fin a m e \<Rightarrow> m < 2 ^ 53 \<and> -1074 \<le> e \<and> e \<le> 971 | _ \<Rightarrow> True)"

lemma bit_length_bounds: "n < 2 ^ bit_length n" "0 < n \<Longrightarrow> 2 ^ bit_length n \<le> 2 * n"
proof -
  have "n < 2 ^ bit_length n \<and> (0 < n \<longrightarrow> 2 ^ bit_length n \<le> 2 * n)"
  proof (induction n rule: bit_length.induct)
    case (1 n)
    show ?case
    proof (cases "n = 0")
      case False
      then have ih: "n div 2 < 2 ^ bit_length (n div 2)" "0 < n div 2 \<longrightarrow> 2 ^ bit_length (n div 2) \<le> 2 * (n div 2)"
        using 1 by blast+
      have b: "bit_length n = Suc (bit_length (n div 2))" using False by (simp add: bit_length.simps [of n])
      have "n < 2 ^ bit_length n" using ih(1) by (simp add: b)
      moreover have "2 ^ bit_length n \<le> 2 * n"
      proof (cases "n div 2 = 0")
        case True
        then show ?thesis using False by (simp add: b bit_length.simps [of 0])
      next
        case False
        then show ?thesis using ih(2) by (simp add: b)
      qed
      ultimately show ?thesis by blast
    qed (simp add: bit_length.simps [of 0])
  qed
  then show "n < 2 ^ bit_length n" "0 < n \<Longrightarrow> 2 ^ bit_length n \<le> 2 * n" by blast+
qed

lemma bit_length_le: "n < 2 ^ k \<Longrightarrow> bit_length n \<le> k"
proof (rule ccontr)
  assume n: "n < 2 ^ k" and "\<not> bit_length n \<le> k"
  then have k: "Suc k \<le> bit_length n" by simp
  then have "0 < n" by (cases "n = 0") (simp_all add: bit_length.simps [of 0])
  then have "(2 :: nat) ^ bit_length n \<le> 2 * n" by (rule bit_length_bounds(2))
  moreover have "(2 :: nat) ^ Suc k \<le> 2 ^ bit_length n" using k by (rule power_increasing) simp
  ultimately show False using n by simp
qed

lemma bit_length_pos: "0 < n \<Longrightarrow> 0 < bit_length n"
  by (simp add: bit_length.simps [of n])

lemma bit_length_1: "bit_length (Suc 0) = 1"
  by (subst bit_length.simps) (simp add: bit_length.simps [of 0])

lemma shift_powi:
  "rat_of_nat (shift m k) = of_nat m * 2 powi (max 0 k)"
  by (simp add: shift_def power_int_def max_def)

text \<open>The quotient \<open>d_round\<close> rounds has at most 53 bits.\<close>

lemma round_quot_le: "n < k * d \<Longrightarrow> round_quot n d \<le> k"
proof -
  assume n: "n < k * d"
  then have "n div d < k" by (simp add: less_mult_imp_div_less)
  then show ?thesis by (simp add: round_quot_def Let_def)
qed

lemma log_estimate:
  assumes "0 < n" and "0 < d" and "l = int (bit_length n) - int (bit_length d)"
    and "lg = (if shift d l \<le> shift n (- l) then l else l - 1)"
  shows "rat_of_nat n < rat_of_nat d * 2 powi (lg + 1)"
proof (cases "shift d l \<le> shift n (- l)")
  case True
  have "rat_of_nat n < 2 ^ bit_length n" using bit_length_bounds(1) [of n] by (metis of_nat_less_iff of_nat_numeral of_nat_power)
  also have "(2 :: rat) ^ bit_length n = 2 powi (int (bit_length d) + l)"
    using assms(3) by (simp add: power_int_def)
  also have "\<dots> = 2 ^ bit_length d * 2 powi l" by (simp add: power_int_add)
  also have "\<dots> \<le> rat_of_nat (2 * d) * 2 powi l"
    using bit_length_bounds(2) [OF assms(2)] by (intro mult_right_mono) (metis of_nat_le_iff of_nat_numeral of_nat_power, simp)
  also have "\<dots> = rat_of_nat d * 2 powi (l + 1)" by (simp add: power_int_add)
  finally show ?thesis using assms(4) True by simp
next
  case False
  then have "rat_of_nat (shift n (- l)) < rat_of_nat (shift d l)" by simp
  then have "rat_of_nat n * 2 powi (max 0 (- l)) < rat_of_nat d * 2 powi (max 0 l)" unfolding shift_powi .
  moreover have "(2 :: rat) powi (max 0 l) = 2 powi l * 2 powi (max 0 (- l))"
    by (simp add: power_int_add [symmetric] max_def)
  ultimately have "rat_of_nat n * 2 powi (max 0 (- l)) < (rat_of_nat d * 2 powi l) * 2 powi (max 0 (- l))" by simp
  then have "rat_of_nat n < rat_of_nat d * 2 powi l" by (simp add: mult_less_cancel_right)
  then show ?thesis using assms(4) False by simp
qed


text \<open>Where \<open>d_round\<close> puts the last bit: \<open>round_exp\<close> up to one.\<close>

definition round_exp :: "nat \<Rightarrow> nat \<Rightarrow> int \<Rightarrow> int" where
  "round_exp n d ex = max (-1074) (ex + int (bit_length n) - int (bit_length d) - 52)"

lemma d_round_exp:
  assumes "0 < n" and "0 < d"
  obtains m e where "d_round neg n d ex = (if 971 < e then Inf neg else Fin neg m e)"
    and "m < 2 ^ 53" and "round_exp n d ex - 1 \<le> e" and "e \<le> round_exp n d ex + 1" and "-1074 \<le> e"
proof -
  define l where "l = int (bit_length n) - int (bit_length d)"
  define lg where "lg = (if shift d l \<le> shift n (- l) then l else l - 1)"
  define e where "e = max (-1074) (ex + lg - 52)"
  define m where "m = round_quot (shift n (ex - e)) (shift d (e - ex))"
  have lg: "l - 1 \<le> lg" "lg \<le> l" by (simp_all add: lg_def)
  have e: "round_exp n d ex - 1 \<le> e" "e \<le> round_exp n d ex" "-1074 \<le> e"
    using lg by (simp_all add: e_def round_exp_def l_def max_def)
  have "rat_of_nat n < rat_of_nat d * 2 powi (lg + 1)"
    by (rule log_estimate [OF assms l_def lg_def])
  also have "\<dots> \<le> rat_of_nat d * 2 powi (53 + e - ex)"
    by (intro mult_left_mono power_int_increasing) (simp_all add: e_def)
  finally have "rat_of_nat n * 2 powi (max 0 (ex - e)) < rat_of_nat d * 2 powi (53 + e - ex) * 2 powi (max 0 (ex - e))"
    by simp
  also have "\<dots> = rat_of_nat d * (2 powi (53 + e - ex) * 2 powi (max 0 (ex - e)))" by simp
  also have "(2 :: rat) powi (53 + e - ex) * 2 powi (max 0 (ex - e)) = 2 powi 53 * 2 powi (max 0 (e - ex))"
    by (auto simp: power_int_add [symmetric] max_def algebra_simps simp del: power_int_numeral)
  also have "rat_of_nat d * (2 powi 53 * 2 powi (max 0 (e - ex))) = rat_of_nat (2 ^ 53 * shift d (e - ex))"
    by (simp add: shift_powi power_int_def del: power_numeral)
  finally have "rat_of_nat (shift n (ex - e)) < rat_of_nat (2 ^ 53 * shift d (e - ex))"
    unfolding shift_powi .
  then have "shift n (ex - e) < 2 ^ 53 * shift d (e - ex)" by (simp only: of_nat_less_iff)
  then have m: "m \<le> 2 ^ 53" unfolding m_def by (rule round_quot_le)
  have r: "d_round neg n d ex = (case (if m = 2 ^ 53 then (2 ^ 52, e + 1) else (m, e)) of (m', e') \<Rightarrow>
      if 971 < e' then Inf neg else Fin neg m' e')"
    using assms(1) unfolding d_round_def Let_def l_def [symmetric] lg_def [symmetric] e_def [symmetric] m_def [symmetric]
    by simp
  show thesis
  proof (cases "m = 2 ^ 53")
    case True
    show thesis
      by (rule that [of "e + 1" "2 ^ 52"]) (use r True e in simp_all)
  next
    case False
    show thesis
      by (rule that [of e m]) (use r False e m in simp_all)
  qed
qed

lemma d_round_wf: "0 < d \<Longrightarrow> d_wf (d_round neg n d ex)"
proof (cases "n = 0")
  case False
  assume "0 < d"
  then obtain m e where "d_round neg n d ex = (if 971 < e then Inf neg else Fin neg m e)" "m < 2 ^ 53" "-1074 \<le> e"
    using d_round_exp [of n d neg ex] False by blast
  then show ?thesis by (simp add: d_wf_def)
qed (simp add: d_wf_def d_round_def)

lemma d_add_wf: "d_wf x \<Longrightarrow> d_wf y \<Longrightarrow> d_wf (d_add x y)"
  by (cases "(x, y)" rule: d_add.cases) (simp_all add: Let_def d_round_wf, simp_all add: d_wf_def)

lemma d_mult_wf: "d_wf (d_mult x y)"
  by (cases "(x, y)" rule: d_mult.cases) (simp_all add: d_round_wf, simp_all add: d_wf_def)

lemma d_div_wf: "d_wf (d_div x y)"
  by (cases "(x, y)" rule: d_div.cases) (simp_all add: d_round_wf, simp_all add: d_wf_def)

lemma d_sqrt_wf: "d_wf (d_sqrt x)"
  by (cases x) (simp_all add: d_round_wf Let_def, simp_all add: d_wf_def)

lemma d_wf_zero [simp]: "d_wf d_zero"
  by (simp add: d_wf_def)

lemma strtod_wf: "d_wf (strtod s)"
  by (simp add: strtod_def decimal_def d_round_wf split: prod.splits) (simp add: d_wf_def)

section \<open>Numbers that divide without overflow\<close>

text \<open>Finite, not negative, the last bit at most at \<open>2 ^ k\<close>: less than \<open>2 ^ (k + 53)\<close>.\<close>

definition moderate :: "int \<Rightarrow> double \<Rightarrow> bool" where
  "moderate k x = (case x of Fin a m e \<Rightarrow> (\<not> a \<or> m = 0) \<and> m < 2 ^ 53 \<and> -1074 \<le> e \<and> e \<le> k | _ \<Rightarrow> False)"

lemma moderate_finite: "moderate k x \<Longrightarrow> finite_nonneg x"
  by (cases x) (auto simp: moderate_def finite_nonneg_def)

lemma d_nonneg_sqrt: "d_nonneg x \<Longrightarrow> d_nonneg (d_sqrt x)"
  using d_nonneg_round unfolding d_nonneg_def
  by (cases x) (auto simp: Let_def split: if_splits)

text \<open>A root is zero, infinite, or not too small.\<close>

lemma d_sqrt_cases:
  assumes "d_nonneg x" and "d_wf x"
  obtains "d_sqrt x = Inf False" | a m e where "d_sqrt x = Fin a m e" "m = 0 \<or> -650 \<le> e" "\<not> a \<or> m = 0"
proof (cases x)
  case (Fin a m e)
  show thesis
  proof (cases "m = 0")
    case True
    then show thesis using that(2) [of a 0 "-1074"] by (simp add: Fin)
  next
    case False
    define j :: int where "j = (if even e then 110 else 111)"
    define s where "s = isqrt (shift m j)"
    have a: "\<not> a" using assms(1) False by (simp add: Fin d_nonneg_def)
    have e: "-1074 \<le> e" using assms(2) by (simp add: Fin d_wf_def)
    obtain n ex where n: "d_sqrt x = d_round False n 1 ex" "0 < n \<or> d_sqrt x = Fin False 0 (-1074)" "-594 \<le> ex"
    proof (cases "s * s = shift m j")
      case True
      have "-593 \<le> (e - j) div 2" using e unfolding j_def by presburger
      moreover have "d_sqrt x = d_round False s 1 ((e - j) div 2)"
        using True False a by (simp add: Fin Let_def j_def [symmetric] s_def [symmetric])
      moreover have "0 < s" using True False by (cases s) (simp_all add: shift_def)
      ultimately show thesis using that by force
    next
      case nope: False
      have "-593 \<le> (e - j) div 2" using e unfolding j_def by presburger
      moreover have "d_sqrt x = d_round False (2 * s + 1) 1 ((e - j) div 2 - 1)"
        using nope False a by (simp add: Fin Let_def j_def [symmetric] s_def [symmetric])
      ultimately show thesis using that [of "2 * s + 1"] by force
    qed
    show thesis
    proof (cases "0 < n")
      case True
      obtain m' e' where r: "d_round False n 1 ex = (if 971 < e' then Inf False else Fin False m' e')"
        "round_exp n 1 ex - 1 \<le> e'"
        using d_round_exp [of n 1 False ex] True by (metis zero_less_one)
      then have "-647 \<le> e'"
        using r(2) n(3) bit_length_pos [OF True] by (simp add: bit_length_1 round_exp_def max_def split: if_splits)
      then show thesis using that n(1) r(1) by (cases "971 < e'") auto
    next
      case False
      then show thesis using that(2) n(2) by auto
    qed
  qed
next
  case (Inf a)
  then show thesis using assms that(1) by (simp add: d_nonneg_def)
qed (use assms in \<open>simp add: d_nonneg_def\<close>)

lemma d_div_moderate:
  assumes "moderate 300 x" and "d_nonneg s" and "d_wf s" and "\<not> d_eq (d_sqrt s) d_zero"
  shows "finite_nonneg (d_div x (d_sqrt s))"
proof -
  obtain a m e where x: "x = Fin a m e" "\<not> a \<or> m = 0" "m < 2 ^ 53" "e \<le> 300" "-1074 \<le> e"
    using assms(1) by (cases x) (auto simp: moderate_def)
  from assms(2,3) show ?thesis
  proof (cases rule: d_sqrt_cases)
    case 1
    then show ?thesis using x by (auto simp: finite_nonneg_def)
  next
    case (2 b n f)
    have "d_key (Fin b n f) \<noteq> d_key d_zero" using assms(4) d_eq_key [of "Fin b n f" d_zero] unfolding 2(1) by blast
    then have n: "n \<noteq> 0" by (auto simp: d_value_def signed_def split: if_splits)
    then have f: "-650 \<le> f" "\<not> b" using 2 by auto
    have div: "d_div x (d_sqrt s) = d_round a m n (e - f)" using x(1) n f 2(1) by simp
    show ?thesis
    proof (cases "m = 0")
      case True
      then show ?thesis using div by (simp add: d_round_def finite_nonneg_def)
    next
      case False
      then obtain m' e' where r: "d_round a m n (e - f) = (if 971 < e' then Inf a else Fin a m' e')" "e' \<le> round_exp m n (e - f) + 1"
        using d_round_exp [of m n a "e - f"] n by (metis bot_nat_0.not_eq_extremum)
      have "bit_length m \<le> 53" "0 < bit_length n" using bit_length_le [OF x(3)] bit_length_pos [of n] n by simp_all
      then have "e' \<le> 971" using r(2) x(4) f(1) by (simp add: round_exp_def max_def split: if_splits)
      then show ?thesis using div r(1) x(2) False by (simp add: finite_nonneg_def)
    qed
  qed
qed

lemma moderate_nat:
  assumes "n < 2 ^ 350"
  shows "moderate 300 (d_round False n 1 0)"
proof (cases "n = 0")
  case False
  then obtain m e where r: "d_round False n 1 0 = (if 971 < e then Inf False else Fin False m e)"
    "m < 2 ^ 53" "e \<le> round_exp n 1 0 + 1" "-1074 \<le> e"
    using d_round_exp [of n 1 False 0] by (metis bot_nat_0.not_eq_extremum zero_less_one)
  then have "e \<le> 300" using r(3) bit_length_le [OF assms] by (simp add: bit_length_1 round_exp_def max_def split: if_splits)
  then show ?thesis using r by (simp add: moderate_def)
qed (simp add: d_round_def moderate_def)

end
