(* ===== verification/Movies_Lib.thy ===== *)
theory Movies_Lib
  imports C_Double "HOL-Library.Multiset" "HOL-Library.Product_Lexorder" "HOL-Library.List_Lexorder"
begin

text \<open>
  The sorting library of the movie recommendation system (lib.c): a selection
  sort of titles by score, descending, ties by title, that appends the secret
  to every title. A title array is a list of pointers, \<open>None\<close> for \<open>NULL\<close>.
  Every failed assertion, \<open>exit\<close> and bad memory access ends the process and is
  a \<open>Stop\<close>. \<open>rank\<close> maps a title with its score to the linear order the
  library sorts by; the locale \<open>title_sorter\<close> is what the servers rely on
  when they call a sort, interpreted here on \<open>sort_lib\<close>.
\<close>

section \<open>Results\<close>

datatype stop = Exit_failure | Assert_failed | Bad_memory

datatype 'a res = Done 'a | Stop stop

fun and_then :: "'a res \<Rightarrow> ('a \<Rightarrow> 'b res) \<Rightarrow> 'b res" where
  "and_then (Done x) f = f x"
| "and_then (Stop e) f = Stop e"

lemma and_then_Done [simp]: "and_then r f = Done y \<longleftrightarrow> (\<exists>x. r = Done x \<and> f x = Done y)"
  by (cases r) simp_all

definition MAX_LEN :: nat where "MAX_LEN = 255"

section \<open>The library\<close>

definition d_ge :: "double \<Rightarrow> double \<Rightarrow> bool" where
  "d_ge x y \<longleftrightarrow> d_less y x \<or> d_eq x y"

definition d_minus_one :: double where
  "d_minus_one = Fin True (2 ^ 52) (-52)"

definition secret_key :: string where
  "secret_key = CHR 0x09 # ''[It'' @ [CHR 0x27] @ ''s top secret.]''"

definition add_secret :: "string \<Rightarrow> string res" where
  "add_secret s = (if length s < MAX_LEN then Done (s @ secret_key) else Stop Assert_failed)"

text \<open>\<open>strlen\<close> and \<open>strcmp\<close> through pointers.\<close>

definition deref_str :: "string option \<Rightarrow> string res" where
  "deref_str p = (case p of None \<Rightarrow> Stop Bad_memory | Some s \<Rightarrow> Done s)"

definition validate :: "nat \<Rightarrow> string option list \<Rightarrow> int \<Rightarrow> unit res" where
  "validate num_of_movies movies sz =
     (if int num_of_movies < sz then Stop Assert_failed
      else if list_ex (\<lambda>i. movies ! i = None) [0..<nat sz] then Stop Exit_failure
      else Done ())"

fun argmax_loop :: "double list \<Rightarrow> string option list \<Rightarrow> nat list \<Rightarrow> nat \<times> double \<Rightarrow> (nat \<times> double) res" where
  "argmax_loop src movie [] (ret, mx) = Done (ret, mx)"
| "argmax_loop src movie (i # js) (ret, mx) =
     (if d_less mx (src ! i) then argmax_loop src movie js (i, src ! i)
      else if d_eq (src ! i) mx then
        and_then (deref_str (movie ! ret)) (\<lambda>a.
        and_then (deref_str (movie ! i)) (\<lambda>b.
          argmax_loop src movie js (if strcmp a b > 0 then i else ret, mx)))
      else argmax_loop src movie js (ret, mx))"

definition argmax :: "double list \<Rightarrow> string option list \<Rightarrow> nat \<Rightarrow> nat \<Rightarrow> nat res" where
  "argmax src movie start stop_at =
     and_then (argmax_loop src movie [start..<stop_at] (start, d_minus_one)) (\<lambda>(ret, mx).
       if d_ge mx d_zero then Done ret else Stop Assert_failed)"

definition swap :: "nat \<Rightarrow> nat \<Rightarrow> 'a list \<Rightarrow> 'a list" where
  "swap i j xs = xs[i := xs ! j, j := xs ! i]"

text \<open>\<open>movies[i] = add_secret (movies[i], strlen (movies[i]))\<close>\<close>

definition mark :: "nat \<Rightarrow> string option list \<Rightarrow> string option list res" where
  "mark i movies =
     and_then (deref_str (movies ! i)) (\<lambda>s. and_then (add_secret s) (\<lambda>s'. Done (movies[i := Some s'])))"

definition sort_round :: "nat \<Rightarrow> nat \<Rightarrow> string option list \<times> double list \<Rightarrow> (string option list \<times> double list) res" where
  "sort_round sz i s =
     (case s of (movies, pts) \<Rightarrow>
        and_then (argmax pts movies i sz) (\<lambda>idx.
          if idx < sz
          then and_then (mark i (swap i idx movies)) (\<lambda>movies'. Done (movies', swap i idx pts))
          else Stop Assert_failed))"

fun sort_loop :: "nat \<Rightarrow> nat list \<Rightarrow> string option list \<times> double list \<Rightarrow> (string option list \<times> double list) res" where
  "sort_loop sz [] s = Done s"
| "sort_loop sz (i # js) s = and_then (sort_round sz i s) (sort_loop sz js)"

text \<open>
  With \<open>size \<le> 0\<close> the last statement writes before the arrays; a caller that
  passes the middle of its array (\<open>sort_part\<close>) knows what is there.
\<close>

definition sort_lib :: "nat \<Rightarrow> string option list \<Rightarrow> double list \<Rightarrow> int \<Rightarrow> (string option list \<times> double list) res" where
  "sort_lib num_of_movies movies pts sz =
     and_then (validate num_of_movies movies sz) (\<lambda>_.
     if sz \<le> 0 then Stop Bad_memory
     else
       and_then (sort_loop (nat sz) [0..<nat sz - 1] (movies, pts)) (\<lambda>(movies', pts').
       and_then (mark (nat sz - 1) movies') (\<lambda>movies''. Done (movies'', pts'))))"

section \<open>Ranks\<close>

type_synonym entry = "string \<times> double"

text \<open>Higher scores first, then titles in the order of \<open>strcmp\<close>.\<close>

definition rank :: "entry \<Rightarrow> int \<times> rat \<times> string" where
  "rank x = (- fst (d_key (snd x)), - snd (d_key (snd x)), fst x)"

lemma strcmp_less: "strcmp s t < 0 \<longleftrightarrow> s < t"
proof (induction s t rule: strcmp.induct)
  case (4 x xs y ys)
  then show ?case by (auto simp: char_code_def less_char_def)
qed simp_all

lemma strcmp_le: "strcmp s t \<le> 0 \<longleftrightarrow> s \<le> t"
  using strcmp_less [of t s] strcmp_flip [of s t] by (metis neg_le_0_iff_le not_less neg_less_0_iff_less)

lemma rank_le:
  assumes "s \<noteq> Nan" and "r \<noteq> Nan"
  shows "rank (t, s) \<le> rank (u, r) \<longleftrightarrow> d_less r s \<or> (d_eq s r \<and> strcmp t u \<le> 0)"
  using assms by (auto simp: rank_def d_less_key d_eq_key key_less_def strcmp_le prod_eq_iff)

lemma rank_less:
  assumes "s \<noteq> Nan" and "r \<noteq> Nan"
  shows "rank (t, s) < rank (u, r) \<longleftrightarrow> d_less r s \<or> (d_eq s r \<and> strcmp t u < 0)"
  using assms by (auto simp: rank_def d_less_key d_eq_key key_less_def strcmp_less prod_eq_iff)

lemma fst_rank: "snd (snd (rank x)) = fst x"
  by (simp add: rank_def)

text \<open>The rank holds the title, so it determines the sorted titles.\<close>

definition ranked_titles :: "entry list \<Rightarrow> string list" where
  "ranked_titles es = map fst (sort_key rank es)"

lemma ranked_titles_unique:
  assumes "mset es' = mset es" and "sorted (map rank es')"
  shows "map fst es' = ranked_titles es"
proof -
  have "map rank es' = sort (map rank es)"
    using assms by (intro properties_for_sort [symmetric]) simp_all
  also have "\<dots> = map rank (sort_key rank es)"
    by (intro properties_for_sort) simp_all
  finally have "map (snd \<circ> snd) (map rank es') = map (snd \<circ> snd) (map rank (sort_key rank es))" by simp
  then show ?thesis by (simp add: ranked_titles_def fst_rank o_def)
qed

definition secret :: "string \<Rightarrow> string" where
  "secret t = t @ secret_key"

text \<open>
  What a caller relies on: on the arrays it accepts a sort returns the secret
  titles of the same entries in the order of their ranks.
\<close>

locale title_sorter =
  fixes run :: "entry list \<Rightarrow> (string list) res" and ok :: "entry list \<Rightarrow> bool"
  assumes sorts: "ok es \<Longrightarrow> \<exists>es'. run es = Done (map (secret \<circ> fst) es') \<and> mset es' = mset es \<and> sorted (map rank es')"
begin

lemma run_eq: "ok es \<Longrightarrow> run es = Done (map secret (ranked_titles es))"
  using sorts [of es] ranked_titles_unique by (metis map_map)

lemma run_permuted: "ok es \<Longrightarrow> mset es = mset es' \<Longrightarrow> ok es' \<Longrightarrow> run es = run es'"
  using run_eq sorts ranked_titles_unique by metis

end

section \<open>The selection sort\<close>

text \<open>An entry the library sorts: a title with room for the secret, a score that is not negative.\<close>

definition good_entry :: "entry \<Rightarrow> bool" where
  "good_entry x \<longleftrightarrow> length (fst x) < MAX_LEN \<and> d_nonneg (snd x)"

lemma d_minus_one_less: "d_nonneg x \<Longrightarrow> d_less d_minus_one x"
proof (cases x)
  case (Fin a m e)
  assume "d_nonneg x"
  then have "0 \<le> d_value a m e" using d_value_sign [of a m e] Fin by (auto simp: d_nonneg_def not_less [symmetric])
  moreover have "d_value True (2 ^ 52) (-52) < 0" using d_value_sign by simp
  ultimately have "d_value True (2 ^ 52) (-52) < d_value a m e" by linarith
  then show ?thesis using fin_compare(1) [of True "2 ^ 52" "-52" e a m] by (simp add: d_minus_one_def Fin Let_def)
qed (simp_all add: d_nonneg_def d_minus_one_def)

text \<open>
  \<open>argmax\<close> on entries whose titles are there: \<open>ret\<close> is a first-ranked place of
  those seen, \<open>mx\<close> its score.
\<close>

lemma argmax_loop_correct:
  assumes "\<forall>j. start \<le> j \<and> j < n \<longrightarrow> movie ! j = Some (fst (es ! j)) \<and> src ! j = snd (es ! j) \<and> good_entry (es ! j)"
    and "start < k" and "k \<le> n" and "start \<le> ret" and "ret < k" and "mx \<noteq> Nan" and "d_nonneg mx"
    and "d_eq (snd (es ! ret)) mx"
    and "\<forall>j. start \<le> j \<and> j < k \<longrightarrow> rank (es ! ret) \<le> rank (es ! j)"
  shows "\<exists>ret' mx'. argmax_loop src movie [k..<n] (ret, mx) = Done (ret', mx') \<and> start \<le> ret' \<and> ret' < n
    \<and> d_nonneg mx' \<and> (\<forall>j. start \<le> j \<and> j < n \<longrightarrow> rank (es ! ret') \<le> rank (es ! j))"
  using assms(2-)
proof (induction "n - k" arbitrary: k ret mx)
  case 0
  then show ?case by auto
next
  case (Suc d)
  then have k: "k < n" and step: "[k..<n] = k # [Suc k..<n]" by (simp_all add: upt_conv_Cons)
  have at: "movie ! j = Some (fst (es ! j))" "src ! j = snd (es ! j)" "good_entry (es ! j)"
    "snd (es ! j) \<noteq> Nan" "d_nonneg (snd (es ! j))" if "start \<le> j" "j < n" for j
    using assms(1) that by (auto simp: good_entry_def dest: d_nonneg_not_Nan)
  note ek = at [of k] and er = at [of ret]
  have rk: "rank (es ! i) \<le> rank (es ! j) \<longleftrightarrow> d_less (snd (es ! j)) (snd (es ! i)) \<or>
      (d_eq (snd (es ! i)) (snd (es ! j)) \<and> strcmp (fst (es ! i)) (fst (es ! j)) \<le> 0)"
    if "start \<le> i" "i < n" "start \<le> j" "j < n" for i j
    using rank_le [of "snd (es ! i)" "snd (es ! j)" "fst (es ! i)" "fst (es ! j)"] at that by simp
  have eqk: "d_key (snd (es ! ret)) = d_key mx" using Suc.prems er k by (simp add: d_eq_key)
  have better: ?case if ret': "ret' \<in> {ret, k}" and mx': "mx' \<noteq> Nan" "d_nonneg mx'" "d_eq (snd (es ! ret')) mx'"
    and le: "rank (es ! ret') \<le> rank (es ! ret)" "rank (es ! ret') \<le> rank (es ! k)"
    and eq: "argmax_loop src movie (k # [Suc k..<n]) (ret, mx) = argmax_loop src movie [Suc k..<n] (ret', mx')" for ret' mx'
  proof -
    have "\<forall>j. start \<le> j \<and> j < Suc k \<longrightarrow> rank (es ! ret') \<le> rank (es ! j)"
      using le Suc.prems(8) by (metis less_Suc_eq order_trans)
    then show ?thesis
      unfolding step eq using Suc.hyps(1) [of "Suc k" ret' mx'] Suc.hyps(2) Suc.prems(1-4) ret' mx' k by auto
  qed
  consider "d_less mx (src ! k)" | "\<not> d_less mx (src ! k)" "d_eq (src ! k) mx" | "\<not> d_less mx (src ! k)" "\<not> d_eq (src ! k) mx"
    by blast
  then show ?case
  proof cases
    case 1
    then have "rank (es ! k) \<le> rank (es ! ret)"
      using rk [of k ret] ek er k Suc.prems eqk by (simp add: d_less_key)
    then show ?thesis
      using 1 ek k Suc.prems by (intro better [of k "src ! k"]) (simp_all add: d_eq_refl)
  next
    case 2
    let ?r = "if strcmp (fst (es ! ret)) (fst (es ! k)) > 0 then k else ret"
    have e: "d_eq (snd (es ! k)) (snd (es ! ret))" "d_eq (snd (es ! ret)) (snd (es ! k))"
      using 2 ek er k Suc.prems eqk by (simp_all add: d_eq_key)
    have "strcmp (fst (es ! k)) (fst (es ! ret)) = - strcmp (fst (es ! ret)) (fst (es ! k))" by (rule strcmp_flip)
    then have "rank (es ! ?r) \<le> rank (es ! ret)" "rank (es ! ?r) \<le> rank (es ! k)"
      using rk [of k ret] rk [of ret k] e k Suc.prems by auto
    moreover have "argmax_loop src movie (k # [Suc k..<n]) (ret, mx) = argmax_loop src movie [Suc k..<n] (?r, mx)"
      using 2 ek er k Suc.prems by (simp add: deref_str_def)
    moreover have "d_eq (snd (es ! ?r)) mx" using 2 ek k Suc.prems by simp
    ultimately show ?thesis using Suc.prems by (intro better [of ?r mx]) simp_all
  next
    case 3
    then have "d_less (src ! k) mx" using d_trichotomy [of "src ! k" mx] ek k Suc.prems by auto
    then have "rank (es ! ret) \<le> rank (es ! k)"
      using rk [of ret k] ek er k Suc.prems eqk by (simp add: d_less_key)
    then show ?thesis using 3 Suc.prems by (intro better [of ret mx]) simp_all
  qed
qed

lemma argmax_correct:
  assumes good: "\<forall>j. start \<le> j \<and> j < n \<longrightarrow> movie ! j = Some (fst (es ! j)) \<and> src ! j = snd (es ! j) \<and> good_entry (es ! j)"
    and start: "start < n"
  shows "\<exists>ret. argmax src movie start n = Done ret \<and> start \<le> ret \<and> ret < n
    \<and> (\<forall>j. start \<le> j \<and> j < n \<longrightarrow> rank (es ! ret) \<le> rank (es ! j))"
proof -
  have s: "src ! start = snd (es ! start)" "d_nonneg (snd (es ! start))"
    using good start by (auto simp: good_entry_def)
  have first: "argmax_loop src movie [start..<n] (start, d_minus_one) = argmax_loop src movie [Suc start..<n] (start, src ! start)"
    using start s d_minus_one_less by (simp add: upt_conv_Cons)
  have "\<exists>ret mx. argmax_loop src movie [Suc start..<n] (start, src ! start) = Done (ret, mx) \<and> start \<le> ret \<and> ret < n
    \<and> d_nonneg mx \<and> (\<forall>j. start \<le> j \<and> j < n \<longrightarrow> rank (es ! ret) \<le> rank (es ! j))"
    by (rule argmax_loop_correct [OF good])
      (use start s d_nonneg_not_Nan in \<open>auto simp: d_eq_refl less_Suc_eq_le dest!: le_antisym\<close>)
  then obtain ret mx where r: "argmax_loop src movie [Suc start..<n] (start, src ! start) = Done (ret, mx)"
    "start \<le> ret" "ret < n" "d_nonneg mx" "\<forall>j. start \<le> j \<and> j < n \<longrightarrow> rank (es ! ret) \<le> rank (es ! j)" by blast
  have "d_ge mx d_zero"
    using r(4) d_nonneg_iff [of mx] d_trichotomy [of mx d_zero] by (auto simp: d_ge_def)
  then show ?thesis using r first by (auto simp: argmax_def)
qed

text \<open>The arrays when the first \<open>i\<close> places are done: those titles carry the secret.\<close>

definition sel_state :: "nat \<Rightarrow> entry list \<Rightarrow> string option list \<times> double list" where
  "sel_state i es =
     (map (\<lambda>k. Some (if k < i then secret (fst (es ! k)) else fst (es ! k))) [0..<length es], map snd es)"

definition sel_inv :: "nat \<Rightarrow> entry list \<Rightarrow> bool" where
  "sel_inv i es \<longleftrightarrow> sorted (map rank (take i es))
     \<and> (\<forall>a\<in>set (take i es). \<forall>b\<in>set (drop i es). rank a \<le> rank b)"

lemma length_swap [simp]: "length (swap i j xs) = length xs"
  by (simp add: swap_def)

lemma mset_swap_list [simp]: "i < length xs \<Longrightarrow> j < length xs \<Longrightarrow> mset (swap i j xs) = mset xs"
  by (simp add: swap_def mset_swap)

lemma nth_swap:
  "i < length xs \<Longrightarrow> j < length xs \<Longrightarrow> swap i j xs ! k = (if k = j then xs ! i else if k = i then xs ! j else xs ! k)"
  by (cases "k < length xs") (auto simp: swap_def nth_list_update)

lemma mark_Some:
  "movies ! i = Some t \<Longrightarrow> length t < MAX_LEN \<Longrightarrow> mark i movies = Done (movies[i := Some (secret t)])"
  by (simp add: mark_def deref_str_def add_secret_def secret_def)

lemma sel_state_mark:
  assumes "i < length es"
  shows "(fst (sel_state i es))[i := Some (secret (fst (es ! i)))] = fst (sel_state (Suc i) es)"
  using assms by (auto simp: sel_state_def nth_list_update less_Suc_eq intro!: nth_equalityI)

lemma sel_inv_swap:
  assumes inv: "sel_inv i es" and idx: "i \<le> idx" "idx < length es"
    and first: "\<forall>j. i \<le> j \<and> j < length es \<longrightarrow> rank (es ! idx) \<le> rank (es ! j)"
  shows "sel_inv (Suc i) (swap i idx es)"
proof -
  let ?es = "swap i idx es"
  have i: "i < length es" using idx by simp
  have tk: "take i ?es = take i es"
    using idx i by (auto simp: nth_swap intro!: nth_equalityI)
  have "mset (take i ?es @ drop i ?es) = mset (take i es @ drop i es)"
    using idx i by simp
  then have "mset (drop i ?es) = mset (drop i es)" unfolding tk mset_append by simp
  then have dr: "set (drop i ?es) = set (drop i es)" by (metis set_mset_mset)
  have at: "?es ! i = es ! idx" using idx i by (simp add: nth_swap)
  have tS: "take (Suc i) ?es = take i es @ [es ! idx]"
    using i tk at by (simp add: take_Suc_conv_app_nth)
  have idxd: "es ! idx \<in> set (drop i es)"
    using idx by (auto simp: in_set_conv_nth intro!: exI [of _ "idx - i"])
  have low: "rank (es ! idx) \<le> rank b" if "b \<in> set (drop i es)" for b
    using that first by (auto simp: in_set_conv_nth)
  have dS: "set (drop (Suc i) ?es) \<subseteq> set (drop i es)"
    using dr set_drop_subset_set_drop [of i "Suc i" ?es] by auto
  have srt: "sorted (map rank (take i es))" and sep: "\<forall>a\<in>set (take i es). \<forall>b\<in>set (drop i es). rank a \<le> rank b"
    using inv by (simp_all add: sel_inv_def)
  have "sorted (map rank (take (Suc i) ?es))"
    unfolding tS using srt sep idxd by (auto simp: sorted_append)
  moreover have "\<forall>a\<in>set (take (Suc i) ?es). \<forall>b\<in>set (drop (Suc i) ?es). rank a \<le> rank b"
    unfolding tS using sep low dS by auto
  ultimately show ?thesis by (simp add: sel_inv_def)
qed

lemma sort_round_correct:
  assumes inv: "sel_inv i es" and i: "i < length es" and good: "\<forall>x\<in>set es. good_entry x"
  shows "\<exists>es'. sort_round (length es) i (sel_state i es) = Done (sel_state (Suc i) es')
    \<and> sel_inv (Suc i) es' \<and> mset es' = mset es"
proof -
  obtain movies pts where st: "sel_state i es = (movies, pts)" by fastforce
  have len: "length movies = length es" "length pts = length es" and pts: "pts = map snd es"
    and at: "\<And>j. i \<le> j \<Longrightarrow> j < length es \<Longrightarrow> movies ! j = Some (fst (es ! j))"
    and mv: "movies = fst (sel_state i es)"
    using st by (auto simp: sel_state_def)
  have "\<forall>j. i \<le> j \<and> j < length es \<longrightarrow> movies ! j = Some (fst (es ! j)) \<and> pts ! j = snd (es ! j) \<and> good_entry (es ! j)"
    using at pts good by simp
  from argmax_correct [OF this i] obtain idx where idx: "argmax pts movies i (length es) = Done idx"
    "i \<le> idx" "idx < length es" "\<forall>j. i \<le> j \<and> j < length es \<longrightarrow> rank (es ! idx) \<le> rank (es ! j)" by blast
  let ?es = "swap i idx es"
  have sw: "swap i idx movies = fst (sel_state i ?es)" "swap i idx pts = map snd ?es"
    using idx i len by (auto simp: mv pts sel_state_def nth_swap intro!: nth_equalityI)
  have "fst (sel_state i ?es) ! i = Some (fst (?es ! i))" using i by (simp add: sel_state_def)
  moreover have "length (fst (?es ! i)) < MAX_LEN"
    using good idx i by (simp add: nth_swap good_entry_def)
  ultimately have "mark i (fst (sel_state i ?es)) = Done (fst (sel_state (Suc i) ?es))"
    using mark_Some sel_state_mark [of i ?es] i by simp
  then have "sort_round (length es) i (sel_state i es) = Done (sel_state (Suc i) ?es)"
    using idx(1,3) by (simp add: st sort_round_def sw) (simp add: sel_state_def)
  moreover have "mset ?es = mset es" using idx i by simp
  ultimately show ?thesis using sel_inv_swap [OF inv idx(2-4)] by blast
qed

lemma sort_loop_correct:
  assumes "sel_inv i es" and "i \<le> m" and "m \<le> length es" and "\<forall>x\<in>set es. good_entry x"
  shows "\<exists>es'. sort_loop (length es) [i..<m] (sel_state i es) = Done (sel_state m es') \<and> sel_inv m es' \<and> mset es' = mset es"
  using assms
proof (induction "m - i" arbitrary: i es)
  case 0
  then show ?case by auto
next
  case (Suc d)
  then have i: "i < length es" and step: "[i..<m] = i # [Suc i..<m]" by (simp_all add: upt_conv_Cons)
  obtain es1 where es1: "sort_round (length es) i (sel_state i es) = Done (sel_state (Suc i) es1)"
    "sel_inv (Suc i) es1" "mset es1 = mset es"
    using sort_round_correct [OF Suc.prems(1) i Suc.prems(4)] by blast
  have same: "length es1 = length es" "set es1 = set es" using es1(3) by (metis size_mset, metis set_mset_mset)
  then have "\<exists>es'. sort_loop (length es1) [Suc i..<m] (sel_state (Suc i) es1) = Done (sel_state m es')
      \<and> sel_inv m es' \<and> mset es' = mset es1"
    using Suc.hyps(2) Suc.prems es1(2) by (intro Suc.hyps(1)) auto
  then show ?case using es1 same step by auto
qed

text \<open>The whole library call on arrays that hold the entries \<open>es\<close>.\<close>

lemma sort_lib_correct:
  assumes ne: "es \<noteq> []" and good: "\<forall>x\<in>set es. good_entry x" and num: "length es \<le> num"
  shows "\<exists>es'. sort_lib num (map (Some \<circ> fst) es) (map snd es) (int (length es)) =
      Done (map (Some \<circ> secret \<circ> fst) es', map snd es') \<and> mset es' = mset es \<and> sorted (map rank es')"
proof -
  let ?n = "length es"
  have n: "0 < ?n" using ne by simp
  have start: "(map (Some \<circ> fst) es, map snd es) = sel_state 0 es"
    by (auto simp: sel_state_def intro!: nth_equalityI)
  have "\<not> list_ex (\<lambda>i. map (Some \<circ> fst) es ! i = None) [0..<nat (int ?n)]"
    by (auto simp: list_ex_iff)
  then have val: "validate num (map (Some \<circ> fst) es) (int ?n) = Done ()"
    using num by (simp add: validate_def)
  have "sel_inv 0 es" by (simp add: sel_inv_def)
  then obtain es1 where es1: "sort_loop ?n [0..<?n - 1] (sel_state 0 es) = Done (sel_state (?n - 1) es1)"
    "sel_inv (?n - 1) es1" "mset es1 = mset es"
    using sort_loop_correct [of 0 es "?n - 1"] good by auto
  have len: "length es1 = ?n" and set: "set es1 = set es" using es1(3) by (metis size_mset, metis set_mset_mset)
  have last: "?n - 1 < length es1" "Suc (?n - 1) = ?n" using n len by simp_all
  have "good_entry (es1 ! (?n - 1))" using good set last(1) by (metis nth_mem)
  then have "length (fst (es1 ! (?n - 1))) < MAX_LEN" by (simp add: good_entry_def)
  then have mk: "mark (?n - 1) (fst (sel_state (?n - 1) es1)) = Done (fst (sel_state ?n es1))"
    using mark_Some [of "fst (sel_state (?n - 1) es1)" "?n - 1" "fst (es1 ! (?n - 1))"]
      sel_state_mark [OF last(1)] last by (simp add: sel_state_def)
  have end_state: "sel_state ?n es1 = (map (Some \<circ> secret \<circ> fst) es1, map snd es1)"
    using len by (auto simp: sel_state_def intro!: nth_equalityI)
  have pts: "snd (sel_state i es1) = map snd es1" for i by (simp add: sel_state_def)
  have "sorted (map rank es1)"
  proof -
    have split: "es1 = take (?n - 1) es1 @ [es1 ! (?n - 1)]"
      using last take_Suc_conv_app_nth [OF last(1)] len by simp
    have "drop (?n - 1) es1 = [es1 ! (?n - 1)]"
      using Cons_nth_drop_Suc [OF last(1)] last(2) len by simp
    then have "\<forall>a\<in>set (take (?n - 1) es1). rank a \<le> rank (es1 ! (?n - 1))" using es1(2) by (auto simp: sel_inv_def)
    then show ?thesis using es1(2) by (subst split) (auto simp: sel_inv_def sorted_append)
  qed
  moreover have "sort_lib num (map (Some \<circ> fst) es) (map snd es) (int ?n) =
      Done (map (Some \<circ> secret \<circ> fst) es1, map snd es1)"
    using n es1(1) val mk pts [of "?n - 1"]
    by (simp add: sort_lib_def start end_state [symmetric] split: prod.splits) (metis end_state fst_conv prod.collapse snd_conv)
  ultimately show ?thesis using es1(3) by blast
qed

definition library_titles :: "nat \<Rightarrow> entry list \<Rightarrow> string list res" where
  "library_titles num es =
     and_then (sort_lib num (map (Some \<circ> fst) es) (map snd es) (int (length es))) (\<lambda>(movies, pts). Done (map the movies))"

interpretation library: title_sorter "library_titles num"
  "\<lambda>es. es \<noteq> [] \<and> (\<forall>x\<in>set es. good_entry x) \<and> length es \<le> num" for num
proof unfold_locales
  fix es :: "entry list"
  assume "es \<noteq> [] \<and> (\<forall>x\<in>set es. good_entry x) \<and> length es \<le> num"
  then obtain es' where "sort_lib num (map (Some \<circ> fst) es) (map snd es) (int (length es)) =
      Done (map (Some \<circ> secret \<circ> fst) es', map snd es')" "mset es' = mset es" "sorted (map rank es')"
    using sort_lib_correct by blast
  note es' = this
  show "\<exists>es'. library_titles num es = Done (map (secret \<circ> fst) es') \<and> mset es' = mset es \<and> sorted (map rank es')"
    unfolding library_titles_def es'(1) using es'(2,3) by (intro exI [of _ es']) (simp add: o_def)
qed

end
