(* ===== verification/Movies_Server.thy ===== *)
theory Movies_Server
  imports Movies_Lib
begin

text \<open>
  The movie server (server.c, header.h), in its two builds: \<open>filter\<close> collects
  the titles that contain the keywords and scores them against the profile of
  the request, the merge sort splits the array down to depth \<open>MAX_DEPTH\<close>, sorts
  the leaves with the library and merges, in threads (\<open>THREAD\<close>) or in forked
  processes on shared memory (\<open>PROCESS\<close>), and the result is written to a file.

  The two arrays of \<open>filtered_movies\<close> are lists updated by index; an access
  outside them, or outside the part of them a call was given, is \<open>Bad_memory\<close>.
  A title is the string its pointer leads to, \<open>None\<close> for \<open>NULL\<close>: no title is
  changed in place but the buffers of \<open>PROCESS\<close>, and no two places share one.
  What threads and processes leave open is an input of the model: which half
  of a split runs first, and what \<open>num_of_threads\<close> holds when it is tested.
  The halves touch disjoint parts of the arrays, so one after the other stands
  for every interleaving. A half that stops ends the run: a thread takes the
  whole server with it; of a dead child process the parent would not notice.
\<close>

section \<open>Data\<close>

definition MAX_DEPTH :: int where "MAX_DEPTH = 5"
definition MAX_MOVIES :: nat where "MAX_MOVIES = 63000"
definition MAX_THREAD :: nat where "MAX_THREAD = 512"
definition NUM_OF_GENRE :: nat where "NUM_OF_GENRE = 19"

datatype build = THREAD | PROCESS

record request =
  q_id :: cint
  q_keywords :: string
  q_profile :: "double list"

record movie_profile =
  movieId :: cuint
  m_title :: string
  m_profile :: "double list"

record filtered_movies =
  filtered_num :: int
  title :: "string option list"
  scores :: "double list"

record parameter =
  depth :: int
  left :: int
  right :: int

definition addparameter :: "int \<Rightarrow> int \<Rightarrow> int \<Rightarrow> parameter" where
  "addparameter l r d = \<lparr>depth = d, left = l, right = r\<rparr>"

type_synonym slot = "string option \<times> double"

definition get_slot :: "int \<Rightarrow> filtered_movies \<Rightarrow> slot res" where
  "get_slot k f =
     (if 0 \<le> k \<and> nat k < length (title f) \<and> nat k < length (scores f)
      then Done (title f ! nat k, scores f ! nat k) else Stop Bad_memory)"

definition put_slot :: "int \<Rightarrow> slot \<Rightarrow> filtered_movies \<Rightarrow> filtered_movies res" where
  "put_slot k x f =
     (if 0 \<le> k \<and> nat k < length (title f) \<and> nat k < length (scores f)
      then Done (f\<lparr>title := (title f)[nat k := fst x], scores := (scores f)[nat k := snd x]\<rparr>)
      else Stop Bad_memory)"

section \<open>merge\<close>

text \<open>The two copies at the start of \<open>merge\<close>.\<close>

fun copy_slots :: "nat \<Rightarrow> int \<Rightarrow> filtered_movies \<Rightarrow> slot list res" where
  "copy_slots 0 fro f = Done []"
| "copy_slots (Suc n) fro f =
     and_then (get_slot fro f) (\<lambda>x. and_then (copy_slots n (fro + 1) f) (\<lambda>xs. Done (x # xs)))"

definition takes_left :: "slot \<Rightarrow> slot \<Rightarrow> bool res" where
  "takes_left x y =
     (if d_less (snd y) (snd x) then Done True
      else if d_less (snd x) (snd y) then Done False
      else and_then (deref_str (fst x)) (\<lambda>a. and_then (deref_str (fst y)) (\<lambda>b. Done (strcmp a b < 0))))"

text \<open>The three loops; the lists are what the indices \<open>i\<close> and \<open>j\<close> have not passed.\<close>

fun merge_loop :: "slot list \<Rightarrow> slot list \<Rightarrow> int \<Rightarrow> filtered_movies \<Rightarrow> filtered_movies res" where
  "merge_loop (x # xs) (y # ys) k f =
     and_then (takes_left x y) (\<lambda>b.
       if b then and_then (put_slot k x f) (merge_loop xs (y # ys) (k + 1))
       else and_then (put_slot k y f) (merge_loop (x # xs) ys (k + 1)))"
| "merge_loop (x # xs) [] k f = and_then (put_slot k x f) (merge_loop xs [] (k + 1))"
| "merge_loop [] (y # ys) k f = and_then (put_slot k y f) (merge_loop [] ys (k + 1))"
| "merge_loop [] [] k f = Done f"

definition merge :: "parameter \<Rightarrow> parameter \<Rightarrow> filtered_movies \<Rightarrow> filtered_movies res" where
  "merge l r f =
     (let n1 = right l - left l + 1; n2 = right r - left r + 1 in
      and_then (copy_slots (nat n1) (left l) f) (\<lambda>ls.
      and_then (copy_slots (nat n2) (left r) f) (\<lambda>rs.
        merge_loop ls rs (left l) f)))"

section \<open>filter\<close>

text \<open>\<open>memcpy (dst, src, MAX_LEN)\<close> of a string: a longer one loses its end.\<close>

definition copy_title :: "string \<Rightarrow> string res" where
  "copy_title s = (if length s < MAX_LEN then Done s else Stop Bad_memory)"

definition add_scores :: "double \<Rightarrow> double list \<Rightarrow> double list \<Rightarrow> double" where
  "add_scores s p q = foldl (\<lambda>s j. d_add s (d_mult (p ! j) (q ! j))) s [0..<NUM_OF_GENRE]"

definition add_movie :: "build \<Rightarrow> request \<Rightarrow> movie_profile \<Rightarrow> filtered_movies \<Rightarrow> filtered_movies res" where
  "add_movie b key m f =
     and_then (if b = PROCESS then copy_title (m_title m) else Done (m_title m)) (\<lambda>t.
     and_then (get_slot (filtered_num f) f) (\<lambda>x.
     and_then (put_slot (filtered_num f) (Some t, add_scores (snd x) (q_profile key) (m_profile m)) f) (\<lambda>f'.
       Done (f'\<lparr>filtered_num := filtered_num f' + 1\<rparr>))))"

definition wanted :: "request \<Rightarrow> movie_profile \<Rightarrow> bool" where
  "wanted key m \<longleftrightarrow> strcmp (q_keywords key) ''*'' = 0 \<or> strstr (m_title m) (q_keywords key) \<noteq> None"

fun filter_loop :: "build \<Rightarrow> request \<Rightarrow> movie_profile list \<Rightarrow> filtered_movies \<Rightarrow> filtered_movies res" where
  "filter_loop b key [] f = Done f"
| "filter_loop b key (m # ms) f =
     (if wanted key m then and_then (add_movie b key m f) (filter_loop b key ms) else filter_loop b key ms f)"

text \<open>
  \<open>raw\<close> is what \<open>malloc\<close> left in the block of a \<open>THREAD\<close> server; shared memory
  starts as zeros, with a buffer for every title.
\<close>

definition new_filtered :: "build \<Rightarrow> filtered_movies \<Rightarrow> filtered_movies" where
  "new_filtered b raw =
     (case b of
        THREAD \<Rightarrow> raw\<lparr>filtered_num := 0\<rparr>
      | PROCESS \<Rightarrow> \<lparr>filtered_num = 0, title = replicate MAX_MOVIES (Some []), scores = replicate MAX_MOVIES d_zero\<rparr>)"

definition filter_movies :: "build \<Rightarrow> filtered_movies \<Rightarrow> movie_profile list \<Rightarrow> request \<Rightarrow> filtered_movies res" where
  "filter_movies b raw movies key = filter_loop b key movies (new_filtered b raw)"

section \<open>Merge sort\<close>

text \<open>
  The part of the arrays a call of the library gets, and its result written
  back. When the part has no element the library only changes
  \<open>movies[size - 1]\<close>, which is \<open>title[right]\<close> here.
\<close>

definition splice :: "nat \<Rightarrow> 'a list \<Rightarrow> 'a list \<Rightarrow> 'a list" where
  "splice l xs ys = take l ys @ xs @ drop (l + length xs) ys"

definition sort_part :: "nat \<Rightarrow> int \<Rightarrow> int \<Rightarrow> filtered_movies \<Rightarrow> filtered_movies res" where
  "sort_part num l r f =
     (let n = r - l + 1 in
      if n \<le> 0 then
        (if 0 \<le> r \<and> nat r < length (title f)
         then and_then (mark (nat r) (title f)) (\<lambda>movies. Done (f\<lparr>title := movies\<rparr>))
         else Stop Bad_memory)
      else if l < 0 \<or> nat (l + n) > length (title f) \<or> nat (l + n) > length (scores f) then Stop Bad_memory
      else
        and_then (sort_lib num (take (nat n) (drop (nat l) (title f))) (take (nat n) (drop (nat l) (scores f))) n)
          (\<lambda>(movies, pts). Done (f\<lparr>title := splice (nat l) movies (title f), scores := splice (nat l) pts (scores f)\<rparr>)))"

datatype half_order = Left_first | Right_first | Left_lost

text \<open>
  One half after the other; in \<open>THREAD\<close> the left half is a new thread when
  \<open>num_of_threads\<close> allows it, otherwise the same thread sorts left and right.
  \<open>Left_lost\<close>: \<open>pthread_create\<close> or \<open>fork\<close> failed, which the code does not
  notice, and the left half stays as it is.
\<close>

definition both_halves :: "half_order \<Rightarrow> ('s \<Rightarrow> 's res) \<Rightarrow> ('s \<Rightarrow> 's res) \<Rightarrow> 's \<Rightarrow> 's res" where
  "both_halves ord sort_left sort_right s =
     (case ord of
        Left_first \<Rightarrow> and_then (sort_left s) sort_right
      | Right_first \<Rightarrow> and_then (sort_right s) sort_left
      | Left_lost \<Rightarrow> sort_right s)"

function thread_merge_sort ::
  "(parameter \<Rightarrow> nat \<times> half_order) \<Rightarrow> nat \<Rightarrow> parameter \<Rightarrow> filtered_movies \<Rightarrow> filtered_movies res" where
  "thread_merge_sort env num key f =
     (if depth key \<ge> MAX_DEPTH \<or> right key = left key then sort_part num (left key) (right key) f
      else
        let mid = (right key + left key) sdiv 2;
            leftmerge = addparameter (left key) mid (depth key + 1);
            rightmerge = addparameter (mid + 1) (right key) (depth key + 1);
            (num_of_threads, ord) = env key
        in and_then
             (both_halves (if num_of_threads < MAX_THREAD then ord else Left_first)
                (thread_merge_sort env num leftmerge) (thread_merge_sort env num rightmerge) f)
             (merge leftmerge rightmerge))"
  by pat_completeness auto
termination
  by (relation "measure (\<lambda>(env, num, key, f). nat (MAX_DEPTH - depth key))") (auto simp: addparameter_def MAX_DEPTH_def)

declare thread_merge_sort.simps [simp del]

text \<open>The leaf of \<open>PROCESS\<close> sorts a private copy and copies the titles back.\<close>

fun copy_titles :: "string option list \<Rightarrow> (string option list) res" where
  "copy_titles [] = Done []"
| "copy_titles (p # ps) =
     and_then (deref_str p) (\<lambda>s. and_then (copy_title s) (\<lambda>t. and_then (copy_titles ps) (\<lambda>ts. Done (Some t # ts))))"

definition sort_copy :: "nat \<Rightarrow> int \<Rightarrow> int \<Rightarrow> filtered_movies \<Rightarrow> filtered_movies res" where
  "sort_copy num l r f =
     (let n = r - l + 1 in
      if 0 < n \<and> (l < 0 \<or> nat (l + n) > length (title f) \<or> nat (l + n) > length (scores f)) then Stop Bad_memory
      else
        and_then (copy_titles (take (nat n) (drop (nat l) (title f)))) (\<lambda>temp.
        and_then (sort_lib num temp (take (nat n) (drop (nat l) (scores f))) n) (\<lambda>(movies, pts).
        and_then (copy_titles movies) (\<lambda>back.
          Done (f\<lparr>title := splice (nat l) back (title f), scores := splice (nat l) pts (scores f)\<rparr>)))))"

function process_merge_sort ::
  "(parameter \<Rightarrow> half_order) \<Rightarrow> nat \<Rightarrow> parameter \<Rightarrow> filtered_movies \<Rightarrow> filtered_movies res" where
  "process_merge_sort env num key f =
     (if depth key \<ge> MAX_DEPTH \<or> right key - left key < 1024 then sort_copy num (left key) (right key) f
      else
        let mid = (right key + left key) sdiv 2;
            leftmerge = addparameter (left key) mid (depth key + 1);
            rightmerge = addparameter (mid + 1) (right key) (depth key + 1)
        in and_then
             (both_halves (env key) (process_merge_sort env num leftmerge) (process_merge_sort env num rightmerge) f)
             (merge leftmerge rightmerge))"
  by pat_completeness auto
termination
  by (relation "measure (\<lambda>(env, num, key, f). nat (MAX_DEPTH - depth key))") (auto simp: addparameter_def MAX_DEPTH_def)

declare process_merge_sort.simps [simp del]

section \<open>Requests\<close>

text \<open>The name and the contents of the output file.\<close>

fun write_titles :: "string option list \<Rightarrow> string res" where
  "write_titles [] = Done []"
| "write_titles (p # ps) = and_then (deref_str p) (\<lambda>s. and_then (write_titles ps) (\<lambda>out. Done (s @ [LF] @ out)))"

definition output_file :: "string \<Rightarrow> cint \<Rightarrow> filtered_movies \<Rightarrow> (string \<times> string) res" where
  "output_file ending i f =
     and_then (write_titles (take (nat (filtered_num f)) (title f))) (\<lambda>out. Done (fmt_d i @ ending, out))"

definition handle_request ::
  "(parameter \<Rightarrow> nat \<times> half_order) \<Rightarrow> filtered_movies \<Rightarrow> movie_profile list \<Rightarrow> request \<Rightarrow> (string \<times> string) res" where
  "handle_request env raw movies key =
     and_then (filter_movies THREAD raw movies key) (\<lambda>afterfilter.
     and_then (thread_merge_sort env (length movies) (addparameter 0 (filtered_num afterfilter - 1) 0) afterfilter) (\<lambda>f.
       output_file ''t.out'' (q_id key) f))"

text \<open>
  A \<open>THREAD\<close> server runs a thread for every request; the process dies with the
  first of them that stops. A \<open>PROCESS\<close> server serves the first request.
\<close>

fun serve_all ::
  "(nat \<Rightarrow> parameter \<Rightarrow> nat \<times> half_order) \<Rightarrow> (nat \<Rightarrow> filtered_movies) \<Rightarrow> movie_profile list \<Rightarrow> nat \<Rightarrow> request list
     \<Rightarrow> ((string \<times> string) list) res" where
  "serve_all env raw movies i [] = Done []"
| "serve_all env raw movies i (q # qs) =
     and_then (handle_request (env i) (raw i) movies q) (\<lambda>x.
     and_then (serve_all env raw movies (Suc i) qs) (\<lambda>xs. Done (x # xs)))"

definition serve_process :: "(parameter \<Rightarrow> half_order) \<Rightarrow> movie_profile list \<Rightarrow> request list \<Rightarrow> (string \<times> string) res" where
  "serve_process env movies reqs =
     (case reqs of [] \<Rightarrow> Stop Bad_memory
      | key # _ \<Rightarrow>
          and_then (filter_movies PROCESS \<lparr>filtered_num = 0, title = [], scores = []\<rparr> movies key) (\<lambda>afterfilter.
          and_then (process_merge_sort env (length movies) (addparameter 0 (filtered_num afterfilter - 1) 0) afterfilter) (\<lambda>f.
            output_file ''p.out'' (q_id key) f)))"

end
