(* ===== verification/Movies_Sort.thy ===== *)
theory Movies_Sort
  imports Movies_Server
begin

text \<open>
  The merge sorts of the movie server. \<open>holds\<close> says that a part of the arrays
  holds a list of entries, \<open>place\<close> puts one there; \<open>emerge\<close> is the merge on
  lists of entries that \<open>merge\<close> implements, and \<open>thread_sorts\<close> and
  \<open>process_sorts\<close> show that both sorts, whatever the order of the halves,
  return the entries in the order of their ranks with the secret appended.
\<close>

section \<open>Parts of the arrays\<close>

definition in_arrays :: "nat \<Rightarrow> nat \<Rightarrow> filtered_movies \<Rightarrow> bool" where
  "in_arrays l n f \<longleftrightarrow> l + n \<le> length (title f) \<and> l + n \<le> length (scores f)"

definition holds :: "(string \<Rightarrow> string) \<Rightarrow> nat \<Rightarrow> entry list \<Rightarrow> filtered_movies \<Rightarrow> bool" where
  "holds mk l es f \<longleftrightarrow> in_arrays l (length es) f
     \<and> take (length es) (drop l (title f)) = map (Some \<circ> mk \<circ> fst) es
     \<and> take (length es) (drop l (scores f)) = map snd es"

definition place :: "(string \<Rightarrow> string) \<Rightarrow> nat \<Rightarrow> entry list \<Rightarrow> filtered_movies \<Rightarrow> filtered_movies" where
  "place mk l es f = f\<lparr>title := splice l (map (Some \<circ> mk \<circ> fst) es) (title f),
     scores := splice l (map snd es) (scores f)\<rparr>"

definition slot_of :: "(string \<Rightarrow> string) \<Rightarrow> entry \<Rightarrow> slot" where
  "slot_of mk x = (Some (mk (fst x)), snd x)"

lemma length_splice [simp]: "l + length xs \<le> length ys \<Longrightarrow> length (splice l xs ys) = length ys"
  by (simp add: splice_def)

lemma splice_Nil [simp]: "splice l [] ys = ys"
  by (simp add: splice_def)

lemma nth_splice:
  "l + length xs \<le> length ys \<Longrightarrow> i < length ys \<Longrightarrow>
     splice l xs ys ! i = (if l \<le> i \<and> i < l + length xs then xs ! (i - l) else ys ! i)"
  by (auto simp: splice_def nth_append)

lemma splice_eqI:
  assumes "length zs = length ys" and "l + length xs \<le> length ys"
    and "\<And>i. i < length ys \<Longrightarrow> zs ! i = (if l \<le> i \<and> i < l + length xs then xs ! (i - l) else ys ! i)"
  shows "zs = splice l xs ys"
  using assms by (intro nth_equalityI) (simp_all add: nth_splice)

lemma splice_Cons: "k < length ys \<Longrightarrow> Suc k + length zs \<le> length ys \<Longrightarrow>
    splice (Suc k) zs (ys[k := x]) = splice k (x # zs) ys"
  by (rule splice_eqI) (auto simp: nth_splice nth_list_update nth_Cons')

lemma splice_append:
  "l + length xs + length zs \<le> length ys \<Longrightarrow> splice l xs (splice (l + length xs) zs ys) = splice l (xs @ zs) ys"
  "l + length xs + length zs \<le> length ys \<Longrightarrow> splice (l + length xs) zs (splice l xs ys) = splice l (xs @ zs) ys"
  by (rule splice_eqI; auto simp: nth_splice nth_append)+

lemma splice_again: "length xs = length zs \<Longrightarrow> l + length xs \<le> length ys \<Longrightarrow> splice l xs (splice l zs ys) = splice l xs ys"
  by (rule splice_eqI) (auto simp: nth_splice)

lemma part_splice [simp]: "l + length xs \<le> length ys \<Longrightarrow> take (length xs) (drop l (splice l xs ys)) = xs"
  by (simp add: splice_def)

lemma part_splice_other:
  assumes "l + length xs \<le> length ys" and "m + n \<le> l \<or> l + length xs \<le> m" and "m + n \<le> length ys"
  shows "take n (drop m (splice l xs ys)) = take n (drop m ys)"
  using assms by (intro nth_equalityI) (auto simp: nth_splice)

lemma in_arrays_place [simp]:
  "in_arrays l (length es) f \<Longrightarrow> in_arrays m n (place mk l es f) = in_arrays m n f"
  by (simp add: in_arrays_def place_def)

lemma holds_place: "in_arrays l (length es) f \<Longrightarrow> holds mk l es (place mk l es f)"
proof -
  assume a: "in_arrays l (length es) f"
  then have "take (length es) (drop l (splice l (map (Some \<circ> mk \<circ> fst) es) (title f))) = map (Some \<circ> mk \<circ> fst) es"
    "take (length es) (drop l (splice l (map snd es) (scores f))) = map snd es"
    using part_splice [of l "map (Some \<circ> mk \<circ> fst) es" "title f"] part_splice [of l "map snd es" "scores f"]
    by (simp_all add: in_arrays_def)
  with a show ?thesis by (simp add: holds_def) (simp add: place_def)
qed

lemma holds_place_other:
  assumes "in_arrays l (length es) f" and "m + length es' \<le> l \<or> l + length es \<le> m"
  shows "holds mk' m es' (place mk l es f) \<longleftrightarrow> holds mk' m es' f"
proof (cases "in_arrays m (length es') f")
  case True
  then have "take (length es') (drop m (splice l (map (Some \<circ> mk \<circ> fst) es) (title f))) = take (length es') (drop m (title f))"
    "take (length es') (drop m (splice l (map snd es) (scores f))) = take (length es') (drop m (scores f))"
    using assms by (simp_all add: part_splice_other in_arrays_def)
  with assms(1) show ?thesis by (simp add: holds_def) (simp add: place_def)
qed (use assms(1) in \<open>simp add: holds_def\<close>)

lemma place_append:
  assumes "in_arrays l (length es + length es') f"
  shows "place mk l es (place mk (l + length es) es' f) = place mk l (es @ es') f"
    and "place mk (l + length es) es' (place mk l es f) = place mk l (es @ es') f"
  using assms splice_append [of l "map (Some \<circ> mk \<circ> fst) es" "map (Some \<circ> mk \<circ> fst) es'" "title f"]
    splice_append [of l "map snd es" "map snd es'" "scores f"]
  by (simp_all add: place_def in_arrays_def add.assoc)

lemma place_again:
  "length es = length es' \<Longrightarrow> in_arrays l (length es) f \<Longrightarrow> place mk l es (place mk l es' f) = place mk l es f"
  by (simp add: place_def in_arrays_def splice_again)

lemma part_append:
  assumes "length xs = m" and "l + m \<le> length ys"
  shows "take (m + n) (drop l ys) = xs @ zs \<longleftrightarrow> take m (drop l ys) = xs \<and> take n (drop (l + m) ys) = zs"
proof -
  have "take (m + n) (drop l ys) = take m (drop l ys) @ take n (drop (l + m) ys)"
    by (simp add: take_add add.commute)
  moreover have "length (take m (drop l ys)) = length xs" using assms by simp
  ultimately show ?thesis by simp
qed

lemma holds_append: "holds mk l (es @ es') f \<longleftrightarrow> holds mk l es f \<and> holds mk (l + length es) es' f"
proof (cases "in_arrays l (length es + length es') f")
  case True
  then show ?thesis
    using part_append [of "map (Some \<circ> mk \<circ> fst) es" "length es" l "title f"]
      part_append [of "map snd es" "length es" l "scores f"]
    by (auto simp: holds_def in_arrays_def)
next
  case False
  then show ?thesis by (auto simp: holds_def in_arrays_def)
qed

section \<open>merge on entries\<close>

fun emerge :: "entry list \<Rightarrow> entry list \<Rightarrow> entry list" where
  "emerge (x # xs) (y # ys) =
     (if rank x < rank y then x # emerge xs (y # ys) else y # emerge (x # xs) ys)"
| "emerge xs [] = xs"
| "emerge [] ys = ys"

lemma mset_emerge [simp]: "mset (emerge xs ys) = mset xs + mset ys"
  by (induction xs ys rule: emerge.induct) simp_all

lemma set_emerge [simp]: "set (emerge xs ys) = set xs \<union> set ys"
  by (induction xs ys rule: emerge.induct) auto

lemma length_emerge [simp]: "length (emerge xs ys) = length xs + length ys"
  by (induction xs ys rule: emerge.induct) simp_all

lemma sorted_emerge:
  "sorted (map rank xs) \<Longrightarrow> sorted (map rank ys) \<Longrightarrow> sorted (map rank (emerge xs ys))"
proof (induction xs ys rule: emerge.induct)
  case (1 x xs y ys)
  then show ?case by (auto simp: not_less intro: order_trans less_imp_le)
qed simp_all

text \<open>
  Titles whose characters all come after the tab keep their order when the
  secret, which starts with a tab, is appended.
\<close>

definition plain :: "string \<Rightarrow> bool" where
  "plain t \<longleftrightarrow> list_all (\<lambda>c. 9 < char_code c) t"

lemma strcmp_secret:
  "plain t \<Longrightarrow> plain u \<Longrightarrow> strcmp (secret t) (secret u) < 0 \<longleftrightarrow> strcmp t u < 0"
proof (induction t u rule: strcmp.induct)
  case (2 y ys)
  then have "char_code CHR 0x09 < char_code y" by (simp add: plain_def char_code_def)
  then show ?case by (auto simp: secret_def secret_key_def)
next
  case (3 x xs)
  then have "char_code CHR 0x09 < char_code x" by (simp add: plain_def char_code_def)
  then show ?case by (auto simp: secret_def secret_key_def)
next
  case (4 x xs y ys)
  then show ?case by (simp add: plain_def secret_def)
qed simp

lemma takes_left_rank:
  assumes "snd x \<noteq> Nan" and "snd y \<noteq> Nan" and "plain (fst x)" and "plain (fst y)"
  shows "takes_left (slot_of secret x) (slot_of secret y) = Done (rank x < rank y)"
proof -
  obtain t s u r where xy: "x = (t, s)" "y = (u, r)" by fastforce
  have "rank x < rank y \<longleftrightarrow> d_less r s \<or> (d_eq s r \<and> strcmp t u < 0)"
    using rank_less [of s r t u] assms xy by simp
  moreover have "\<not> d_eq s r" if "d_less r s \<or> d_less s r"
    using that assms xy by (auto simp: d_less_key d_eq_key key_less_def)
  moreover have "d_eq s r" if "\<not> d_less r s" "\<not> d_less s r" using that d_trichotomy [of s r] assms xy by auto
  moreover have "\<not> (d_less r s \<and> d_less s r)" using d_less_trans d_less_irrefl by blast
  ultimately show ?thesis
    using strcmp_secret [of t u] assms xy by (auto simp: takes_left_def slot_of_def deref_str_def)
qed

lemma put_slot_of:
  assumes "k < length (title f)" and "k < length (scores f)"
  shows "put_slot (int k) (slot_of mk x) f = Done (place mk k [x] f)"
  using assms by (simp add: put_slot_def slot_of_def place_def splice_def upd_conv_take_nth_drop)

lemma merge_loop_emerge:
  assumes "\<forall>x\<in>set xs \<union> set ys. snd x \<noteq> Nan \<and> plain (fst x)" and "in_arrays k (length xs + length ys) f"
  shows "merge_loop (map (slot_of secret) xs) (map (slot_of secret) ys) (int k) f = Done (place secret k (emerge xs ys) f)"
  using assms
proof (induction xs ys arbitrary: k f rule: emerge.induct)
  have put: "put_slot (int k) (slot_of secret z) f = Done (place secret k [z] f)"
    "place secret (Suc k) zs (place secret k [z] f) = place secret k (z # zs) f"
    "in_arrays (Suc k) (length zs) (place secret k [z] f)"
    if "in_arrays k (Suc (length zs)) f" for k f z zs
    using that put_slot_of [of k f secret z] place_append(2) [of k "[z]" zs f secret] by (auto simp: in_arrays_def)
      (simp_all add: place_def splice_def)
  have Suc_int: "int k + 1 = int (Suc k)" for k by simp
  {
    case (1 x xs y ys)
    have tl: "takes_left (slot_of secret x) (slot_of secret y) = Done (rank x < rank y)"
      by (rule takes_left_rank) (use 1(3) in auto)
    show ?case
    proof (cases "rank x < rank y")
      case True
      let ?zs = "emerge xs (y # ys)"
      have p: "in_arrays k (Suc (length ?zs)) f" using 1(4) by simp
      show ?thesis
        using 1(1) [OF True, of "Suc k" "place secret k [x] f"] 1(3,4) put [OF p, of x] tl True by (simp add: Suc_int)
    next
      case False
      let ?zs = "emerge (x # xs) ys"
      have p: "in_arrays k (Suc (length ?zs)) f" using 1(4) by simp
      show ?thesis
        using 1(2) [OF False, of "Suc k" "place secret k [y] f"] 1(3,4) put [OF p, of y] tl False by (simp add: Suc_int)
    qed
  next
    case (2 xs)
    then show ?case
    proof (induction xs arbitrary: k f)
      case (Cons x xs)
      have p: "in_arrays k (Suc (length xs)) f" using Cons.prems(2) by simp
      show ?case using Cons.IH [of "Suc k" "place secret k [x] f"] Cons.prems put [OF p, of x] by (simp add: Suc_int)
    qed (simp add: place_def)
  next
    case (3 y ys)
    have "merge_loop [] (map (slot_of secret) zs) (int k) f = Done (place secret k zs f)"
      if "in_arrays k (length zs) f" for zs k f
      using that
    proof (induction zs arbitrary: k f)
      case (Cons z zs)
      have p: "in_arrays k (Suc (length zs)) f" using Cons.prems by simp
      show ?case using Cons.IH [of "Suc k" "place secret k [z] f"] put [OF p, of z] by (simp add: Suc_int)
    qed (simp add: place_def)
    from this [of k "y # ys" f] 3 show ?case by simp
  }
qed

lemma copy_slots_nth:
  assumes "in_arrays l n f"
  shows "copy_slots n (int l) f = Done (map (\<lambda>i. (title f ! (l + i), scores f ! (l + i))) [0..<n])"
  using assms
proof (induction n arbitrary: l)
  case (Suc n)
  have "copy_slots n (int (Suc l)) f = Done (map (\<lambda>i. (title f ! (Suc l + i), scores f ! (Suc l + i))) [0..<n])"
    using Suc by (intro Suc.IH) (simp add: in_arrays_def)
  moreover have "map (\<lambda>i. (title f ! (l + i), scores f ! (l + i))) [0..<Suc n] =
      (title f ! l, scores f ! l) # map (\<lambda>i. (title f ! (Suc l + i), scores f ! (Suc l + i))) [0..<n]"
    by (simp add: upt_conv_Cons del: upt_Suc) (simp add: map_Suc_upt [symmetric] o_def del: upt_Suc)
  ultimately show ?case using Suc.prems by (simp add: get_slot_def in_arrays_def add.commute)
qed simp

lemma holds_nth:
  assumes "holds mk l es f" and "i < length es"
  shows "title f ! (l + i) = Some (mk (fst (es ! i)))" and "scores f ! (l + i) = snd (es ! i)"
proof -
  have "take (length es) (drop l (title f)) ! i = Some (mk (fst (es ! i)))"
    "take (length es) (drop l (scores f)) ! i = snd (es ! i)"
    using assms by (simp_all add: holds_def)
  then show "title f ! (l + i) = Some (mk (fst (es ! i)))" and "scores f ! (l + i) = snd (es ! i)"
    using assms by (simp_all add: holds_def in_arrays_def)
qed

lemma copy_slots_holds:
  assumes "holds mk l es f"
  shows "copy_slots (length es) (int l) f = Done (map (slot_of mk) es)"
proof -
  have "map (\<lambda>i. (title f ! (l + i), scores f ! (l + i))) [0..<length es] = map (slot_of mk) es"
    using holds_nth [OF assms] by (intro nth_equalityI) (simp_all add: slot_of_def)
  then show ?thesis using copy_slots_nth [of l "length es" f] assms by (simp add: holds_def)
qed

lemma merge_emerge:
  assumes "holds secret l (xs @ ys) f" and "\<forall>x\<in>set (xs @ ys). snd x \<noteq> Nan \<and> plain (fst x)" and "xs \<noteq> []"
  shows "merge (addparameter (int l) (int l + int (length xs) - 1) d)
      (addparameter (int l + int (length xs)) (int l + int (length xs) + int (length ys) - 1) e) f =
    Done (place secret l (emerge xs ys) f)"
proof -
  have h: "holds secret l xs f" "holds secret (l + length xs) ys f" "in_arrays l (length xs + length ys) f"
    using assms(1) by (simp_all add: holds_append) (simp_all add: holds_def in_arrays_def)
  show ?thesis
    using copy_slots_holds [OF h(1)] copy_slots_holds [OF h(2)] merge_loop_emerge [of xs ys l f] assms(2) h(3)
    by (simp add: merge_def addparameter_def Let_def)
qed

section \<open>The two merge sorts\<close>

text \<open>What a sort may be given: marked titles must fit into \<open>room\<close> bytes.\<close>

definition sortable :: "nat \<Rightarrow> entry list \<Rightarrow> bool" where
  "sortable room es \<longleftrightarrow> (\<forall>x\<in>set es. good_entry x \<and> plain (fst x) \<and> length (fst x) + length secret_key < room)"

lemma sortable_append [simp]: "sortable room (xs @ ys) \<longleftrightarrow> sortable room xs \<and> sortable room ys"
  by (auto simp: sortable_def)

lemma sortable_mset: "mset xs = mset ys \<Longrightarrow> sortable room xs = sortable room ys"
  unfolding sortable_def by (metis set_mset_mset)

definition sorts_to :: "entry list \<Rightarrow> entry list \<Rightarrow> bool" where
  "sorts_to es es' \<longleftrightarrow> mset es' = mset es \<and> sorted (map rank es')"

lemma sorts_to_length: "sorts_to es es' \<Longrightarrow> length es' = length es"
  unfolding sorts_to_def by (metis size_mset)

lemma emerge_sorts_to:
  "sorts_to xs xs' \<Longrightarrow> sorts_to ys ys' \<Longrightarrow> sorts_to (xs @ ys) (emerge xs' ys')"
  by (simp add: sorts_to_def sorted_emerge)

text \<open>\<open>run\<close> sorts the entries \<open>es\<close> wherever it finds them at \<open>l\<close>, always the same way.\<close>

definition sorts_part :: "(filtered_movies \<Rightarrow> filtered_movies res) \<Rightarrow> nat \<Rightarrow> entry list \<Rightarrow> bool" where
  "sorts_part run l es \<longleftrightarrow> (\<exists>es'. sorts_to es es' \<and>
     (\<forall>f. holds id l es f \<longrightarrow> run f = Done (place secret l es' f)))"

lemma holds_parts:
  assumes "holds id l es f"
  shows "take (length es) (drop l (title f)) = map (Some \<circ> fst) es"
    and "take (length es) (drop l (scores f)) = map snd es"
    and "l + length es \<le> length (title f)" and "l + length es \<le> length (scores f)"
  using assms by (simp_all add: holds_def o_def in_arrays_def)

lemma sort_part_correct:
  assumes es: "es \<noteq> []" "sortable room es" and num: "length es \<le> num"
  shows "sorts_part (sort_part num (int l) (int l + int (length es) - 1)) l es"
proof -
  obtain es' where s: "sort_lib num (map (Some \<circ> fst) es) (map snd es) (int (length es)) =
      Done (map (Some \<circ> secret \<circ> fst) es', map snd es')" "mset es' = mset es" "sorted (map rank es')"
    using sort_lib_correct [OF es(1) _ num] es(2) by (auto simp: sortable_def)
  have "sort_part num (int l) (int l + int (length es) - 1) f = Done (place secret l es' f)"
    if "holds id l es f" for f
    using s(1) es(1) holds_parts [OF that] by (simp add: sort_part_def Let_def place_def nat_add_distrib)
  then show ?thesis using s unfolding sorts_part_def sorts_to_def by blast
qed

lemma copy_titles_correct:
  assumes "\<forall>x\<in>set es. length (mk x) < MAX_LEN"
  shows "copy_titles (map (\<lambda>x. Some (mk x)) es) = Done (map (\<lambda>x. Some (mk x)) es)"
  using assms by (induction es) (simp_all add: deref_str_def copy_title_def)

lemma sort_copy_correct:
  assumes es: "es \<noteq> []" "sortable MAX_LEN es" and num: "length es \<le> num"
  shows "sorts_part (sort_copy num (int l) (int l + int (length es) - 1)) l es"
proof -
  obtain es' where s: "sort_lib num (map (Some \<circ> fst) es) (map snd es) (int (length es)) =
      Done (map (Some \<circ> secret \<circ> fst) es', map snd es')" "mset es' = mset es" "sorted (map rank es')"
    using sort_lib_correct [OF es(1) _ num] es(2) by (auto simp: sortable_def)
  have c1: "copy_titles (map (Some \<circ> fst) es) = Done (map (Some \<circ> fst) es)"
    unfolding o_def by (rule copy_titles_correct) (use es(2) in \<open>auto simp: sortable_def good_entry_def\<close>)
  have c2: "copy_titles (map (Some \<circ> secret \<circ> fst) es') = Done (map (Some \<circ> secret \<circ> fst) es')"
    unfolding o_def by (rule copy_titles_correct)
      (use es(2) sortable_mset [OF s(2)] in \<open>auto simp: sortable_def secret_def\<close>)
  have "sort_copy num (int l) (int l + int (length es) - 1) f = Done (place secret l es' f)"
    if "holds id l es f" for f
    using s(1) c1 c2 holds_parts [OF that] by (simp add: sort_copy_def Let_def place_def nat_add_distrib)
  then show ?thesis using s unfolding sorts_part_def sorts_to_def by blast
qed

text \<open>The halves work on disjoint parts, so their order does not matter.\<close>

lemma both_halves_correct:
  assumes h: "holds id l (xs @ ys) f" and ord: "ord \<noteq> Left_lost" and len: "length xs' = length xs" "length ys' = length ys"
    and L: "\<And>g. holds id l xs g \<Longrightarrow> run_left g = Done (place secret l xs' g)"
    and R: "\<And>g. holds id (l + length xs) ys g \<Longrightarrow> run_right g = Done (place secret (l + length xs) ys' g)"
  shows "both_halves ord run_left run_right f = Done (place secret l (xs' @ ys') f)"
proof -
  have hx: "holds id l xs f" and hy: "holds id (l + length xs) ys f" using h by (simp_all add: holds_append)
  have b: "in_arrays l (length xs') f" "in_arrays (l + length xs) (length ys') f" "in_arrays l (length xs' + length ys') f"
    using h len by (auto simp: holds_def in_arrays_def)
  have "holds id (l + length xs) ys (place secret l xs' f)"
    using hy b(1) len by (simp add: holds_place_other)
  moreover have "holds id l xs (place secret (l + length xs) ys' f)"
    using hx b(2) len by (simp add: holds_place_other)
  ultimately show ?thesis
    using L [OF hx] R [OF hy] L R place_append [OF b(3), of secret] len ord by (cases ord) (simp_all add: both_halves_def)
qed

text \<open>One level of either sort: halves, then merge.\<close>

lemma split_level:
  assumes ok: "sortable room (xs @ ys)" and xs: "xs \<noteq> []" and ord: "ord \<noteq> Left_lost"
    and L: "sorts_part run_left l xs" and R: "sorts_part run_right (l + length xs) ys"
  shows "sorts_part (\<lambda>f. and_then (both_halves ord run_left run_right f)
      (merge (addparameter (int l) (int l + int (length xs) - 1) d)
        (addparameter (int l + int (length xs)) (int l + int (length xs) + int (length ys) - 1) d))) l (xs @ ys)"
proof -
  obtain xs' where sx: "sorts_to xs xs'" and rx: "\<And>g. holds id l xs g \<Longrightarrow> run_left g = Done (place secret l xs' g)"
    using L unfolding sorts_part_def by blast
  obtain ys' where sy: "sorts_to ys ys'"
    and ry: "\<And>g. holds id (l + length xs) ys g \<Longrightarrow> run_right g = Done (place secret (l + length xs) ys' g)"
    using R unfolding sorts_part_def by blast
  have len: "length xs' = length xs" "length ys' = length ys" using sx sy sorts_to_length by blast+
  have "mset (xs' @ ys') = mset (xs @ ys)" using sx sy by (simp add: sorts_to_def)
  then have "sortable room (xs' @ ys')" using ok sortable_mset by blast
  then have plain: "\<forall>x\<in>set (xs' @ ys'). snd x \<noteq> Nan \<and> plain (fst x)"
    unfolding sortable_def good_entry_def using d_nonneg_not_Nan by blast
  have ne: "xs' \<noteq> []" using xs len by auto
  have "and_then (both_halves ord run_left run_right f)
      (merge (addparameter (int l) (int l + int (length xs) - 1) d)
        (addparameter (int l + int (length xs)) (int l + int (length xs) + int (length ys) - 1) d)) =
      Done (place secret l (emerge xs' ys') f)" if h: "holds id l (xs @ ys) f" for f
  proof -
    let ?g = "place secret l (xs' @ ys') f"
    have b: "in_arrays l (length xs' + length ys') f" using h len by (simp add: holds_def)
    have "holds secret l (xs' @ ys') ?g" using b by (intro holds_place) simp
    from merge_emerge [OF this plain ne, of d d]
    have "merge (addparameter (int l) (int l + int (length xs) - 1) d)
        (addparameter (int l + int (length xs)) (int l + int (length xs) + int (length ys) - 1) d) ?g =
      Done (place secret l (emerge xs' ys') ?g)" by (simp add: len)
    also have "place secret l (emerge xs' ys') ?g = place secret l (emerge xs' ys') f"
      using b by (intro place_again) simp_all
    finally show ?thesis using both_halves_correct [OF h ord len rx ry] by simp
  qed
  then show ?thesis using emerge_sorts_to [OF sx sy] unfolding sorts_part_def by blast
qed

text \<open>The middle the code computes.\<close>

lemma mid_split:
  assumes "2 \<le> m" and "n = (m + 1) div 2"
  shows "(int l + int m - 1 + int l) sdiv 2 = int l + int n - 1" and "0 < n" and "n < m"
proof -
  have "(int l + int m - 1 + int l) sdiv 2 = (int l + int m - 1 + int l) div 2"
    using assms(1) by (simp add: signed_divide_int_def sgn_if)
  also have "\<dots> = int l + int n - 1" using assms by linarith
  finally show "(int l + int m - 1 + int l) sdiv 2 = int l + int n - 1" .
  show "0 < n" and "n < m" using assms by auto
qed

text \<open>Either sort, by induction on the depth left.\<close>

lemma split_at_mid:
  assumes ok: "sortable room es" and two: "2 \<le> length es" and ord: "ord \<noteq> Left_lost"
    and n: "n = (length es + 1) div 2"
    and L: "sorts_part run_left l (take n es)" and R: "sorts_part run_right (l + n) (drop n es)"
  shows "sorts_part (\<lambda>f. and_then (both_halves ord run_left run_right f)
      (merge (addparameter (int l) ((int l + int (length es) - 1 + int l) sdiv 2) d)
        (addparameter ((int l + int (length es) - 1 + int l) sdiv 2 + 1) (int l + int (length es) - 1) d))) l es"
proof -
  note mid = mid_split(1) [OF two n, of l] mid_split(2,3) [OF two n]
  have len: "length (take n es) = n" "length (drop n es) = length es - n" using mid by simp_all
  have split: "sortable room (take n es @ drop n es)" "take n es \<noteq> []" using ok mid two by auto
  have "int l + int n + int (length es - n) - 1 = int l + int (length es) - 1" using mid by simp
  moreover have "int l + int n - 1 + 1 = int l + int n" by simp
  ultimately show ?thesis
    using split_level [OF split ord L, where run_right = run_right and d = d] R unfolding len mid(1) append_take_drop_id by simp
qed

lemma thread_sorts:
  assumes env: "\<And>key. snd (env key) \<noteq> Left_lost"
  shows "sortable room es \<Longrightarrow> length es \<le> num \<Longrightarrow> es \<noteq> [] \<Longrightarrow>
    sorts_part (thread_merge_sort env num (addparameter (int l) (int l + int (length es) - 1) d)) l es"
proof (induction "nat (MAX_DEPTH - d)" arbitrary: d l es rule: less_induct)
  case less
  let ?key = "addparameter (int l) (int l + int (length es) - 1) d"
  show ?case
  proof (cases "d \<ge> MAX_DEPTH \<or> length es = 1")
    case True
    then have "thread_merge_sort env num ?key = sort_part num (int l) (int l + int (length es) - 1)"
      using less.prems(3) by (intro ext, subst thread_merge_sort.simps) (auto simp: addparameter_def)
    then show ?thesis using sort_part_correct [OF less.prems(3,1,2)] by simp
  next
    case False
    then have two: "2 \<le> length es" using less.prems(3) by (cases es) (auto simp: Suc_le_eq)
    define n where n: "n = (length es + 1) div 2"
    note mid = mid_split(1) [OF two n, of l] mid_split(2,3) [OF two n]
    let ?ord = "if fst (env ?key) < MAX_THREAD then snd (env ?key) else Left_first"
    have ord: "?ord \<noteq> Left_lost" using env by simp
    have parts: "sortable room (take n es)" "sortable room (drop n es)"
      using less.prems(1) by (auto simp: sortable_def dest: in_set_takeD in_set_dropD)
    have d: "nat (MAX_DEPTH - (d + 1)) < nat (MAX_DEPTH - d)" using False by simp
    let ?l = "thread_merge_sort env num (addparameter (int l) ((int l + int (length es) - 1 + int l) sdiv 2) (d + 1))"
    let ?r = "thread_merge_sort env num
      (addparameter ((int l + int (length es) - 1 + int l) sdiv 2 + 1) (int l + int (length es) - 1) (d + 1))"
    have L: "sorts_part ?l l (take n es)"
      using less.hyps [OF d parts(1), of l] less.prems(2,3) mid by simp
    have R: "sorts_part ?r (l + n) (drop n es)"
      using less.hyps [OF d parts(2), of "l + n"] less.prems(2,3) mid by simp
    have "thread_merge_sort env num ?key = (\<lambda>f. and_then (both_halves ?ord ?l ?r f)
      (merge (addparameter (int l) ((int l + int (length es) - 1 + int l) sdiv 2) (d + 1))
        (addparameter ((int l + int (length es) - 1 + int l) sdiv 2 + 1) (int l + int (length es) - 1) (d + 1))))"
      using False two by (intro ext, subst thread_merge_sort.simps)
        (auto simp: addparameter_def Let_def split: prod.splits)
    then show ?thesis using split_at_mid [OF less.prems(1) two ord n L R, of "d + 1"] by simp
  qed
qed

lemma process_sorts:
  assumes env: "\<And>key. env key \<noteq> Left_lost"
  shows "sortable MAX_LEN es \<Longrightarrow> length es \<le> num \<Longrightarrow> es \<noteq> [] \<Longrightarrow>
    sorts_part (process_merge_sort env num (addparameter (int l) (int l + int (length es) - 1) d)) l es"
proof (induction "nat (MAX_DEPTH - d)" arbitrary: d l es rule: less_induct)
  case less
  let ?key = "addparameter (int l) (int l + int (length es) - 1) d"
  show ?case
  proof (cases "d \<ge> MAX_DEPTH \<or> int (length es) - 1 < 1024")
    case True
    then have "process_merge_sort env num ?key = sort_copy num (int l) (int l + int (length es) - 1)"
      by (intro ext, subst process_merge_sort.simps) (auto simp: addparameter_def)
    then show ?thesis using sort_copy_correct [OF less.prems(3,1,2)] by simp
  next
    case False
    then have two: "2 \<le> length es" by simp
    define n where n: "n = (length es + 1) div 2"
    note mid = mid_split(1) [OF two n, of l] mid_split(2,3) [OF two n]
    have parts: "sortable MAX_LEN (take n es)" "sortable MAX_LEN (drop n es)"
      using less.prems(1) by (auto simp: sortable_def dest: in_set_takeD in_set_dropD)
    have d: "nat (MAX_DEPTH - (d + 1)) < nat (MAX_DEPTH - d)" using False by simp
    let ?l = "process_merge_sort env num (addparameter (int l) ((int l + int (length es) - 1 + int l) sdiv 2) (d + 1))"
    let ?r = "process_merge_sort env num
      (addparameter ((int l + int (length es) - 1 + int l) sdiv 2 + 1) (int l + int (length es) - 1) (d + 1))"
    have L: "sorts_part ?l l (take n es)"
      using less.hyps [OF d parts(1), of l] less.prems(2,3) mid by simp
    have R: "sorts_part ?r (l + n) (drop n es)"
      using less.hyps [OF d parts(2), of "l + n"] less.prems(2,3) mid by simp
    have "process_merge_sort env num ?key = (\<lambda>f. and_then (both_halves (env ?key) ?l ?r f)
      (merge (addparameter (int l) ((int l + int (length es) - 1 + int l) sdiv 2) (d + 1))
        (addparameter ((int l + int (length es) - 1 + int l) sdiv 2 + 1) (int l + int (length es) - 1) (d + 1))))"
      using False by (intro ext, subst process_merge_sort.simps) (auto simp: addparameter_def Let_def)
    then show ?thesis using split_at_mid [OF less.prems(1) two env [of ?key] n L R, of "d + 1"] by simp
  qed
qed

end
