(* ===== verification/Movies_Init.thy ===== *)
theory Movies_Init
  imports Movies_Server
begin

text \<open>
  How the movie server starts (server.c): \<open>initialize\<close> reads the data set, one
  movie a line, with \<open>fgets\<close> and \<open>strtok\<close>, \<open>read_request\<close> the requests with
  \<open>scanf\<close>; both normalize the vector of genres. \<open>strtok\<close> returning \<open>NULL\<close> to
  a caller that does not look is \<open>Bad_memory\<close>. The lemmas show that a movie
  printed in the format of the data set is read back.
\<close>

section \<open>Library functions\<close>

definition strtok :: "char \<Rightarrow> string \<Rightarrow> (string \<times> string) option" where
  "strtok d s =
     (case dropWhile (\<lambda>c. c = d) s of
        [] \<Rightarrow> None
      | t \<Rightarrow> Some (takeWhile (\<lambda>c. c \<noteq> d) t, drop 1 (dropWhile (\<lambda>c. c \<noteq> d) t)))"

definition token :: "char \<Rightarrow> string \<Rightarrow> (string \<times> string) res" where
  "token d s = (case strtok d s of None \<Rightarrow> Stop Bad_memory | Some r \<Rightarrow> Done r)"

text \<open>
  \<open>scanf\<close> with \<open>%u\<close> and \<open>%254s\<close>: \<open>None\<close> when nothing is converted. A number that
  does not come leaves the input after white space and a sign.
\<close>

definition scan_u :: "string \<Rightarrow> (cuint \<times> string) option" where
  "scan_u s =
     (case sign_split (dropWhile isspace s) of (neg, r) \<Rightarrow>
        let ds = takeWhile isdigit r; n = min (int (digits_val ds)) (2 ^ 64 - 1)
        in if ds = [] then None else Some (word_of_int (if neg \<and> n = int (digits_val ds) then - n else n), dropWhile isdigit r))"

section \<open>Profiles\<close>

text \<open>\<open>NUM_OF_GENRE\<close> numbers between commas, each token looked at before the next is taken.\<close>

fun read_genres :: "nat \<Rightarrow> string \<Rightarrow> double list res" where
  "read_genres 0 s = Done []"
| "read_genres (Suc n) s =
     and_then (token CHR '','' s) (\<lambda>(t, r). and_then (read_genres n r) (\<lambda>xs. Done (strtod t # xs)))"

definition normalize :: "double list \<Rightarrow> double list" where
  "normalize rs =
     (let sum = d_sqrt (foldl (\<lambda>s r. d_add s (d_mult r r)) d_zero rs)
      in map (\<lambda>r. if d_eq sum d_zero then d_zero else d_div r sum) rs)"

section \<open>The data set\<close>

definition parse_movie :: "string \<Rightarrow> movie_profile res" where
  "parse_movie line =
     (let chunk = cstr line in
      and_then (token CHR '' '' chunk) (\<lambda>(idt, r).
      and_then (token CHR ''{'' r) (\<lambda>(t, r').
      and_then (read_genres NUM_OF_GENRE r') (\<lambda>gs.
        Done \<lparr>movieId = atoi idt, m_title = take (length t - 1) t, m_profile = normalize gs\<rparr>))))"

function read_movies :: "string \<Rightarrow> nat \<Rightarrow> movie_profile list res" where
  "read_movies s cnt =
     (case fgets (MAX_LEN - 1) s of
        None \<Rightarrow> Done []
      | Some (line, r) \<Rightarrow>
          if MAX_MOVIES \<le> cnt then Stop Assert_failed
          else and_then (parse_movie line) (\<lambda>m. and_then (read_movies r (cnt + 1)) (\<lambda>ms. Done (m # ms))))"
  by pat_completeness auto
termination
  by (relation "measure (\<lambda>(s, cnt). length s)") (auto simp: fgets_def Let_def MAX_LEN_def split: if_splits)

declare read_movies.simps [simp del]

section \<open>Requests\<close>

text \<open>\<open>raw\<close> is what the local variables of \<open>read_request\<close> held before.\<close>

definition read_request :: "cint \<times> string \<times> string \<Rightarrow> string \<Rightarrow> (request \<times> string) res" where
  "read_request raw inp =
     (case raw of (id0, b1, b2) \<Rightarrow>
        let (i, buf1, buf2, rest) =
          (case scan_u inp of
             None \<Rightarrow> (id0, b1, b2, snd (sign_split (dropWhile isspace inp)))
           | Some (i, r1) \<Rightarrow>
               (case scan_s (MAX_LEN - 1) r1 of
                  None \<Rightarrow> (i, b1, b2, [])
                | Some (w1, r2) \<Rightarrow>
                    (case scan_s (MAX_LEN - 1) r2 of
                       None \<Rightarrow> (i, w1, b2, [])
                     | Some (w2, r3) \<Rightarrow> (i, w1, w2, r3))))
        in and_then (read_genres NUM_OF_GENRE buf2) (\<lambda>gs.
             Done (\<lparr>q_id = i, q_keywords = buf1, q_profile = normalize gs\<rparr>, rest)))"

fun read_requests :: "(nat \<Rightarrow> cint \<times> string \<times> string) \<Rightarrow> nat \<Rightarrow> string \<Rightarrow> request list res" where
  "read_requests raw 0 inp = Done []"
| "read_requests raw (Suc n) inp =
     and_then (read_request (raw n) inp) (\<lambda>(q, r). and_then (read_requests raw n r) (\<lambda>qs. Done (q # qs)))"

definition MAX_REQ :: nat where "MAX_REQ = 255"

definition initialize :: "(nat \<Rightarrow> cint \<times> string \<times> string) \<Rightarrow> string \<Rightarrow> string \<Rightarrow> (movie_profile list \<times> request list) res" where
  "initialize raw file inp =
     (case fgets (MAX_LEN - 1) file of
        None \<Rightarrow> Stop Exit_failure
      | Some (_, rows) \<Rightarrow>
          and_then (read_movies rows 0) (\<lambda>movies.
            let (num_of_reqs, r) = (case scan_d inp of None \<Rightarrow> (0, snd (sign_split (dropWhile isspace inp))) | Some x \<Rightarrow> x)
            in if MAX_REQ < unat num_of_reqs then Stop Assert_failed
               else and_then (read_requests raw (unat num_of_reqs) r) (\<lambda>reqs. Done (movies, reqs))))"

section \<open>main\<close>

text \<open>\<open>file\<close> is the content of \<open>data/movies.txt\<close>, \<open>None\<close> when it cannot be opened.\<close>

definition tserver_main ::
  "(nat \<Rightarrow> parameter \<Rightarrow> nat \<times> half_order) \<Rightarrow> (nat \<Rightarrow> filtered_movies) \<Rightarrow> (nat \<Rightarrow> cint \<times> string \<times> string)
     \<Rightarrow> nat \<Rightarrow> string option \<Rightarrow> string \<Rightarrow> ((string \<times> string) list) res" where
  "tserver_main env raw vars argc file inp =
     (if argc \<noteq> 1 then Stop Exit_failure
      else case file of
        None \<Rightarrow> Stop Exit_failure
      | Some txt \<Rightarrow> and_then (initialize vars txt inp) (\<lambda>(movies, reqs). serve_all env raw movies 0 reqs))"

definition pserver_main ::
  "(parameter \<Rightarrow> half_order) \<Rightarrow> (nat \<Rightarrow> cint \<times> string \<times> string) \<Rightarrow> nat \<Rightarrow> string option \<Rightarrow> string \<Rightarrow> (string \<times> string) res" where
  "pserver_main env vars argc file inp =
     (if argc \<noteq> 1 then Stop Exit_failure
      else case file of
        None \<Rightarrow> Stop Exit_failure
      | Some txt \<Rightarrow> and_then (initialize vars txt inp) (\<lambda>(movies, reqs). serve_process env movies reqs))"

section \<open>Reading back what was printed\<close>

lemma isdigit_chars: "isdigit c \<Longrightarrow> c \<noteq> CHR ''i'' \<and> c \<noteq> CHR ''n'' \<and> c \<noteq> CHR ''.'' \<and> c \<noteq> CHR '','' \<and> c \<noteq> CHR ''x''
    \<and> c \<noteq> CHR '' '' \<and> c \<noteq> CHR ''{'' \<and> lower c = c"
  by (auto simp: isdigit_def char_code_def lower_def)

definition quiet_tail :: "string \<Rightarrow> bool" where
  "quiet_tail t \<longleftrightarrow> t = [] \<or> hd t = CHR ''}''"

lemma strtod_dec_nat:
  assumes "quiet_tail t"
  shows "strtod (dec_nat n @ t) = d_round False n 1 0"
proof -
  obtain c cs where c: "dec_nat n = c # cs" by (cases "dec_nat n") auto
  have digits: "\<forall>x\<in>set (c # cs). isdigit x" using dec_nat_digits [of n] c by simp
  then have c0: "isdigit c" by simp
  have t: "\<not> (t \<noteq> [] \<and> isdigit (hd t))" "t = [] \<or> (\<exists>u. t = CHR ''}'' # u)"
    using assms by (auto simp: quiet_tail_def isdigit_def char_code_def, cases t, auto)
  have space: "dropWhile isspace (dec_nat n @ t) = dec_nat n @ t"
    using isdigit_not_special(1) [OF c0] by (simp add: c)
  have sign: "sign_split (dec_nat n @ t) = (False, dec_nat n @ t)"
    by (rule sign_split_digit) (use c0 in \<open>simp add: c\<close>)
  have word: "map lower (take 3 (dec_nat n @ t)) \<noteq> ''inf''" "map lower (take 3 (dec_nat n @ t)) \<noteq> ''nan''"
    using isdigit_chars [OF c0] by (auto simp: c)
  have hex: "map lower (take 2 (dec_nat n @ t)) \<noteq> ''0x''"
  proof (cases cs)
    case Nil
    then show ?thesis using t(2) by (auto simp: c lower_def char_code_def)
  next
    case (Cons d ds)
    then have "isdigit d" using digits by simp
    then show ?thesis using isdigit_chars [of d] by (simp add: c Cons)
  qed
  have split: "split_number isdigit (dec_nat n @ t) = (dec_nat n, [], t)"
    using takeWhile_dec_nat [OF t(1), of n] dropWhile_dec_nat [OF t(1), of n] t(2)
    by (auto simp: split_number_def Let_def)
  have ex: "read_exponent CHR ''e'' t = 0" using t(2) by (auto simp: read_exponent_def lower_def char_code_def)
  show ?thesis
    unfolding strtod_def space sign prod.case using word hex by (simp add: split ex decimal_def split: prod.splits)
qed

text \<open>Numbers between commas, with a tail after the last.\<close>

fun print_genres :: "nat list \<Rightarrow> string \<Rightarrow> string" where
  "print_genres [] t = t"
| "print_genres [n] t = dec_nat n @ t"
| "print_genres (n # m # ns) t = dec_nat n @ CHR '','' # print_genres (m # ns) t"

lemma strtok_first:
  assumes "s \<noteq> []" and "\<forall>c\<in>set s. c \<noteq> d"
  shows "strtok d (s @ d # r) = Some (s, r)" and "strtok d s = Some (s, [])"
proof -
  obtain c cs where c: "s = c # cs" and cd: "c \<noteq> d" using assms by (cases s) auto
  have skip: "dropWhile (\<lambda>x. x = d) (s @ u) = c # (cs @ u)" for u using c cd by simp
  have all: "takeWhile (\<lambda>x. x \<noteq> d) s = s" "dropWhile (\<lambda>x. x \<noteq> d) s = []"
    using takeWhile_all [OF assms(2)] dropWhile_all [OF assms(2)] by simp_all
  have cut: "takeWhile (\<lambda>x. x \<noteq> d) (s @ d # r) = s" "dropWhile (\<lambda>x. x \<noteq> d) (s @ d # r) = d # r"
    using takeWhile_append_stop [OF assms(2)] dropWhile_append_stop [OF assms(2)] by simp_all
  have "strtok d (s @ d # r) = Some (takeWhile (\<lambda>x. x \<noteq> d) (s @ d # r), drop 1 (dropWhile (\<lambda>x. x \<noteq> d) (s @ d # r)))"
    unfolding strtok_def skip list.case by (simp only: c append_Cons)
  then show "strtok d (s @ d # r) = Some (s, r)" unfolding cut by simp
  have "strtok d s = Some (takeWhile (\<lambda>x. x \<noteq> d) s, drop 1 (dropWhile (\<lambda>x. x \<noteq> d) s))"
    using skip [of "[]"] by (simp add: strtok_def c)
  then show "strtok d s = Some (s, [])" unfolding all by simp
qed

lemma token_first:
  assumes "s \<noteq> []" and "\<forall>c\<in>set s. c \<noteq> d"
  shows "token d (s @ d # r) = Done (s, r)" and "token d s = Done (s, [])"
  using strtok_first [OF assms] by (simp_all add: token_def)

lemma dec_nat_no: "c \<in> set (dec_nat n) \<Longrightarrow> isdigit c"
  using dec_nat_digits by blast

lemma dec_nat_no_comma: "\<forall>c\<in>set (dec_nat n). c \<noteq> CHR '',''"
  using dec_nat_no isdigit_chars by blast

lemma read_genres_print:
  "ns \<noteq> [] \<Longrightarrow> quiet_tail t \<Longrightarrow> CHR '','' \<notin> set t \<Longrightarrow>
     read_genres (length ns) (print_genres ns t) = Done (map (\<lambda>n. d_round False n 1 0) ns)"
proof (induction ns t rule: print_genres.induct)
  case (2 n t)
  have "\<forall>c\<in>set (dec_nat n @ t). c \<noteq> CHR '',''" using dec_nat_no_comma [of n] 2(3) by auto
  then have "token CHR '','' (dec_nat n @ t) = Done (dec_nat n @ t, [])" by (intro token_first) simp
  then show ?case using strtod_dec_nat [OF 2(2), of n] by simp
next
  case (3 n m ns t)
  have q: "quiet_tail []" by (simp add: quiet_tail_def)
  have "token CHR '','' (dec_nat n @ CHR '','' # print_genres (m # ns) t) = Done (dec_nat n, print_genres (m # ns) t)"
    by (rule token_first(1)) (use dec_nat_no_comma [of n] in auto)
  then show ?case
    using 3 strtod_dec_nat [OF q, of n] by (simp del: print_genres.simps add: print_genres.simps(3))
qed simp


section \<open>Profiles are numbers that can be scored\<close>

lemma read_genres_wf: "read_genres n s = Done xs \<Longrightarrow> length xs = n \<and> list_all d_wf xs"
  by (induction n s arbitrary: xs rule: read_genres.induct) (auto simp: strtod_wf)

lemma normalize_wf: "length (normalize rs) = length rs \<and> list_all d_wf (normalize rs)"
  by (simp add: normalize_def Let_def list_all_iff d_div_wf)

text \<open>The sum of squares of the numbers read.\<close>

lemma squares:
  assumes "list_all (moderate 300) rs" and "d_nonneg s" and "d_wf s"
  shows "d_nonneg (foldl (\<lambda>s r. d_add s (d_mult r r)) s rs) \<and> d_wf (foldl (\<lambda>s r. d_add s (d_mult r r)) s rs)"
  using assms
proof (induction rs arbitrary: s)
  case (Cons r rs)
  then have "finite_nonneg r" using moderate_finite [of 300 r] by simp
  then have "d_nonneg (d_add s (d_mult r r))" using d_nonneg_mult d_nonneg_add Cons.prems by blast
  moreover have "d_wf (d_add s (d_mult r r))" using d_add_wf d_mult_wf Cons.prems by blast
  ultimately show ?case using Cons by simp
qed simp

lemma normalize_finite:
  assumes "list_all (moderate 300) rs"
  shows "list_all finite_nonneg (normalize rs)"
proof -
  let ?s = "foldl (\<lambda>s r. d_add s (d_mult r r)) d_zero rs"
  have "d_nonneg d_zero" by (simp add: d_nonneg_def)
  then have s: "d_nonneg ?s" "d_wf ?s" using squares [OF assms] by simp_all
  have "finite_nonneg (if d_eq (d_sqrt ?s) d_zero then d_zero else d_div r (d_sqrt ?s))" if "r \<in> set rs" for r
  proof (cases "d_eq (d_sqrt ?s) d_zero")
    case False
    then show ?thesis using d_div_moderate [OF _ s False] assms that by (simp add: list_all_iff)
  qed (simp add: finite_nonneg_def)
  then show ?thesis unfolding normalize_def Let_def list_all_iff set_map by blast
qed

definition nonneg_profile :: "double list \<Rightarrow> bool" where
  "nonneg_profile p \<longleftrightarrow> length p = NUM_OF_GENRE \<and> list_all finite_nonneg p"

lemma add_scores_nonneg:
  assumes "nonneg_profile p" and "nonneg_profile q" and "d_nonneg s"
  shows "d_nonneg (add_scores s p q)"
proof -
  have fin: "finite_nonneg (p ! j)" "finite_nonneg (q ! j)" if "j < NUM_OF_GENRE" for j
    using assms(1,2) that by (simp_all add: nonneg_profile_def list_all_length)
  have "d_nonneg (foldl (\<lambda>s j. d_add s (d_mult (p ! j) (q ! j))) s js)"
    if "\<forall>j\<in>set js. j < NUM_OF_GENRE" "d_nonneg s" for js s
    using that by (induction js arbitrary: s) (simp_all add: d_nonneg_add d_nonneg_mult fin)
  then show ?thesis using assms(3) by (simp add: add_scores_def)
qed

section \<open>The data set\<close>

text \<open>A row of the data set as it is printed: number, title, genres in braces.\<close>

type_synonym row = "cuint \<times> string \<times> nat list"

fun print_row :: "row \<Rightarrow> string" where
  "print_row (i, t, ns) = fmt_d i @ '' '' @ t @ '' {'' @ print_genres ns ''}''"

fun row_ok :: "row \<Rightarrow> bool" where
  "row_ok (i, t, ns) \<longleftrightarrow> t \<noteq> [] \<and> list_all (\<lambda>c. c \<noteq> NUL \<and> c \<noteq> LF \<and> c \<noteq> CHR ''{'') t \<and> length ns = NUM_OF_GENRE
     \<and> length (print_row (i, t, ns)) < MAX_LEN - 1"

fun row_movie :: "row \<Rightarrow> movie_profile" where
  "row_movie (i, t, ns) = \<lparr>movieId = i, m_title = t, m_profile = normalize (map (\<lambda>n. d_round False n 1 0) ns)\<rparr>"

lemma set_print_genres: "c \<in> set (print_genres ns t) \<Longrightarrow> isdigit c \<or> c = CHR '','' \<or> c \<in> set t"
  by (induction ns t rule: print_genres.induct) (auto dest: dec_nat_no)

lemma print_row_clean:
  assumes "row_ok r" and "c \<in> set (print_row r)"
  shows "c \<noteq> NUL \<and> c \<noteq> LF"
proof -
  obtain i t ns where r: "r = (i, t, ns)" by (cases r)
  have "c \<in> set (fmt_d i) \<or> c \<in> set t \<or> c \<in> set (print_genres ns ''}'') \<or> c = CHR '' '' \<or> c = CHR ''{''"
    using assms(2) by (auto simp: r)
  then show ?thesis
    using fmt_d_clean [of c i] set_print_genres [of c ns "''}''"] isdigit_not_special [of c] assms(1)
    by (auto simp: r list_all_iff)
qed

lemma print_genres_append: "print_genres ns (t @ u) = print_genres ns t @ u"
  by (induction ns t rule: print_genres.induct) simp_all

lemma parse_row:
  assumes ok: "row_ok r" and u: "u = [] \<or> u = [LF]"
  shows "parse_movie (print_row r @ u) = Done (row_movie r)"
proof -
  obtain i t ns where r: "r = (i, t, ns)" by (cases r)
  have t: "t \<noteq> []" "\<forall>c\<in>set t. c \<noteq> CHR ''{''" and ns: "length ns = NUM_OF_GENRE" "ns \<noteq> []"
    using ok unfolding r row_ok.simps list_all_iff by (blast, blast, blast, force simp: NUM_OF_GENRE_def)
  let ?g = "print_genres ns (CHR ''}'' # u)"
  have line: "print_row r @ u = fmt_d i @ CHR '' '' # (t @ '' '') @ CHR ''{'' # ?g"
    using print_genres_append [of ns "''}''" u] by (simp add: r)
  have "\<forall>c\<in>set (print_row r @ u). c \<noteq> NUL" using print_row_clean [OF ok] u by auto
  then have clean: "cstr (print_row r @ u) = print_row r @ u" unfolding cstr_def by (rule takeWhile_all)
  have "\<forall>c\<in>set (fmt_d i). c \<noteq> CHR '' ''" using fmt_d_chars isdigit_not_special(7) by blast
  then have t1: "token CHR '' '' (print_row r @ u) = Done (fmt_d i, (t @ '' '') @ CHR ''{'' # ?g)"
    unfolding line by (rule token_first(1) [OF fmt_d_nonempty])
  have t2: "token CHR ''{'' ((t @ '' '') @ CHR ''{'' # ?g) = Done (t @ '' '', ?g)"
    by (rule token_first(1)) (use t in auto)
  have "quiet_tail (CHR ''}'' # u)" "CHR '','' \<notin> set (CHR ''}'' # u)" using u by (auto simp: quiet_tail_def)
  then have t3: "read_genres NUM_OF_GENRE ?g = Done (map (\<lambda>n. d_round False n 1 0) ns)"
    using read_genres_print [OF ns(2)] ns(1) by simp
  have "atoi (fmt_d i) = i" using scan_d_fmt_d [of "[]" i] by (simp add: atoi_def)
  then show ?thesis
    unfolding parse_movie_def Let_def clean t1 and_then.simps prod.case t2 t3 by (simp add: r)
qed

text \<open>\<open>fgets\<close> takes one row, as it is short enough for the buffer.\<close>

lemma fgets_row:
  assumes "row_ok r"
  shows "fgets (MAX_LEN - 1) (print_row r @ LF # s) = Some (print_row r @ [LF], s)"
proof (rule fgets_line)
  show "\<forall>c\<in>set (print_row r). c \<noteq> LF" using print_row_clean [OF assms] by blast
  show "length (print_row r) < MAX_LEN - 1" using assms by (cases r) simp
qed

definition print_rows :: "row list \<Rightarrow> string" where
  "print_rows rs = concat (map (\<lambda>r. print_row r @ [LF]) rs)"

lemma read_rows:
  assumes "list_all row_ok rs" and "cnt + length rs \<le> MAX_MOVIES"
  shows "read_movies (print_rows rs) cnt = Done (map row_movie rs)"
  using assms
proof (induction rs arbitrary: cnt)
  case Nil
  then show ?case by (subst read_movies.simps) (simp add: print_rows_def fgets_def)
next
  case (Cons r rs)
  have "print_rows (r # rs) = print_row r @ LF # print_rows rs" by (simp add: print_rows_def)
  then show ?case
    using Cons fgets_row [of r "print_rows rs"] parse_row [of r "[LF]"] by (subst read_movies.simps) simp
qed


section \<open>The requests\<close>

type_synonym request_line = "cint \<times> string \<times> nat list"

fun print_request :: "request_line \<Rightarrow> string" where
  "print_request (i, kw, ns) = dec_nat (unat i) @ '' '' @ kw @ '' '' @ print_genres ns []"

fun request_ok :: "request_line \<Rightarrow> bool" where
  "request_ok (i, kw, ns) \<longleftrightarrow> kw \<noteq> [] \<and> list_all (\<lambda>c. \<not> isspace c) kw \<and> length kw \<le> MAX_LEN - 1
     \<and> length ns = NUM_OF_GENRE \<and> length (print_genres ns []) \<le> MAX_LEN - 1"

fun line_request :: "request_line \<Rightarrow> request" where
  "line_request (i, kw, ns) = \<lparr>q_id = i, q_keywords = kw, q_profile = normalize (map (\<lambda>n. d_round False n 1 0) ns)\<rparr>"

lemma scan_u_print:
  assumes "\<not> (t \<noteq> [] \<and> isdigit (hd t))"
  shows "scan_u (dec_nat (unat i) @ t) = Some (i, t)"
proof -
  have hd: "isdigit (hd (dec_nat (unat i) @ t))" by (simp add: hd_append hd_dec_nat)
  have "dropWhile isspace (dec_nat (unat i) @ t) = dec_nat (unat i) @ t"
    using hd isdigit_not_special(1) by (cases "dec_nat (unat i)") auto
  moreover have "min (int (unat i)) (2 ^ 64 - 1) = int (unat i)"
    using unsigned_less [of i, where 'a = int] by simp
  moreover have "word_of_int (int (unat i)) = i" by simp
  ultimately show ?thesis
    using sign_split_digit [OF hd] takeWhile_dec_nat [OF assms] dropWhile_dec_nat [OF assms]
    unfolding scan_u_def by simp
qed

lemma print_genres_nonempty: "ns \<noteq> [] \<Longrightarrow> print_genres ns t \<noteq> []"
  by (cases "(ns, t)" rule: print_genres.cases) simp_all

lemma read_request_line:
  assumes ok: "request_ok r" and t: "t = [] \<or> isspace (hd t)"
  shows "read_request raw (print_request r @ t) = Done (line_request r, t)"
proof -
  obtain i kw ns where r: "r = (i, kw, ns)" by (cases r)
  have kw: "kw \<noteq> []" "\<forall>c\<in>set kw. \<not> isspace c" "length kw \<le> MAX_LEN - 1"
    and len: "length ns = NUM_OF_GENRE" "length (print_genres ns []) \<le> MAX_LEN - 1"
    using ok unfolding r request_ok.simps list_all_iff by blast+
  have ns: "ns \<noteq> []" using len(1) by (force simp: NUM_OF_GENRE_def)
  have g: "\<forall>c\<in>set (print_genres ns []). \<not> isspace c"
    using set_print_genres [of _ ns "[]"] isdigit_not_special(1) by fastforce
  obtain raw1 raw2 raw3 where raw: "raw = (raw1, raw2, raw3)" by (cases raw)
  have s1: "scan_u (print_request r @ t) = Some (i, CHR '' '' # kw @ CHR '' '' # print_genres ns [] @ t)"
    using scan_u_print [of "CHR '' '' # kw @ CHR '' '' # print_genres ns [] @ t" i] by (simp add: r)
  have s2: "scan_s (MAX_LEN - 1) (CHR '' '' # kw @ CHR '' '' # print_genres ns [] @ t) = Some (kw, CHR '' '' # print_genres ns [] @ t)"
    by (rule scan_s_word) (use kw in simp_all)
  have s3: "scan_s (MAX_LEN - 1) (CHR '' '' # print_genres ns [] @ t) = Some (print_genres ns [], t)"
    by (rule scan_s_word) (use len t g print_genres_nonempty [OF ns] in simp_all)
  have "read_genres NUM_OF_GENRE (print_genres ns []) = Done (map (\<lambda>n. d_round False n 1 0) ns)"
    using read_genres_print [OF ns, of "[]"] len(1) by (simp add: quiet_tail_def)
  then show ?thesis
    unfolding read_request_def raw s1 prod.case option.case s2 s3 Let_def by (simp add: r)
qed

definition print_requests :: "request_line list \<Rightarrow> string" where
  "print_requests rs = concat (map (\<lambda>r. LF # print_request r) rs)"

lemma print_requests_hd: "print_requests rs = [] \<or> isspace (hd (print_requests rs))"
  by (cases rs) (simp_all add: print_requests_def)

text \<open>The line feed before a request is skipped with the white space.\<close>

lemma read_request_skip: "isspace s \<Longrightarrow> read_request raw (s # inp) = read_request raw inp" if "scan_u inp \<noteq> None"
  using that by (auto simp: read_request_def scan_u_def)

lemma read_request_lines:
  "list_all request_ok rs \<Longrightarrow> read_requests raw (length rs) (print_requests rs) = Done (map line_request rs)"
proof (induction rs)
  case (Cons r rs)
  obtain i kw ns where r: "r = (i, kw, ns)" by (cases r)
  have split: "print_requests (r # rs) = LF # print_request r @ print_requests rs" by (simp add: print_requests_def)
  have "scan_u (print_request r @ print_requests rs) \<noteq> None"
    using scan_u_print [of "CHR '' '' # kw @ CHR '' '' # print_genres ns [] @ print_requests rs" i] by (simp add: r)
  then have "read_request (raw (length rs)) (print_requests (r # rs)) = Done (line_request r, print_requests rs)"
    unfolding split using read_request_skip read_request_line [of r "print_requests rs"] print_requests_hd Cons.prems by simp
  then show ?case using Cons by simp
qed simp

section \<open>Everything that is read\<close>

lemma initialize_printed:
  assumes "LF \<notin> set header" and "length header < MAX_LEN - 1" and "list_all row_ok rows" and "length rows \<le> MAX_MOVIES"
    and "list_all request_ok rs" and "length rs \<le> MAX_REQ"
  shows "initialize raw (header @ LF # print_rows rows) (dec_nat (length rs) @ print_requests rs) =
    Done (map row_movie rows, map line_request rs)"
proof -
  have head: "fgets (MAX_LEN - 1) (header @ LF # print_rows rows) = Some (header @ [LF], print_rows rows)"
    by (rule fgets_line) (use assms(1,2) in auto)
  have n: "length rs \<le> 255" using assms(6) by (simp add: MAX_REQ_def)
  have stop: "\<not> (print_requests rs \<noteq> [] \<and> isdigit (hd (print_requests rs)))"
    using print_requests_hd [of rs] isdigit_not_special(1) by blast
  have "sint (word_of_nat (length rs) :: cint) = int (length rs)" using n by (intro sint_of_nat) simp
  then have "fmt_d (word_of_nat (length rs)) = dec_nat (length rs)" by (simp add: fmt_d_def)
  then have cnt: "scan_d (dec_nat (length rs) @ print_requests rs) = Some (word_of_nat (length rs), print_requests rs)"
    using scan_d_fmt_d [OF stop, of "word_of_nat (length rs)"] by simp
  have "unat (word_of_nat (length rs) :: cint) = length rs"
    using n by (simp add: unat_of_nat take_bit_nat_eq_self)
  then show ?thesis
    using head cnt read_rows [OF assms(3), of 0] assms(4,6) read_request_lines [OF assms(5), of raw]
    by (simp add: initialize_def)
qed


section \<open>What is read is well typed\<close>

lemma strtok_facts:
  assumes "strtok d s = Some (t, r)"
  shows "t \<noteq> []" and "length t + length r \<le> length s" and "set t \<subseteq> set s" and "set r \<subseteq> set s" and "d \<notin> set t"
proof -
  let ?u = "dropWhile (\<lambda>c. c = d) s"
  obtain c cs where cs: "?u = c # cs" using assms by (cases ?u) (simp_all add: strtok_def)
  then have u: "?u \<noteq> []" by simp
  have "strtok d s = Some (takeWhile (\<lambda>c. c \<noteq> d) ?u, drop 1 (dropWhile (\<lambda>c. c \<noteq> d) ?u))"
    unfolding strtok_def cs list.case ..
  then have t: "t = takeWhile (\<lambda>c. c \<noteq> d) ?u" and r: "r = drop 1 (dropWhile (\<lambda>c. c \<noteq> d) ?u)"
    using assms by simp_all
  have "hd ?u \<noteq> d" using hd_dropWhile [OF u] by simp
  then show "t \<noteq> []" using u by (simp add: t takeWhile_eq_Nil_iff)
  have "length t + length (dropWhile (\<lambda>c. c \<noteq> d) ?u) = length ?u"
    unfolding t by (metis length_append takeWhile_dropWhile_id)
  moreover have "length ?u \<le> length s" by (rule length_dropWhile_le)
  moreover have "length r \<le> length (dropWhile (\<lambda>c. c \<noteq> d) ?u)" by (simp add: r)
  ultimately show "length t + length r \<le> length s" by linarith
  show "set t \<subseteq> set s" unfolding t using set_takeWhileD set_dropWhileD by fast
  show "set r \<subseteq> set s" unfolding r by (auto dest!: in_set_dropD set_dropWhileD)
  show "d \<notin> set t" unfolding t by (auto dest: set_takeWhileD)
qed

lemma token_Done: "token d s = Done x \<longleftrightarrow> strtok d s = Some x"
  by (auto simp: token_def split: option.splits)

definition movie_typed :: "movie_profile \<Rightarrow> bool" where
  "movie_typed m \<longleftrightarrow> length (m_profile m) = NUM_OF_GENRE \<and> list_all d_wf (m_profile m)
     \<and> length (m_title m) < MAX_LEN - 2 \<and> NUL \<notin> set (m_title m) \<and> CHR ''{'' \<notin> set (m_title m)"

definition request_typed :: "request \<Rightarrow> bool" where
  "request_typed q \<longleftrightarrow> length (q_profile q) = NUM_OF_GENRE \<and> list_all d_wf (q_profile q)"

lemma read_profile_typed:
  "read_genres NUM_OF_GENRE s = Done gs \<Longrightarrow> length (normalize gs) = NUM_OF_GENRE \<and> list_all d_wf (normalize gs)"
  using read_genres_wf normalize_wf by metis

lemma parse_movie_typed:
  assumes "parse_movie line = Done m" and "length line \<le> MAX_LEN - 1"
  shows "movie_typed m"
proof -
  obtain idt r t r' gs where t1: "strtok CHR '' '' (cstr line) = Some (idt, r)" and t2: "strtok CHR ''{'' r = Some (t, r')"
    and g: "read_genres NUM_OF_GENRE r' = Done gs"
    and m: "m = \<lparr>movieId = atoi idt, m_title = take (length t - 1) t, m_profile = normalize gs\<rparr>"
    using assms(1) by (auto simp: parse_movie_def Let_def token_Done)
  have "0 < length idt" "0 < length t" using strtok_facts(1) [OF t1] strtok_facts(1) [OF t2] by simp_all
  moreover have "length (cstr line) \<le> length line" unfolding cstr_def by (rule length_takeWhile_le)
  ultimately have "length t - 1 < MAX_LEN - 2"
    using strtok_facts(2) [OF t1] strtok_facts(2) [OF t2] assms(2) by linarith
  moreover have "NUL \<notin> set t" "CHR ''{'' \<notin> set t"
    using strtok_facts(3) [OF t2] strtok_facts(4) [OF t1] strtok_facts(5) [OF t2] NUL_notin_cstr [of line] by blast+
  ultimately show ?thesis
    using read_profile_typed [OF g] by (auto simp: movie_typed_def m dest: in_set_takeD)
qed

lemma read_movies_typed:
  "read_movies s cnt = Done ms \<Longrightarrow> cnt \<le> MAX_MOVIES \<Longrightarrow> cnt + length ms \<le> MAX_MOVIES \<and> list_all movie_typed ms"
proof (induction s cnt arbitrary: ms rule: read_movies.induct)
  case (1 s cnt)
  show ?case
  proof (cases "fgets (MAX_LEN - 1) s")
    case None
    then show ?thesis using 1(2,3) by (simp add: read_movies.simps [of s])
  next
    case (Some x)
    obtain line r where x: "x = (line, r)" by (cases x)
    then obtain m ms' where room: "cnt < MAX_MOVIES" and p: "parse_movie line = Done m"
      and rest: "read_movies r (cnt + 1) = Done ms'" and ms: "ms = m # ms'"
      using 1(2) Some by (auto simp: read_movies.simps [of s] not_le split: if_splits)
    have "movie_typed m" using parse_movie_typed [OF p] fgets_length [of _ s line r] Some x by simp
    moreover have "cnt + 1 + length ms' \<le> MAX_MOVIES \<and> list_all movie_typed ms'"
      using 1(1) [OF Some x [symmetric] _ rest] room by simp
    ultimately show ?thesis by (simp add: ms)
  qed
qed

lemma read_requests_typed:
  "read_requests raw n inp = Done qs \<Longrightarrow> length qs = n \<and> list_all request_typed qs"
proof (induction raw n inp arbitrary: qs rule: read_requests.induct)
  case (2 raw n inp)
  then obtain q r qs' where q: "read_request (raw n) inp = Done (q, r)" and rest: "read_requests raw n r = Done qs'"
    and qs: "qs = q # qs'" by auto
  have "request_typed q" using q read_profile_typed
    by (auto simp: read_request_def request_typed_def split: prod.splits option.splits)
  moreover have "length qs' = n \<and> list_all request_typed qs'" using 2(1) [OF rest] by blast
  ultimately show ?case by (simp add: qs)
qed simp

lemma initialize_cases:
  assumes "initialize raw file inp = Done (movies, reqs)"
  obtains rows n r where "read_movies rows 0 = Done movies" and "unat (n :: cuint) \<le> MAX_REQ"
    and "read_requests raw (unat n) r = Done reqs"
proof -
  obtain line rows where f: "fgets (MAX_LEN - 1) file = Some (line, rows)"
    using assms by (auto simp: initialize_def split: option.splits)
  define x :: "cuint \<times> string" where
    "x = (case scan_d inp of None \<Rightarrow> (0, snd (sign_split (dropWhile isspace inp))) | Some x \<Rightarrow> x)"
  obtain n r where n: "x = (n, r)" by (cases x)
  show thesis
    using assms that [of rows n r] unfolding initialize_def f x_def [symmetric] n by (auto split: if_splits)
qed

end
