(* ===== verification/Movies_Props.thy ===== *)
theory Movies_Props
  imports Movies_Sort Movies_Init
begin

text \<open>
  What makes the movie server correct: \<open>filter\<close> collects the wanted movies with
  their scores, the library, the merge and both merge sorts order them, the two
  builds of the server write the same lines, and the data set is read as it
  was printed. \<open>found\<close>, \<open>entries\<close>, \<open>answer\<close> and, for a block of memory that
  is not zeroed, \<open>entries_from\<close> and \<open>answer_from\<close> are the specification.
\<close>

section \<open>filter\<close>

definition found :: "request \<Rightarrow> movie_profile list \<Rightarrow> movie_profile list" where
  "found key movies = filter (\<lambda>m. q_keywords key = ''*'' \<or> sublist (q_keywords key) (m_title m)) movies"

lemma wanted_iff: "wanted key m \<longleftrightarrow> q_keywords key = ''*'' \<or> sublist (q_keywords key) (m_title m)"
  using strstr_not_None [of "m_title m" "q_keywords key"] by (simp add: wanted_def)

definition score_from :: "request \<Rightarrow> double \<Rightarrow> movie_profile \<Rightarrow> double" where
  "score_from key s m = add_scores s (q_profile key) (m_profile m)"

text \<open>The array after the movies \<open>ms\<close> are added to the first \<open>k\<close>.\<close>

definition collect :: "request \<Rightarrow> movie_profile list \<Rightarrow> nat \<Rightarrow> filtered_movies \<Rightarrow> filtered_movies" where
  "collect key ms k f = f\<lparr>filtered_num := int (k + length ms),
     title := splice k (map (Some \<circ> m_title) ms) (title f),
     scores := splice k (map2 (score_from key) (drop k (scores f)) ms) (scores f)\<rparr>"

lemma add_movie_collect:
  assumes "filtered_num f = int k" and "in_arrays k (Suc n) f" and "b = PROCESS \<longrightarrow> length (m_title m) < MAX_LEN"
  shows "add_movie b key m f = Done (collect key [m] k f)"
proof -
  have k: "k < length (title f)" "k < length (scores f)" using assms(2) by (simp_all add: in_arrays_def)
  have "map2 (score_from key) (drop k (scores f)) [m] = [score_from key (scores f ! k) m]"
    using k(2) by (simp add: Cons_nth_drop_Suc [symmetric])
  then have c: "collect key [m] k f = f\<lparr>filtered_num := int k + 1, title := (title f)[k := Some (m_title m)],
      scores := (scores f)[k := score_from key (scores f ! k) m]\<rparr>"
    using k by (simp add: collect_def splice_def upd_conv_take_nth_drop)
  show ?thesis unfolding c using assms(1,3) k
    by (simp add: add_movie_def copy_title_def get_slot_def put_slot_def score_from_def)
qed

lemma collect_Cons:
  assumes "in_arrays k (Suc (length ms)) f"
  shows "collect key ms (Suc k) (collect key [m] k f) = collect key (m # ms) k f"
proof -
  have k: "k < length (title f)" "k < length (scores f)" using assms by (simp_all add: in_arrays_def)
  have d: "drop k (scores f) = scores f ! k # drop (Suc k) (scores f)" using k(2) by (simp add: Cons_nth_drop_Suc)
  have one: "splice k [x] ys = ys[k := x]" if "k < length ys" for x and ys :: "'a list"
    using that by (simp add: splice_def upd_conv_take_nth_drop)
  have "Suc k + length (map2 (score_from key) (drop (Suc k) (scores f)) ms) \<le> length (scores f)"
    using assms unfolding in_arrays_def length_map length_zip length_drop by linarith
  then show ?thesis using assms k
    by (simp add: collect_def d one splice_Cons in_arrays_def del: length_zip)
qed

lemma filter_loop_collect:
  assumes "filtered_num f = int k" and "in_arrays k (length (found key ms)) f"
    and "b = PROCESS \<longrightarrow> (\<forall>m\<in>set ms. length (m_title m) < MAX_LEN)"
  shows "filter_loop b key ms f = Done (collect key (found key ms) k f)"
  using assms
proof (induction ms arbitrary: k f)
  case Nil
  then show ?case by (simp add: collect_def found_def)
next
  case (Cons m ms)
  show ?case
  proof (cases "wanted key m")
    case True
    then have fd: "found key (m # ms) = m # found key ms" by (simp add: found_def wanted_iff)
    have arr: "in_arrays k (Suc (length (found key ms))) f" using Cons.prems(2) by (simp add: fd)
    let ?g = "collect key [m] k f"
    have add: "add_movie b key m f = Done ?g"
      using add_movie_collect [OF Cons.prems(1) arr] Cons.prems(3) by simp
    have len: "length (title ?g) = length (title f)" "length (scores ?g) = length (scores f)"
      using arr by (auto simp: collect_def in_arrays_def splice_def min_def)
    have "filter_loop b key ms ?g = Done (collect key (found key ms) (Suc k) ?g)"
      by (rule Cons.IH) (use Cons.prems arr len in \<open>simp_all add: in_arrays_def\<close>, simp add: collect_def)
    then show ?thesis using True add collect_Cons [OF arr] by (simp add: fd)
  next
    case False
    then have fd: "found key (m # ms) = found key ms" by (simp add: found_def wanted_iff)
    then show ?thesis using Cons False by simp
  qed
qed


lemma part_splice_start: "length xs \<le> length ys \<Longrightarrow> take (length xs) (splice 0 xs ys) = xs"
  by (simp add: splice_def)

lemma filter_movies_collect:
  assumes "in_arrays 0 (length (found key movies)) (new_filtered b raw)"
    and "b = PROCESS \<longrightarrow> (\<forall>m\<in>set movies. length (m_title m) < MAX_LEN)"
  shows "filter_movies b raw movies key = Done (collect key (found key movies) 0 (new_filtered b raw))"
  unfolding filter_movies_def
  by (rule filter_loop_collect) (use assms in \<open>simp_all add: new_filtered_def split: build.split\<close>)

text \<open>
  C21: \<open>filter\<close>, in both builds, collects exactly the movies whose title
  contains the keywords (all of them for a star), in the order of the data
  set; place \<open>i\<close> gets the title of the \<open>i\<close>-th of them and what was at the place
  plus the scalar product of the two profiles. The rest of the arrays stays.
\<close>

theorem filter_selects:
  assumes "in_arrays 0 (length (found key movies)) (new_filtered b raw)"
    and "b = PROCESS \<longrightarrow> (\<forall>m\<in>set movies. length (m_title m) < MAX_LEN)"
  shows "\<exists>f. filter_movies b raw movies key = Done f \<and> filtered_num f = int (length (found key movies))
    \<and> (\<forall>i < length (found key movies). title f ! i = Some (m_title (found key movies ! i))
        \<and> scores f ! i = add_scores (scores (new_filtered b raw) ! i) (q_profile key) (m_profile (found key movies ! i)))
    \<and> drop (length (found key movies)) (title f) = drop (length (found key movies)) (title (new_filtered b raw))
    \<and> drop (length (found key movies)) (scores f) = drop (length (found key movies)) (scores (new_filtered b raw))"
proof (intro exI conjI)
  let ?F = "found key movies" and ?n = "new_filtered b raw"
  show "filter_movies b raw movies key = Done (collect key ?F 0 ?n)" by (rule filter_movies_collect [OF assms])
  have len: "length ?F \<le> length (title ?n)" "length ?F \<le> length (scores ?n)" using assms(1) by (simp_all add: in_arrays_def)
  show "filtered_num (collect key ?F 0 ?n) = int (length ?F)" by (simp add: collect_def)
  show "\<forall>i < length ?F. title (collect key ?F 0 ?n) ! i = Some (m_title (?F ! i))
        \<and> scores (collect key ?F 0 ?n) ! i = add_scores (scores ?n ! i) (q_profile key) (m_profile (?F ! i))"
    using len by (simp add: collect_def splice_def nth_append score_from_def)
  show "drop (length ?F) (title (collect key ?F 0 ?n)) = drop (length ?F) (title ?n)"
    "drop (length ?F) (scores (collect key ?F 0 ?n)) = drop (length ?F) (scores ?n)"
    using len by (simp_all add: collect_def splice_def)
qed

text \<open>Two movies, one with the keyword, whole numbers as profiles.\<close>

definition d_one :: double where "d_one = Fin False (2 ^ 52) (-52)"

definition movie_a :: movie_profile where
  "movie_a = \<lparr>movieId = 1, m_title = ''Toy (1995)'', m_profile = d_one # replicate 18 d_zero\<rparr>"

definition movie_b :: movie_profile where
  "movie_b = \<lparr>movieId = 2, m_title = ''Heat (1995)'', m_profile = d_zero # d_one # replicate 17 d_zero\<rparr>"

definition request_a :: "string \<Rightarrow> request" where
  "request_a kw = \<lparr>q_id = 7, q_keywords = kw, q_profile = d_one # replicate 18 d_zero\<rparr>"

definition raw_zero :: filtered_movies where
  "raw_zero = \<lparr>filtered_num = 0, title = [None, None, None], scores = [d_zero, d_zero, d_zero]\<rparr>"

lemma found_a: "found (request_a ''eat'') [movie_a, movie_b] = [movie_b]"
  by (simp add: found_def request_a_def movie_a_def movie_b_def sublist_Cons_right)

theorem filter_selects_witness:
  "\<exists>f. filter_movies THREAD raw_zero [movie_a, movie_b] (request_a ''eat'') = Done f \<and> filtered_num f = 1
     \<and> title f ! 0 = Some ''Heat (1995)''"
  using filter_selects [of "request_a ''eat''" "[movie_a, movie_b]" THREAD raw_zero]
  by (auto simp: found_a in_arrays_def new_filtered_def raw_zero_def) (simp add: movie_b_def)

section \<open>Entries\<close>

text \<open>
  The movies found with their scores; \<open>entries_from\<close> starts every score from
  what the block of memory holds at its place, \<open>entries\<close> from zero.
\<close>

definition entries_from :: "filtered_movies \<Rightarrow> request \<Rightarrow> movie_profile list \<Rightarrow> entry list" where
  "entries_from raw key movies = map2 (\<lambda>s m. (m_title m, score_from key s m)) (scores raw) (found key movies)"

definition entries :: "request \<Rightarrow> movie_profile list \<Rightarrow> entry list" where
  "entries key movies = map (\<lambda>m. (m_title m, score_from key d_zero m)) (found key movies)"

definition zeroed :: "nat \<Rightarrow> filtered_movies \<Rightarrow> bool" where
  "zeroed n f \<longleftrightarrow> in_arrays 0 n f \<and> take n (scores f) = replicate n d_zero"

lemma zeroed_less: "zeroed n f \<Longrightarrow> m \<le> n \<Longrightarrow> zeroed m f"
proof -
  assume z: "zeroed n f" and m: "m \<le> n"
  then have "take m (scores f) = take m (take n (scores f))" by (simp add: min_absorb1)
  also have "\<dots> = replicate m d_zero" using z m by (simp add: zeroed_def)
  finally show ?thesis using z m by (simp add: zeroed_def in_arrays_def)
qed

lemma entries_from_facts:
  assumes "in_arrays 0 (length (found key movies)) raw"
  shows "length (entries_from raw key movies) = length (found key movies)"
    and "map fst (entries_from raw key movies) = map m_title (found key movies)"
  using assms by (auto simp: entries_from_def in_arrays_def intro!: nth_equalityI)

lemma entries_from_zeroed:
  assumes "zeroed (length (found key movies)) raw"
  shows "entries_from raw key movies = entries key movies"
proof -
  have "length (found key movies) \<le> length (scores raw)"
    and "\<And>i. i < length (found key movies) \<Longrightarrow> scores raw ! i = d_zero"
    using assms by (simp_all add: zeroed_def in_arrays_def) (metis nth_replicate nth_take)
  then show ?thesis by (intro nth_equalityI) (simp_all add: entries_from_def entries_def)
qed

lemma collect_holds:
  assumes "in_arrays 0 (length (found key movies)) f"
  shows "holds id 0 (entries_from f key movies) (collect key (found key movies) 0 f)"
proof -
  let ?F = "found key movies"
  have len: "length ?F \<le> length (title f)" "length ?F \<le> length (scores f)"
    using assms by (simp_all add: in_arrays_def)
  have "take (length ?F) (title (collect key ?F 0 f)) = map (Some \<circ> m_title) ?F"
    using len by (simp add: collect_def splice_def)
  moreover have "map (Some \<circ> fst) (entries_from f key movies) = map (Some \<circ> m_title) ?F"
    using entries_from_facts(2) [OF assms] by (metis map_map)
  moreover have "take (length ?F) (scores (collect key ?F 0 f)) = map2 (score_from key) (scores f) ?F"
    using len by (simp add: collect_def splice_def)
  moreover have "map snd (entries_from f key movies) = map2 (score_from key) (scores f) ?F"
    by (simp add: entries_from_def o_def split_def)
  moreover have "in_arrays 0 (length ?F) (collect key ?F 0 f)"
    using len by (simp add: collect_def in_arrays_def splice_def)
  ultimately show ?thesis by (simp add: holds_def entries_from_facts(1) [OF assms])
qed


section \<open>Sorting\<close>

text \<open>
  C22: \<open>sort\<close> of the library permutes the entries into descending order of
  their scores, equal scores by title, and appends the secret to every title;
  none of its assertions fails and no access leaves the arrays.
\<close>

theorem library_sorts:
  assumes "es \<noteq> []" and "\<forall>x\<in>set es. length (fst x) < MAX_LEN \<and> d_nonneg (snd x)" and "length es \<le> num_of_movies"
  shows "\<exists>es'. sort_lib num_of_movies (map (Some \<circ> fst) es) (map snd es) (int (length es)) =
      Done (map (Some \<circ> secret \<circ> fst) es', map snd es')
    \<and> mset es' = mset es
    \<and> (\<forall>i j. i < j \<and> j < length es' \<longrightarrow> d_less (snd (es' ! j)) (snd (es' ! i))
        \<or> d_eq (snd (es' ! i)) (snd (es' ! j)) \<and> strcmp (fst (es' ! i)) (fst (es' ! j)) \<le> 0)"
proof -
  have good: "\<forall>x\<in>set es. good_entry x" using assms(2) by (simp add: good_entry_def)
  obtain es' where es': "sort_lib num_of_movies (map (Some \<circ> fst) es) (map snd es) (int (length es)) =
      Done (map (Some \<circ> secret \<circ> fst) es', map snd es')" "mset es' = mset es" "sorted (map rank es')"
    using sort_lib_correct [OF assms(1) good assms(3)] by blast
  have "set es' = set es" using es'(2) by (metis set_mset_mset)
  then have ok: "snd x \<noteq> Nan" if "x \<in> set es'" for x using that assms(2) d_nonneg_not_Nan by blast
  have "d_less (snd (es' ! j)) (snd (es' ! i)) \<or> d_eq (snd (es' ! i)) (snd (es' ! j)) \<and> strcmp (fst (es' ! i)) (fst (es' ! j)) \<le> 0"
    if "i < j" "j < length es'" for i j
  proof -
    have "rank (es' ! i) \<le> rank (es' ! j)" using that es'(3) by (simp add: sorted_iff_nth_mono_less)
    then show ?thesis
      using rank_le [of "snd (es' ! i)" "snd (es' ! j)" "fst (es' ! i)" "fst (es' ! j)"] that ok by simp
  qed
  then show ?thesis using es' by blast
qed

definition sample :: "entry list" where
  "sample = [(''Heat'', d_zero), (''Toy'', d_one), (''Alien'', d_zero)]"

lemma sample_ok: "sample \<noteq> []" "length sample = 3" "\<forall>x\<in>set sample. length (fst x) < MAX_LEN \<and> d_nonneg (snd x)"
  by (simp_all add: sample_def MAX_LEN_def d_nonneg_def d_one_def)

theorem library_sorts_witness:
  "\<exists>es'. sort_lib 5 (map (Some \<circ> fst) sample) (map snd sample) 3 = Done (map (Some \<circ> secret \<circ> fst) es', map snd es')
    \<and> mset es' = mset sample"
  using library_sorts [OF sample_ok(1,3), of 5] sample_ok(2) by auto

text \<open>
  C23: \<open>merge\<close> refines the merge of two lists: on arrays whose part at \<open>l\<close>
  holds the marked entries \<open>xs\<close> and after them \<open>ys\<close>, it leaves there the
  entries of \<open>emerge xs ys\<close> and changes nothing else.
\<close>

theorem merge_refines_emerge:
  assumes "holds secret l (xs @ ys) f" and "\<forall>x\<in>set (xs @ ys). snd x \<noteq> Nan \<and> plain (fst x)" and "xs \<noteq> []"
  shows "merge (addparameter (int l) (int (l + length xs) - 1) d)
      (addparameter (int (l + length xs)) (int (l + length xs + length ys) - 1) d') f =
    Done (place secret l (emerge xs ys) f)"
  using merge_emerge [OF assms, of d d'] by (simp add: algebra_simps)

definition sorted_sample :: filtered_movies where
  "sorted_sample = \<lparr>filtered_num = 2, title = [Some (secret ''Toy''), Some (secret ''Heat'')], scores = [d_zero, d_zero]\<rparr>"

theorem merge_refines_emerge_witness:
  "merge (addparameter 0 0 1) (addparameter 1 1 1) sorted_sample =
     Done (place secret 0 (emerge [(''Toy'', d_zero)] [(''Heat'', d_zero)]) sorted_sample)"
proof -
  have h: "holds secret 0 ([(''Toy'', d_zero)] @ [(''Heat'', d_zero)]) sorted_sample"
    by (simp add: holds_def in_arrays_def sorted_sample_def)
  show ?thesis
    using merge_refines_emerge [OF h, of 1 1] by (simp add: plain_def char_code_def)
qed


text \<open>
  C24: the sort in threads orders any part of the arrays: whichever half of
  each split runs first and whatever the count of threads is when it is
  tested, the part ends with its entries in the order of their ranks, secrets
  appended, and the rest of the arrays is as before; the entries' order does
  not depend on the schedule.
\<close>

theorem thread_sort_orders:
  assumes "\<And>key. snd (env key) \<noteq> Left_lost"
    and "es \<noteq> []" and "sortable room es" and "length es \<le> num_of_movies" and "holds id l es f"
  shows "\<exists>es'. thread_merge_sort env num_of_movies (addparameter (int l) (int (l + length es) - 1) d) f = Done (place secret l es' f)
    \<and> mset es' = mset es \<and> sorted (map rank es') \<and> map fst es' = ranked_titles es"
proof -
  obtain es' where es': "sorts_to es es'"
    "thread_merge_sort env num_of_movies (addparameter (int l) (int l + int (length es) - 1) d) f = Done (place secret l es' f)"
    using thread_sorts [where env = env and es = es and l = l and d = d and num = num_of_movies, OF assms(1,3,4,2)] assms(5)
    unfolding sorts_part_def by blast
  then show ?thesis using ranked_titles_unique [of es' es] by (auto simp: sorts_to_def)
qed

definition arrays :: "entry list \<Rightarrow> filtered_movies" where
  "arrays es = \<lparr>filtered_num = int (length es), title = map (Some \<circ> fst) es, scores = map snd es\<rparr>"

lemma arrays_hold: "holds id 0 es (arrays es)"
  by (simp add: holds_def arrays_def in_arrays_def)

lemma sample_sortable: "sortable MAX_LEN sample"
  by (simp add: sortable_def sample_def good_entry_def MAX_LEN_def secret_key_def plain_def char_code_def d_nonneg_def d_one_def)

theorem thread_sort_orders_witness:
  "\<exists>es'. thread_merge_sort (\<lambda>key. (511, if depth key = 0 then Right_first else Left_first)) 3 (addparameter 0 2 0) (arrays sample)
      = Done (place secret 0 es' (arrays sample)) \<and> map fst es' = ranked_titles sample"
proof -
  let ?env = "\<lambda>key. (511 :: nat, if depth key = 0 then Right_first else Left_first)"
  have env: "snd (?env key) \<noteq> Left_lost" for key :: parameter by simp
  have "length sample \<le> 3" by (simp add: sample_ok)
  from thread_sort_orders [where env = ?env and es = sample and l = 0 and d = 0 and num_of_movies = 3 and room = MAX_LEN,
      OF env sample_ok(1) sample_sortable this arrays_hold]
  show ?thesis by (auto simp: sample_ok(2))
qed

text \<open>
  C25: the sort in forked processes does the same on the shared memory, with
  leaves of up to 1024 movies sorted in a private copy.
\<close>

theorem process_sort_orders:
  assumes "\<And>key. env key \<noteq> Left_lost"
    and "es \<noteq> []" and "sortable MAX_LEN es" and "length es \<le> num_of_movies" and "holds id l es f"
  shows "\<exists>es'. process_merge_sort env num_of_movies (addparameter (int l) (int (l + length es) - 1) d) f = Done (place secret l es' f)
    \<and> mset es' = mset es \<and> sorted (map rank es') \<and> map fst es' = ranked_titles es"
proof -
  obtain es' where es': "sorts_to es es'"
    "process_merge_sort env num_of_movies (addparameter (int l) (int l + int (length es) - 1) d) f = Done (place secret l es' f)"
    using process_sorts [where env = env and es = es and l = l and d = d and num = num_of_movies, OF assms(1,3,4,2)] assms(5)
    unfolding sorts_part_def by blast
  then show ?thesis using ranked_titles_unique [of es' es] by (auto simp: sorts_to_def)
qed

theorem process_sort_orders_witness:
  "\<exists>es'. process_merge_sort (\<lambda>_. Right_first) 3 (addparameter 0 2 0) (arrays sample)
      = Done (place secret 0 es' (arrays sample)) \<and> map fst es' = ranked_titles sample"
proof -
  have "length sample \<le> 3" by (simp add: sample_ok)
  from process_sort_orders [where env = "\<lambda>_. Right_first" and es = sample and l = 0 and d = 0 and num_of_movies = 3,
      OF _ sample_ok(1) sample_sortable this arrays_hold]
  show ?thesis by (auto simp: sample_ok(2))
qed

text \<open>Both sorts are title sorters, so either gives what the other gives.\<close>

definition titles_of :: "filtered_movies res \<Rightarrow> string list res" where
  "titles_of r = and_then r (\<lambda>f. Done (map the (title f)))"

definition thread_titles :: "(parameter \<Rightarrow> nat \<times> half_order) \<Rightarrow> nat \<Rightarrow> entry list \<Rightarrow> string list res" where
  "thread_titles env num es = titles_of (thread_merge_sort env num (addparameter 0 (int (length es) - 1) 0) (arrays es))"

definition process_titles :: "(parameter \<Rightarrow> half_order) \<Rightarrow> nat \<Rightarrow> entry list \<Rightarrow> string list res" where
  "process_titles env num es = titles_of (process_merge_sort env num (addparameter 0 (int (length es) - 1) 0) (arrays es))"

lemma titles_of_place:
  "mset es' = mset es \<Longrightarrow> titles_of (Done (place secret 0 es' (arrays es))) = Done (map (secret \<circ> fst) es')"
proof -
  assume "mset es' = mset es"
  then have "length es' = length es" by (metis size_mset)
  then show ?thesis by (simp add: titles_of_def place_def arrays_def splice_def)
qed

interpretation threads: title_sorter "thread_titles env num"
  "\<lambda>es. (\<forall>key. snd (env key) \<noteq> Left_lost) \<and> es \<noteq> [] \<and> sortable MAX_LEN es \<and> length es \<le> num" for env num
proof unfold_locales
  fix es :: "entry list"
  assume a: "(\<forall>key. snd (env key) \<noteq> Left_lost) \<and> es \<noteq> [] \<and> sortable MAX_LEN es \<and> length es \<le> num"
  then have "sorts_part (thread_merge_sort env num (addparameter 0 (int (length es) - 1) 0)) 0 es"
    using thread_sorts [of env MAX_LEN es num 0 0] by simp
  then obtain es' where "sorts_to es es'"
    "thread_merge_sort env num (addparameter 0 (int (length es) - 1) 0) (arrays es) = Done (place secret 0 es' (arrays es))"
    unfolding sorts_part_def using arrays_hold by blast
  then show "\<exists>es'. thread_titles env num es = Done (map (secret \<circ> fst) es') \<and> mset es' = mset es \<and> sorted (map rank es')"
    using titles_of_place by (auto simp: thread_titles_def sorts_to_def)
qed

interpretation processes: title_sorter "process_titles env num"
  "\<lambda>es. (\<forall>key. env key \<noteq> Left_lost) \<and> es \<noteq> [] \<and> sortable MAX_LEN es \<and> length es \<le> num" for env num
proof unfold_locales
  fix es :: "entry list"
  assume a: "(\<forall>key. env key \<noteq> Left_lost) \<and> es \<noteq> [] \<and> sortable MAX_LEN es \<and> length es \<le> num"
  then have "sorts_part (process_merge_sort env num (addparameter 0 (int (length es) - 1) 0)) 0 es"
    using process_sorts [of env es num 0 0] by simp
  then obtain es' where "sorts_to es es'"
    "process_merge_sort env num (addparameter 0 (int (length es) - 1) 0) (arrays es) = Done (place secret 0 es' (arrays es))"
    unfolding sorts_part_def using arrays_hold by blast
  then show "\<exists>es'. process_titles env num es = Done (map (secret \<circ> fst) es') \<and> mset es' = mset es \<and> sorted (map rank es')"
    using titles_of_place by (auto simp: process_titles_def sorts_to_def)
qed

text \<open>
  C26: the two merge sorts and the library alone are equivalent: on the same
  entries all three return the same titles, whatever the schedules and the
  order in which the entries come.
\<close>

theorem sorts_equivalent:
  assumes "\<And>key. snd (env key) \<noteq> Left_lost" and "\<And>key. env' key \<noteq> Left_lost"
    and "es \<noteq> []" and "sortable MAX_LEN es" and "length es \<le> num" and "mset es' = mset es"
  shows "thread_titles env num es = library_titles num es' \<and> process_titles env' num es = library_titles num es'"
proof -
  have good: "\<forall>x\<in>set es. good_entry x" using assms(4) by (simp add: sortable_def)
  have len: "length es' = length es" and set: "set es' = set es" using assms(6) by (metis size_mset, metis set_mset_mset)
  have "library_titles num es' = library_titles num es"
    by (rule library.run_permuted) (use assms good len set in auto)
  then show ?thesis
    using threads.run_eq [of env es num] processes.run_eq [of env' es num] library.run_eq [of es num] assms good by simp
qed

theorem sorts_equivalent_witness:
  "thread_titles (\<lambda>_. (512, Left_first)) 3 sample = library_titles 3 (rev sample)
     \<and> process_titles (\<lambda>_. Right_first) 3 sample = library_titles 3 (rev sample)"
  using sorts_equivalent [of "\<lambda>_. (512, Left_first)" "\<lambda>_. Right_first" sample 3 "rev sample"] sample_ok(1,2) sample_sortable by simp


section \<open>Requests\<close>

text \<open>
  The lines a request asks for: the movies found, best first, each with the
  secret. \<open>answer_from\<close> is what comes out when the scores start from what the
  block holds, \<open>answer\<close> when they start from zero.
\<close>

definition secret_lines :: "string list \<Rightarrow> string" where
  "secret_lines ts = concat (map (\<lambda>t. secret t @ [LF]) ts)"

definition answer_from :: "filtered_movies \<Rightarrow> request \<Rightarrow> movie_profile list \<Rightarrow> string" where
  "answer_from raw key movies = secret_lines (ranked_titles (entries_from raw key movies))"

definition answer :: "request \<Rightarrow> movie_profile list \<Rightarrow> string" where
  "answer key movies = secret_lines (ranked_titles (entries key movies))"

text \<open>A movie is found, and the titles leave room for the secret.\<close>

definition answerable :: "request \<Rightarrow> movie_profile list \<Rightarrow> bool" where
  "answerable key movies \<longleftrightarrow> found key movies \<noteq> []
     \<and> (\<forall>m\<in>set movies. plain (m_title m) \<and> length (secret (m_title m)) < MAX_LEN)"

text \<open>The block has room, and what it holds makes no score negative or NaN.\<close>

definition startable :: "filtered_movies \<Rightarrow> request \<Rightarrow> movie_profile list \<Rightarrow> bool" where
  "startable raw key movies \<longleftrightarrow> in_arrays 0 (length (found key movies)) raw
     \<and> (\<forall>x\<in>set (entries_from raw key movies). d_nonneg (snd x))"

definition servable :: "request \<Rightarrow> movie_profile list \<Rightarrow> bool" where
  "servable key movies \<longleftrightarrow> answerable key movies \<and> nonneg_profile (q_profile key)
     \<and> (\<forall>m\<in>set movies. nonneg_profile (m_profile m))"

lemma mset_ranked_titles: "mset (ranked_titles es) = mset (map fst es)"
  by (simp add: ranked_titles_def)

lemma entries_titles: "map fst (entries key movies) = map m_title (found key movies)"
  by (simp add: entries_def)

lemma secret_longer: "length (secret t) < n \<Longrightarrow> length t < n"
  by (simp add: secret_def)

lemma startable_nonneg:
  assumes "servable key movies" and "in_arrays 0 (length (found key movies)) raw"
    and "\<forall>x\<in>set (take (length (found key movies)) (scores raw)). d_nonneg x"
  shows "startable raw key movies"
proof -
  note len = entries_from_facts(1) [OF assms(2)]
  have q: "nonneg_profile (q_profile key)" and m: "\<forall>m\<in>set movies. nonneg_profile (m_profile m)"
    using assms(1) by (simp_all add: servable_def)
  have "d_nonneg (snd (entries_from raw key movies ! i))" if i: "i < length (found key movies)" for i
  proof -
    let ?m = "found key movies ! i" and ?s = "scores raw ! i"
    have r: "i < length (scores raw)" using i assms(2) by (simp add: in_arrays_def)
    then have "?s = take (length (found key movies)) (scores raw) ! i" using i by simp
    moreover have "i < length (take (length (found key movies)) (scores raw))" using r i by simp
    ultimately have s: "d_nonneg ?s" using assms(3) nth_mem by metis
    have "found key movies ! i \<in> set (found key movies)" using i by (rule nth_mem)
    then have "?m \<in> set movies" unfolding found_def by simp
    then have "nonneg_profile (m_profile ?m)" using m by blast
    then have "d_nonneg (score_from key ?s ?m)" unfolding score_from_def using q s by (intro add_scores_nonneg)
    then show ?thesis using i r by (simp add: entries_from_def)
  qed
  then have "\<forall>x\<in>set (entries_from raw key movies). d_nonneg (snd x)" unfolding all_set_conv_all_nth len by blast
  then show ?thesis using assms(2) by (simp add: startable_def)
qed

lemma startable_zeroed:
  assumes "servable key movies" and "zeroed (length (found key movies)) raw"
  shows "startable raw key movies"
proof (rule startable_nonneg [OF assms(1)])
  show "in_arrays 0 (length (found key movies)) raw" using assms(2) by (simp add: zeroed_def)
  show "\<forall>x\<in>set (take (length (found key movies)) (scores raw)). d_nonneg x"
    using assms(2) by (simp add: zeroed_def d_nonneg_def)
qed

lemma startable_entries:
  assumes "answerable key movies" and "startable raw key movies"
  shows "entries_from raw key movies \<noteq> []" and "sortable MAX_LEN (entries_from raw key movies)"
    and "length (entries_from raw key movies) \<le> length movies"
proof -
  let ?es = "entries_from raw key movies"
  note facts = entries_from_facts [of key movies raw]
  have arr: "in_arrays 0 (length (found key movies)) raw" using assms(2) by (simp add: startable_def)
  show "?es \<noteq> []" using assms(1) facts(1) [OF arr] by (auto simp: answerable_def)
  show "length ?es \<le> length movies" using facts(1) [OF arr] by (simp add: found_def)
  have "plain (fst x) \<and> length (secret (fst x)) < MAX_LEN" if "x \<in> set ?es" for x
  proof -
    have "fst x \<in> set (map m_title (found key movies))" using that facts(2) [OF arr] by (metis in_set_conv_nth length_map nth_map)
    then show ?thesis using assms(1) by (auto simp: answerable_def found_def)
  qed
  then have "plain (fst x) \<and> length (fst x) < MAX_LEN \<and> length (fst x) + length secret_key < MAX_LEN"
    if "x \<in> set ?es" for x
    using that by (simp add: secret_def) fastforce
  then show "sortable MAX_LEN ?es"
    using assms(2) by (simp add: sortable_def good_entry_def startable_def)
qed

lemma write_titles_Some: "write_titles (map (Some \<circ> g) xs) = Done (concat (map (\<lambda>x. g x @ [LF]) xs))"
  by (induction xs) (simp_all add: deref_str_def)

lemma output_placed:
  assumes "in_arrays 0 (length es) f" and "filtered_num f = int (length es)"
  shows "output_file ending i (place secret 0 es f) = Done (fmt_d i @ ending, secret_lines (map fst es))"
proof -
  have t: "take (length es) (title (place secret 0 es f)) = map (Some \<circ> (secret \<circ> fst)) es"
    using assms(1) by (simp add: place_def splice_def o_assoc)
  have "concat (map (\<lambda>x. (secret \<circ> fst) x @ [LF]) es) = secret_lines (map fst es)"
    by (simp add: secret_lines_def o_def)
  moreover have "filtered_num (place secret 0 es f) = int (length es)" using assms(2) by (simp add: place_def)
  ultimately show ?thesis using t write_titles_Some [of "secret \<circ> fst" es] by (simp add: output_file_def)
qed

text \<open>What either build does once its block is there and its sort is right.\<close>

lemma request_answered:
  fixes f raw key movies
  defines "f \<equiv> collect key (found key movies) 0 raw"
  assumes "answerable key movies" and "startable raw key movies"
    and sorts: "sorts_part run 0 (entries_from raw key movies)"
  shows "\<exists>g. run f = Done g \<and> output_file ending i g = Done (fmt_d i @ ending, answer_from raw key movies)"
    and "filtered_num f = int (length (entries_from raw key movies))"
proof -
  let ?es = "entries_from raw key movies"
  have arr: "in_arrays 0 (length (found key movies)) raw" using assms(3) by (simp add: startable_def)
  have h: "holds id 0 ?es f" unfolding f_def by (rule collect_holds [OF arr])
  show n: "filtered_num f = int (length ?es)"
    using entries_from_facts(1) [OF arr] by (simp add: f_def collect_def)
  obtain es' where es': "sorts_to ?es es'" "run f = Done (place secret 0 es' f)"
    using sorts h unfolding sorts_part_def by blast
  have len: "length es' = length ?es" using es'(1) by (rule sorts_to_length)
  have "map fst es' = ranked_titles ?es" using es'(1) ranked_titles_unique by (simp add: sorts_to_def)
  then have "output_file ending i (place secret 0 es' f) = Done (fmt_d i @ ending, answer_from raw key movies)"
    using output_placed [of es' f ending i] h n len by (simp add: answer_from_def holds_def)
  then show "\<exists>g. run f = Done g \<and> output_file ending i g = Done (fmt_d i @ ending, answer_from raw key movies)"
    using es'(2) by blast
qed

lemma thread_request:
  assumes "answerable key movies" and "startable raw key movies" and "\<forall>p. snd (env p) \<noteq> Left_lost"
  shows "handle_request env raw movies key = Done (fmt_d (q_id key) @ ''t.out'', answer_from raw key movies)"
proof -
  let ?raw = "new_filtered THREAD raw"
  let ?f = "collect key (found key movies) 0 ?raw" and ?es = "entries_from ?raw key movies"
  have same: "?es = entries_from raw key movies" by (simp add: entries_from_def new_filtered_def)
  have st: "startable ?raw key movies"
    using assms(2) by (simp add: startable_def in_arrays_def new_filtered_def entries_from_def)
  have filt: "filter_movies THREAD raw movies key = Done ?f"
    by (rule filter_movies_collect) (use st in \<open>simp_all add: startable_def\<close>)
  note es = startable_entries [OF assms(1) st]
  have sorts: "sorts_part (thread_merge_sort env (length movies) (addparameter 0 (int (length ?es) - 1) 0)) 0 ?es"
    using thread_sorts [of env MAX_LEN ?es "length movies" 0 0] assms(3) es by simp
  note run = request_answered [OF assms(1) st sorts]
  obtain g where "thread_merge_sort env (length movies) (addparameter 0 (filtered_num ?f - 1) 0) ?f = Done g"
    "output_file ''t.out'' (q_id key) g = Done (fmt_d (q_id key) @ ''t.out'', answer_from ?raw key movies)"
    using run(1) [of "''t.out''" "q_id key"] run(2) by auto
  then show ?thesis using filt same by (simp add: handle_request_def answer_from_def)
qed

lemma process_request:
  assumes "servable key movies" and "\<forall>p. env p \<noteq> Left_lost" and "length (found key movies) \<le> MAX_MOVIES"
  shows "serve_process env movies (key # reqs) = Done (fmt_d (q_id key) @ ''p.out'', answer key movies)"
proof -
  let ?raw = "new_filtered PROCESS \<lparr>filtered_num = 0, title = [], scores = []\<rparr>"
  let ?f = "collect key (found key movies) 0 ?raw" and ?es = "entries_from ?raw key movies"
  have z: "zeroed (length (found key movies)) ?raw"
    using assms(3) by (simp add: zeroed_def in_arrays_def new_filtered_def min_absorb2)
  have ans: "answerable key movies" using assms(1) by (simp add: servable_def)
  have st: "startable ?raw key movies" by (rule startable_zeroed [OF assms(1) z])
  have short: "\<forall>m\<in>set movies. length (m_title m) < MAX_LEN" using ans secret_longer by (auto simp: answerable_def)
  have filt: "filter_movies PROCESS \<lparr>filtered_num = 0, title = [], scores = []\<rparr> movies key = Done ?f"
    by (rule filter_movies_collect) (use z short in \<open>simp_all add: zeroed_def\<close>)
  note es = startable_entries [OF ans st]
  have sorts: "sorts_part (process_merge_sort env (length movies) (addparameter 0 (int (length ?es) - 1) 0)) 0 ?es"
    using process_sorts [of env ?es "length movies" 0 0] assms(2) es by simp
  note run = request_answered [OF ans st sorts]
  obtain g where "process_merge_sort env (length movies) (addparameter 0 (filtered_num ?f - 1) 0) ?f = Done g"
    "output_file ''p.out'' (q_id key) g = Done (fmt_d (q_id key) @ ''p.out'', answer_from ?raw key movies)"
    using run(1) [of "''p.out''" "q_id key"] run(2) by auto
  then show ?thesis
    using filt entries_from_zeroed [OF z] by (simp add: serve_process_def answer_from_def answer_def)
qed


section \<open>The servers\<close>

text \<open>Rows and request lines whose numbers fit the sum of squares; then everything read can be scored.\<close>

fun scorable :: "nat list \<Rightarrow> bool" where
  "scorable ns \<longleftrightarrow> list_all (\<lambda>n. n < 2 ^ 350) ns"

lemma scorable_profile:
  assumes "scorable ns" and "length ns = NUM_OF_GENRE"
  shows "nonneg_profile (normalize (map (\<lambda>n. d_round False n 1 0) ns))"
proof -
  have "list_all (moderate 300) (map (\<lambda>n. d_round False n 1 0) ns)"
    using assms(1) moderate_nat by (simp add: list_all_iff)
  then show ?thesis using normalize_finite assms(2) normalize_wf by (simp add: nonneg_profile_def)
qed

text \<open>
  C27: when the numbers of two profiles are finite, not negative and below
  \<open>2 ^ 353\<close> (their last bit at most at \<open>2 ^ 300\<close>), normalizing never overflows
  or divides by zero: the normalized profiles are finite and not negative, and
  the score that starts from a number that is not negative is never negative
  and never NaN, so the library's assertion on the maximum holds.
\<close>

theorem scores_never_negative:
  assumes "list_all (moderate 300) rs" and "list_all (moderate 300) rs'"
    and "length rs = NUM_OF_GENRE" and "length rs' = NUM_OF_GENRE" and "d_nonneg s"
  shows "list_all finite_nonneg (normalize rs) \<and> list_all finite_nonneg (normalize rs')
    \<and> d_nonneg (add_scores s (normalize rs) (normalize rs'))"
proof -
  have fin: "list_all finite_nonneg (normalize rs)" "list_all finite_nonneg (normalize rs')"
    using assms(1,2) normalize_finite by blast+
  moreover have "d_nonneg (add_scores s (normalize rs) (normalize rs'))"
    using fin assms(3-5) normalize_wf by (intro add_scores_nonneg) (simp_all add: nonneg_profile_def)
  ultimately show ?thesis by blast
qed

theorem scores_never_negative_witness:
  "list_all finite_nonneg (normalize (replicate 19 d_one)) \<and> list_all finite_nonneg (normalize (d_zero # replicate 18 d_one))
    \<and> d_nonneg (add_scores d_zero (normalize (replicate 19 d_one)) (normalize (d_zero # replicate 18 d_one)))"
  by (rule scores_never_negative) (simp_all add: moderate_def d_one_def NUM_OF_GENRE_def d_nonneg_def list_all_iff)

text \<open>
  C28: everything \<open>initialize\<close> reads is well typed: at most \<open>MAX_MOVIES\<close>
  movies and \<open>MAX_REQ\<close> requests, every profile 19 numbers of the binary64
  format, every title shorter than the line buffer and without NUL and brace.
\<close>

theorem loaded_data_typed:
  assumes "initialize vars file inp = Done (movies, reqs)"
  shows "length movies \<le> MAX_MOVIES \<and> length reqs \<le> MAX_REQ \<and> list_all movie_typed movies \<and> list_all request_typed reqs"
  using assms
proof (cases rule: initialize_cases)
  case (1 rows n r)
  then show ?thesis using read_movies_typed [OF 1(1)] read_requests_typed [OF 1(3)] by simp
qed

text \<open>Two rows of the data set and a request for a film of 1995.\<close>

definition comedy :: "nat list" where "comedy = [0, 0, 0, 1, 0, 0, 0, 0, 0, 0, 0, 0, 0, 0, 0, 0, 0, 0, 0]"
definition action :: "nat list" where "action = [1, 0, 0, 0, 0, 0, 0, 0, 0, 0, 0, 0, 0, 0, 0, 0, 0, 0, 0]"

definition rows2 :: "row list" where
  "rows2 = [(1, ''Toy Story (1995)'', comedy), (6, ''Heat (1995)'', action)]"

definition line1 :: request_line where
  "line1 = (7, ''1995'', comedy)"

definition data_file :: string where
  "data_file = ''movieId title genres'' @ LF # print_rows rows2"

definition input1 :: string where
  "input1 = dec_nat 1 @ print_requests [line1]"

lemmas genres_list = comedy_def action_def

lemma dec_nat_small: "n < 10 \<Longrightarrow> dec_nat n = [digit_char n]"
  by (subst dec_nat.simps) simp

lemma fmt_d_small: "n < 10 \<Longrightarrow> fmt_d (word_of_nat n) = [digit_char n]"
  using sint_of_nat [of n] by (simp add: fmt_d_def dec_nat_small)

lemma rows2_ok: "list_all row_ok rows2"
  using fmt_d_small [of 1] fmt_d_small [of 6]
  by (simp add: rows2_def genres_list NUM_OF_GENRE_def MAX_LEN_def dec_nat_small)

lemma line1_ok: "request_ok line1"
  by (simp add: line1_def genres_list NUM_OF_GENRE_def MAX_LEN_def dec_nat_small isspace_def char_code_def)

lemma data_file_read: "initialize vars data_file input1 = Done (map row_movie rows2, [line_request line1])"
  using initialize_printed [of "''movieId title genres''" rows2 "[line1]" vars] rows2_ok line1_ok
  by (simp add: data_file_def input1_def MAX_LEN_def MAX_REQ_def MAX_MOVIES_def rows2_def)

theorem loaded_data_typed_witness:
  "length (map row_movie rows2) \<le> MAX_MOVIES \<and> list_all movie_typed (map row_movie rows2) \<and> list_all request_typed [line_request line1]"
  using loaded_data_typed [OF data_file_read [of undefined]] by blast

text \<open>
  C29: the data set and the requests are read back as they were printed: a
  header line, a row for every movie with its number, title and genres in
  braces, and on the input the number of requests and a line for each.
\<close>

theorem printed_data_read_back:
  assumes "LF \<notin> set header" and "length header < MAX_LEN - 1" and "list_all row_ok rows" and "length rows \<le> MAX_MOVIES"
    and "list_all request_ok rs" and "length rs \<le> MAX_REQ"
  shows "initialize vars (header @ LF # print_rows rows) (dec_nat (length rs) @ print_requests rs) =
    Done (map row_movie rows, map line_request rs)"
  using assms by (rule initialize_printed)

theorem printed_data_read_back_witness:
  "initialize undefined (''id title {genres}'' @ LF # print_rows rows2) (dec_nat 1 @ print_requests [line1]) =
     Done (map row_movie rows2, [line_request line1])"
  using printed_data_read_back [of "''id title {genres}''" rows2 "[line1]" undefined] rows2_ok line1_ok
  by (simp add: MAX_LEN_def MAX_REQ_def MAX_MOVIES_def rows2_def)


lemma serve_all_answers:
  assumes "\<forall>i < length reqs. answerable (reqs ! i) movies \<and> startable (raw (n + i)) (reqs ! i) movies"
    and "\<forall>i p. snd (env i p) \<noteq> Left_lost"
  shows "serve_all env raw movies n reqs =
    Done (map (\<lambda>(i, q). (fmt_d (q_id q) @ ''t.out'', answer_from (raw i) q movies)) (enumerate n reqs))"
  using assms(1)
proof (induction reqs arbitrary: n)
  case (Cons q reqs)
  have "answerable q movies" "startable (raw n) q movies" using Cons.prems by auto
  then have "handle_request (env n) (raw n) movies q = Done (fmt_d (q_id q) @ ''t.out'', answer_from (raw n) q movies)"
    using assms(2) by (intro thread_request) simp_all
  moreover have "\<forall>i < length reqs. answerable (reqs ! i) movies \<and> startable (raw (Suc n + i)) (reqs ! i) movies"
    using Cons.prems by (metis add_Suc add_Suc_right length_Cons nth_Cons_Suc Suc_less_eq)
  ultimately show ?case using Cons.IH [of "Suc n"] by simp
qed simp

text \<open>
  C30: the thread server answers every request. When the data can be read, each
  request finds a movie, the titles leave room for the secret, no thread fails
  to start, and what \<open>malloc\<close> left in the block of a request makes no score
  negative or NaN, the run of \<open>main\<close> ends with one file for each request,
  named after it, that holds the titles found, best score first, each with the
  secret and a line end; the scores start from what the block holds, and when
  it holds zeros the file is the answer by the scores alone. The schedule of
  the threads and the count of threads have no influence.
\<close>

theorem thread_server_answers:
  assumes "initialize vars txt inp = Done (movies, reqs)"
    and "\<forall>i < length reqs. answerable (reqs ! i) movies \<and> startable (raw i) (reqs ! i) movies"
    and "\<forall>i p. snd (env i p) \<noteq> Left_lost"
  shows "tserver_main env raw vars 1 (Some txt) inp =
    Done (map (\<lambda>(i, q). (fmt_d (q_id q) @ ''t.out'', answer_from (raw i) q movies)) (enumerate 0 reqs))
    \<and> (\<forall>i < length reqs. zeroed (length (found (reqs ! i) movies)) (raw i) \<longrightarrow>
        answer_from (raw i) (reqs ! i) movies = answer (reqs ! i) movies)"
  using assms(1) serve_all_answers [of reqs movies raw 0 env] assms(2,3)
  by (simp add: tserver_main_def answer_from_def answer_def entries_from_zeroed)

lemma rows2_servable: "servable (line_request line1) (map row_movie rows2)"
proof -
  have p: "nonneg_profile (normalize (map (\<lambda>n. d_round False n 1 0) ns))" if "ns = comedy \<or> ns = action" for ns
    using that by (intro scorable_profile) (auto simp: genres_list NUM_OF_GENRE_def)
  have "found (line_request line1) (map row_movie rows2) = map row_movie rows2"
    by (simp add: found_def line1_def rows2_def sublist_Cons_right)
  then have "found (line_request line1) (map row_movie rows2) \<noteq> []" by (simp add: rows2_def)
  moreover have "nonneg_profile (q_profile (line_request line1))" using p by (simp add: line1_def)
  moreover have "\<forall>m\<in>set (map row_movie rows2). nonneg_profile (m_profile m)" using p by (simp add: rows2_def)
  moreover have "\<forall>m\<in>set (map row_movie rows2). plain (m_title m) \<and> length (secret (m_title m)) < MAX_LEN"
    by (simp add: rows2_def plain_def char_code_def secret_def secret_key_def MAX_LEN_def)
  ultimately show ?thesis unfolding servable_def answerable_def by blast
qed

lemma raw_zero_zeroed: "zeroed 2 raw_zero"
  by (simp add: zeroed_def in_arrays_def raw_zero_def numeral_eq_Suc)

lemma rows2_length: "length (map row_movie rows2) = 2"
  by (simp add: rows2_def)

text \<open>Two blocks: one of zeros, one that holds a one in the first place.\<close>

definition raw_one :: filtered_movies where
  "raw_one = \<lparr>filtered_num = 5, title = [None, None], scores = [d_one, d_zero]\<rparr>"

lemma rows2_startable:
  assumes "raw = raw_zero \<or> raw = raw_one"
  shows "startable raw (line_request line1) (map row_movie rows2)"
proof (rule startable_nonneg [OF rows2_servable])
  have "length (found (line_request line1) (map row_movie rows2)) \<le> 2"
    unfolding rows2_length [symmetric] by (simp add: found_def)
  then show "in_arrays 0 (length (found (line_request line1) (map row_movie rows2))) raw"
    using assms by (auto simp: in_arrays_def raw_zero_def raw_one_def)
  have "set (take n (scores raw)) \<subseteq> {d_zero, d_one}" for n
    using assms set_take_subset [of n "scores raw"] by (auto simp: raw_zero_def raw_one_def)
  moreover have "d_nonneg d_zero" "d_nonneg d_one" by (simp_all add: d_nonneg_def d_one_def)
  ultimately show "\<forall>x\<in>set (take (length (found (line_request line1) (map row_movie rows2))) (scores raw)). d_nonneg x"
    by blast
qed

lemma rows2_ready:
  assumes "raw = raw_zero \<or> raw = raw_one"
  shows "\<forall>i < length [line_request line1]. answerable ([line_request line1] ! i) (map row_movie rows2)
    \<and> startable raw ([line_request line1] ! i) (map row_movie rows2)"
  using rows2_servable rows2_startable [OF assms] unfolding servable_def by simp

lemma line1_id: "q_id (line_request line1) = 7"
  by (simp add: line1_def)

theorem thread_server_answers_witness:
  "tserver_main (\<lambda>i p. (i, Right_first)) (\<lambda>i. raw_one) undefined 1 (Some data_file) input1 =
     Done [(fmt_d 7 @ ''t.out'', answer_from raw_one (line_request line1) (map row_movie rows2))]"
  using thread_server_answers [OF data_file_read rows2_ready [of raw_one], where env = "\<lambda>i p. (i, Right_first)"]
  by (simp add: line1_id)

text \<open>
  C31: the two builds agree. On data and input both can read, when each request
  finds a movie, the titles leave room for the secret, the profiles are finite
  and not negative, no half is lost, and what \<open>malloc\<close> left in the blocks of
  the thread server makes no score negative or NaN, both servers write for the
  first request the lines of the same movies; the process server, whose shared
  memory starts as zeros, in the order of the scores, and the thread server
  exactly the same bytes when its block holds zeros.
\<close>

theorem servers_agree:
  assumes "initialize vars txt inp = Done (movies, key # reqs)" and "servable key movies"
    and "\<forall>i < length (key # reqs). answerable ((key # reqs) ! i) movies \<and> startable (raw i) ((key # reqs) ! i) movies"
    and "\<forall>i p. snd (env i p) \<noteq> Left_lost" and "\<forall>p. env' p \<noteq> Left_lost"
  shows "\<exists>ts ts' more. pserver_main env' vars 1 (Some txt) inp = Done (fmt_d (q_id key) @ ''p.out'', secret_lines ts)
    \<and> tserver_main env raw vars 1 (Some txt) inp = Done ((fmt_d (q_id key) @ ''t.out'', secret_lines ts') # more)
    \<and> ts = ranked_titles (entries key movies) \<and> mset ts = mset (map m_title (found key movies)) \<and> mset ts' = mset ts
    \<and> (zeroed (length (found key movies)) (raw 0) \<longrightarrow> ts' = ts)"
proof (intro exI conjI)
  let ?ts = "ranked_titles (entries key movies)" and ?ts' = "ranked_titles (entries_from (raw 0) key movies)"
  have "\<forall>i < length (key # reqs). answerable ((key # reqs) ! i) movies \<and> startable (raw (0 + i)) ((key # reqs) ! i) movies"
    using assms(3) by (simp only: add_0)
  note served = serve_all_answers [OF this assms(4)]
  have "length movies \<le> MAX_MOVIES"
    using assms(1) by (cases rule: initialize_cases) (use read_movies_typed in force)
  moreover have "length (found key movies) \<le> length movies" by (simp add: found_def)
  ultimately have "serve_process env' movies (key # reqs) = Done (fmt_d (q_id key) @ ''p.out'', answer key movies)"
    using assms(2,5) by (intro process_request) simp_all
  then show "pserver_main env' vars 1 (Some txt) inp = Done (fmt_d (q_id key) @ ''p.out'', secret_lines ?ts)"
    using assms(1) by (simp add: pserver_main_def answer_def)
  show "tserver_main env raw vars 1 (Some txt) inp = Done ((fmt_d (q_id key) @ ''t.out'', secret_lines ?ts')
      # map (\<lambda>(i, q). (fmt_d (q_id q) @ ''t.out'', answer_from (raw i) q movies)) (enumerate (Suc 0) reqs))"
    using assms(1) served by (simp add: tserver_main_def answer_from_def)
  show "mset ?ts = mset (map m_title (found key movies))"
    by (simp only: mset_ranked_titles entries_titles)
  have "in_arrays 0 (length (found key movies)) (raw 0)"
    using assms(3) [rule_format, of 0] by (simp add: startable_def)
  then show "mset ?ts' = mset ?ts" by (simp only: mset_ranked_titles entries_from_facts(2) entries_titles)
  show "zeroed (length (found key movies)) (raw 0) \<longrightarrow> ?ts' = ?ts" by (simp add: entries_from_zeroed)
qed simp

theorem servers_agree_witness:
  "\<exists>ts ts' more. pserver_main (\<lambda>p. Left_first) undefined 1 (Some data_file) input1 = Done (fmt_d 7 @ ''p.out'', secret_lines ts)
    \<and> tserver_main (\<lambda>i p. (i, Right_first)) (\<lambda>i. raw_zero) undefined 1 (Some data_file) input1 = Done ((fmt_d 7 @ ''t.out'', secret_lines ts') # more)
    \<and> ts' = ts"
proof -
  have "length (found (line_request line1) (map row_movie rows2)) \<le> 2"
    unfolding rows2_length [symmetric] by (simp add: found_def)
  then have "zeroed (length (found (line_request line1) (map row_movie rows2))) raw_zero"
    using raw_zero_zeroed zeroed_less by blast
  with servers_agree [OF data_file_read rows2_servable rows2_ready [of raw_zero],
      where env = "\<lambda>i p. (i, Right_first)" and env' = "\<lambda>p. Left_first"]
  show ?thesis unfolding line1_id by fastforce
qed

text \<open>
  A part that has no movie is split as if it had, until the library is called
  with size -1 and follows \<open>title[-1]\<close>.
\<close>

lemma sort_part_before: "sort_part num 1 (-1) f \<noteq> Done g"
  by (simp add: sort_part_def)

lemma empty_part_stops:
  assumes "left key = 1" and "right key = -1"
  shows "thread_merge_sort env num key f \<noteq> Done g"
  using assms
proof (induction "nat (MAX_DEPTH - depth key)" arbitrary: key f g rule: less_induct)
  case less
  show ?case
  proof (cases "depth key \<ge> MAX_DEPTH")
    case True
    then have "thread_merge_sort env num key f = sort_part num (left key) (right key) f"
      by (subst thread_merge_sort.simps) simp
    then show ?thesis using less.prems by (simp add: sort_part_before)
  next
    case False
    have mid: "(right key + left key) sdiv 2 = 0" using less.prems by (auto simp: signed_divide_int_def)
    let ?l = "addparameter 1 0 (depth key + 1)" and ?r = "addparameter 1 (right key) (depth key + 1)"
    have half: "thread_merge_sort env num ?r s \<noteq> Done s'" for s s'
      by (rule less.hyps) (use False less.prems in \<open>auto simp: addparameter_def\<close>)
    have "both_halves ord L (thread_merge_sort env num ?r) f \<noteq> Done x" for ord L x
      using half by (cases ord) (auto simp: both_halves_def)
    then show ?thesis
      using False less.prems mid by (subst thread_merge_sort.simps) (auto simp: Let_def split: prod.splits)
  qed
qed

text \<open>
  C32: a request that no movie matches ends the server: the library is called
  with a size that is not positive and leaves the arrays, in either build.
\<close>

theorem no_match_stops:
  assumes "found key movies = []"
  shows "(\<forall>out. handle_request env raw movies key \<noteq> Done out) \<and> serve_process env' movies (key # reqs) = Stop Bad_memory"
proof
  have empty: "\<exists>f. filter_movies b r movies key = Done f \<and> filtered_num f = 0"
    if "b = THREAD \<or> (\<forall>m\<in>set movies. length (m_title m) < MAX_LEN)" for b r
    using filter_movies_collect [of key movies b r] that assms by (auto simp: in_arrays_def collect_def)
  have stops: "thread_merge_sort env num (addparameter 0 (-1) 0) f \<noteq> Done g" for num f g
  proof -
    have half: "thread_merge_sort env num (addparameter 1 (-1) 1) s \<noteq> Done s'" for s s'
      by (rule empty_part_stops) (simp_all add: addparameter_def)
    have "both_halves ord L (thread_merge_sort env num (addparameter 1 (-1) 1)) f \<noteq> Done x" for ord L x
      using half by (cases ord) (auto simp: both_halves_def)
    moreover have "(- 1 + 0 :: int) sdiv 2 = 0" by (simp add: signed_divide_int_def)
    ultimately show ?thesis
      by (subst thread_merge_sort.simps) (auto simp: addparameter_def MAX_DEPTH_def Let_def split: prod.splits)
  qed
  obtain f where "filter_movies THREAD raw movies key = Done f" "filtered_num f = 0" using empty by blast
  then show "\<forall>out. handle_request env raw movies key \<noteq> Done out" using stops by (simp add: handle_request_def)
  have skip: "filter_loop PROCESS key ms f = Done f" if "found key ms = []" for ms f
    using that by (induction ms) (simp_all add: found_def wanted_iff split: if_splits)
  show "serve_process env' movies (key # reqs) = Stop Bad_memory"
    using skip [OF assms]
    by (simp add: serve_process_def filter_movies_def new_filtered_def process_merge_sort.simps [of env'] addparameter_def
        sort_copy_def sort_lib_def validate_def)
qed

theorem no_match_stops_witness:
  "serve_process (\<lambda>p. Left_first) [movie_a, movie_b] [request_a ''Zorro''] = Stop Bad_memory"
proof -
  have "found (request_a ''Zorro'') [movie_a, movie_b] = []"
    by (simp add: found_def request_a_def movie_a_def movie_b_def sublist_Cons_right)
  from no_match_stops [OF this] show ?thesis by blast
qed

end
