(* ===== verification/Pvp_Battle.thy ===== *)
theory Pvp_Battle
  imports C_Strings
begin

text \<open>
  The battle process of the championship (status.h, battle.c): the message
  \<open>Status\<close> (PSSM) that players and battles pass to each other, the tables of
  the tournament tree, the attack, one round of the playing mode, and the
  process as a state machine. \<open>bpc\<close> says which system call the process makes
  next; \<open>battle_do\<close> is that call with what follows it up to the next one.
  The write ahead of it, the log, is the process's own file and is kept with it.
\<close>

section \<open>Messages\<close>

record Status =
  real_player_id :: cint
  HP :: cint
  ATK :: cint
  attr :: cuint
  current_battle_id :: char
  battle_ended_flag :: cint

definition FIRE :: cuint where "FIRE = 0"
definition GRASS :: cuint where "GRASS = 1"
definition WATER :: cuint where "WATER = 2"

section \<open>The tournament tree\<close>

definition battle_children :: "string list" where
  "battle_children = [''B'', ''C'', ''D'', ''E'', ''F'', ''14'', ''G'', ''H'', ''I'', ''J'', ''K'', ''L'', ''0'', ''1'', ''2'', ''3'',
     ''4'', ''5'', ''6'', ''7'', ''M'', ''10'', ''N'', ''13'', ''8'', ''9'', ''11'', ''12'']"

definition battle_parent :: "string list" where
  "battle_parent = [''-1'', ''A'', ''A'', ''B'', ''B'', ''C'', ''D'', ''D'', ''E'', ''E'', ''F'', ''F'', ''K'', ''L'']"

definition battle_attr :: "cuint list" where
  "battle_attr = [0, 1, 2, 2, 0, 0, 0, 1, 2, 1, 1, 1, 0, 2]"

definition num_of_player :: "nat list" where
  "num_of_player = [0, 0, 1, 0, 0, 0, 2, 2, 2, 2, 1, 1, 2, 2]"

definition battle_index :: "char \<Rightarrow> nat" where
  "battle_index b = char_code b - 65"

definition attr_of :: "char \<Rightarrow> cuint" where
  "attr_of b = battle_attr ! battle_index b"

text \<open>\<open>main\<close> executes \<open>player\<close> or \<open>battle\<close> with the name from the table.\<close>

datatype proc = Battle char | Player nat

definition child_name :: "char \<Rightarrow> nat \<Rightarrow> string" where
  "child_name b i = battle_children ! (2 * battle_index b + i)"

definition child :: "char \<Rightarrow> nat \<Rightarrow> proc" where
  "child b i =
     (let children_alive = 2 - num_of_player ! battle_index b in
      if i \<ge> children_alive then Player (nat (sint (atoi (child_name b i)))) else Battle (hd (child_name b i)))"

section \<open>Attack and round\<close>

definition play_an_attack :: "Status \<Rightarrow> Status \<Rightarrow> cuint \<Rightarrow> Status \<times> Status \<times> bool" where
  "play_an_attack p1 p2 a =
     (let atk = (if attr p1 = a then ATK p1 * 2 else ATK p1);
          p2' = p2\<lparr>HP := HP p2 - atk\<rparr>
      in if c_le (HP p2') 0 then (p1\<lparr>battle_ended_flag := 1\<rparr>, p2'\<lparr>battle_ended_flag := 1\<rparr>, True)
         else (p1, p2', False))"

text \<open>\<open>ptr[f]\<close> attacks \<open>ptr[1 - f]\<close>.\<close>

definition attack_by :: "nat \<Rightarrow> cuint \<Rightarrow> Status list \<Rightarrow> Status list \<times> bool" where
  "attack_by f a ptr =
     (case play_an_attack (ptr ! f) (ptr ! (1 - f)) a of (p, q, ended) \<Rightarrow> (ptr[f := p, 1 - f := q], ended))"

definition attacks_first :: "Status \<Rightarrow> Status \<Rightarrow> nat" where
  "attacks_first p0 p1 =
     (if c_less (HP p1) (HP p0) \<or> HP p0 = HP p1 \<and> c_less (real_player_id p1) (real_player_id p0) then 1 else 0)"

definition battle_round :: "char \<Rightarrow> Status list \<Rightarrow> nat \<times> Status list" where
  "battle_round b ptr =
     (let ptr1 = map (\<lambda>p. p\<lparr>current_battle_id := b\<rparr>) ptr;
          first_attack = attacks_first (ptr1 ! 0) (ptr1 ! 1)
      in case attack_by first_attack (attr_of b) ptr1 of (ptr2, ended) \<Rightarrow>
           if ended then (first_attack, ptr2)
           else (1 - first_attack, fst (attack_by (1 - first_attack) (attr_of b) ptr2)))"

section \<open>The process\<close>

datatype bpc =
  B_fork nat | B_read nat | B_write nat | B_wait | B_pass_read | B_pass_up | B_pass_down | B_pass_write | B_last_wait | B_exit

record battle =
  battle_id :: char
  parent_pid :: cint
  first_attack :: nat
  ptr :: "Status list"
  bpc :: bpc
  waited :: nat
  b_log :: "string list"
  b_out :: string

text \<open>A pipe of the process \<open>q\<close> to or from its parent, or the fifo of an agent.\<close>

datatype chan = To_parent proc | To_child proc | Fifo int

text \<open>The system calls of either program; \<open>Receive\<close> stores nothing at the end of the file.\<close>

datatype 'l action =
  Spawn proc string 'l
| Receive chan "Status option \<Rightarrow> 'l"
| Put chan Status 'l
| Wait 'l
| Done

definition status_text :: "Status \<Rightarrow> string" where
  "status_text p = fmt_d (real_player_id p) @ '','' @ fmt_d (HP p) @ '','' @ [current_battle_id p] @ '','' @ fmt_d (battle_ended_flag p)"

definition battle_line :: "string \<Rightarrow> char \<Rightarrow> cint \<Rightarrow> string \<Rightarrow> cint \<Rightarrow> Status \<Rightarrow> string" where
  "battle_line dir b pid target targetpid p =
     [b] @ '','' @ fmt_d pid @ '' pipe '' @ dir @ '' '' @ target @ '','' @ fmt_d targetpid @ '' '' @ status_text p @ [LF]"

text \<open>\<open>read_Status\<close> into \<open>ptr[k]\<close> and \<open>write_Status\<close> from it, with their line in the log.\<close>

definition battle_read :: "nat \<Rightarrow> cint \<Rightarrow> cint \<Rightarrow> string \<Rightarrow> Status option \<Rightarrow> battle \<Rightarrow> battle" where
  "battle_read k pid targetpid target x b =
     (let p = (case x of None \<Rightarrow> ptr b ! k | Some p \<Rightarrow> p)
      in b\<lparr>ptr := (ptr b)[k := p], b_log := b_log b @ [battle_line ''from'' (battle_id b) pid target targetpid p]\<rparr>)"

definition battle_wrote :: "nat \<Rightarrow> cint \<Rightarrow> cint \<Rightarrow> string \<Rightarrow> battle \<Rightarrow> battle" where
  "battle_wrote k pid targetpid target b =
     b\<lparr>b_log := b_log b @ [battle_line ''to'' (battle_id b) pid target targetpid (ptr b ! k)]\<rparr>"

text \<open>The test of the playing loop, with the round it admits.\<close>

definition loop_head :: "battle \<Rightarrow> battle" where
  "loop_head b =
     (if battle_ended_flag (ptr b ! 0) = 0
      then (case battle_round (battle_id b) (ptr b) of (f, ptr') \<Rightarrow> b\<lparr>first_attack := f, ptr := ptr', bpc := B_write 0\<rparr>)
      else b\<lparr>bpc := B_wait\<rparr>)"

text \<open>The end of the passing mode.\<close>

definition passing_over :: "Status \<Rightarrow> bool" where
  "passing_over p \<longleftrightarrow> c_le (HP p) 0 \<or> current_battle_id p = CHR ''A'' \<and> battle_ended_flag p = 1"

definition champion_line :: "cint \<Rightarrow> string" where
  "champion_line winner = ''Champion is P'' @ fmt_d winner @ [LF]"

definition battle_do :: "(proc \<Rightarrow> cint) \<Rightarrow> battle \<Rightarrow> battle action" where
  "battle_do pids b =
     (let self = Battle (battle_id b); pid = pids self; kid = child (battle_id b); name = child_name (battle_id b);
          f = first_attack b; parent = battle_parent ! battle_index (battle_id b)
      in case bpc b of
           B_fork i \<Rightarrow> Spawn (kid i) (name i) (b\<lparr>bpc := (if i = 0 then B_fork 1 else B_read 0)\<rparr>)
         | B_read j \<Rightarrow> Receive (To_parent (kid j)) (\<lambda>x.
             let b' = battle_read j pid (pids (kid j)) (name j) x b
             in if j = 0 then b'\<lparr>bpc := B_read 1\<rparr> else loop_head b')
         | B_write k \<Rightarrow> Put (To_child (kid k)) (ptr b ! k)
             (let b' = battle_wrote k pid (pids (kid k)) (name k) b
              in if k = 0 then b'\<lparr>bpc := B_write 1\<rparr>
                 else if battle_ended_flag (ptr b ! 0) = 0 then b'\<lparr>bpc := B_read 0\<rparr> else b'\<lparr>bpc := B_wait\<rparr>)
         | B_wait \<Rightarrow> Wait (b\<lparr>waited := waited b + 1, bpc := (if battle_id b = CHR ''A'' then B_last_wait else B_pass_read)\<rparr>)
         | B_pass_read \<Rightarrow> Receive (To_parent (kid f)) (\<lambda>x. (battle_read f pid (pids (kid f)) (name f) x b)\<lparr>bpc := B_pass_up\<rparr>)
         | B_pass_up \<Rightarrow> Put (To_parent self) (ptr b ! f) ((battle_wrote f pid (parent_pid b) parent b)\<lparr>bpc := B_pass_down\<rparr>)
         | B_pass_down \<Rightarrow> Receive (To_child self) (\<lambda>x. (battle_read f pid (parent_pid b) parent x b)\<lparr>bpc := B_pass_write\<rparr>)
         | B_pass_write \<Rightarrow> Put (To_child (kid f)) (ptr b ! f)
             ((battle_wrote f pid (pids (kid f)) (name f) b)\<lparr>bpc := (if passing_over (ptr b ! f) then B_last_wait else B_pass_read)\<rparr>)
         | B_last_wait \<Rightarrow> Wait (b\<lparr>waited := waited b + 1, bpc := B_exit,
             b_out := (if battle_id b = CHR ''A'' then b_out b @ champion_line (real_player_id (ptr b ! f)) else b_out b)\<rparr>)
         | B_exit \<Rightarrow> Done)"

text \<open>\<open>raw\<close> and \<open>f\<close> are what the local variables \<open>player_status0\<close>, \<open>player_status1\<close> and \<open>first_attack\<close> held.\<close>

definition battle_start :: "Status list \<Rightarrow> nat \<Rightarrow> string \<Rightarrow> string \<Rightarrow> battle" where
  "battle_start raw f arg1 arg2 = \<lparr>battle_id = hd arg1, parent_pid = atoi arg2, first_attack = f, ptr = raw,
     bpc = B_fork 0, waited = 0, b_log = [], b_out = []\<rparr>"

end
