(* ===== verification/Pvp_Player.thy ===== *)
theory Pvp_Player
  imports Pvp_Battle
begin

text \<open>
  The player process (player.c): a real player (0 to 7) reads its status from
  \<open>player_status.txt\<close>, an agent (8 to 14) from its fifo; both send it to their
  battle and answer it until it ends, recover half of what they lost after a
  victory, and a real player that loses outside battle A passes its restored
  status on to the agent of that battle.
\<close>

section \<open>Tables\<close>

definition fifo :: "int list" where
  "fifo = [-1, 14, -1, 10, 13, -1, 8, 11, 9, 12]"

definition targetid :: "nat list" where
  "targetid = [6, 6, 7, 7, 8, 8, 9, 9, 12, 12, 10, 13, 13, 11, 2]"

text \<open>\<open>None\<close>: outside the table.\<close>

definition fifo_target :: "char \<Rightarrow> int option" where
  "fifo_target c = (if 65 \<le> char_code c \<and> battle_index c < length fifo then Some (fifo ! battle_index c) else None)"

definition target_char :: "nat \<Rightarrow> char" where
  "target_char i = char_of (targetid ! i + 65)"

section \<open>The status file\<close>

text \<open>
  One \<open>sscanf (buf, "%d %d %s %c %d", ...)\<close>: each conversion that fails leaves
  its variable and the later ones as they were.
\<close>

definition scan_c :: "string \<Rightarrow> (char \<times> string) option" where
  "scan_c s = (case dropWhile isspace s of [] \<Rightarrow> None | c # r \<Rightarrow> Some (c, r))"

definition scan_status :: "string \<Rightarrow> Status \<times> string \<Rightarrow> Status \<times> string" where
  "scan_status buf m =
     (case m of (p, s1) \<Rightarrow>
        case scan_d buf of None \<Rightarrow> (p, s1) | Some (hp, r1) \<Rightarrow>
        let p = p\<lparr>HP := hp\<rparr> in
        case scan_d r1 of None \<Rightarrow> (p, s1) | Some (atk, r2) \<Rightarrow>
        let p = p\<lparr>ATK := atk\<rparr> in
        case scan_s (length r2) r2 of None \<Rightarrow> (p, s1) | Some (w, r3) \<Rightarrow>
        case scan_c r3 of None \<Rightarrow> (p, w) | Some (c, r4) \<Rightarrow>
        let p = p\<lparr>current_battle_id := c\<rparr> in
        case scan_d r4 of None \<Rightarrow> (p, w) | Some (flag, _) \<Rightarrow> (p\<lparr>battle_ended_flag := flag\<rparr>, w))"

text \<open>At the end of the file \<open>fgets\<close> leaves the buffer, and the last line is scanned again.\<close>

fun read_lines :: "nat \<Rightarrow> string \<Rightarrow> string \<Rightarrow> Status \<times> string \<Rightarrow> Status \<times> string" where
  "read_lines 0 file buf m = m"
| "read_lines (Suc n) file buf m =
     (case fgets 99 file of
        None \<Rightarrow> read_lines n file buf (scan_status (cstr buf) m)
      | Some (line, r) \<Rightarrow> read_lines n r line (scan_status (cstr line) m))"

definition set_attr :: "string \<Rightarrow> Status \<Rightarrow> Status" where
  "set_attr s1 p =
     (if s1 = ''GRASS'' then p\<lparr>attr := GRASS\<rparr>
      else if s1 = ''WATER'' then p\<lparr>attr := WATER\<rparr>
      else if s1 = ''FIRE'' then p\<lparr>attr := FIRE\<rparr>
      else p)"

definition load_status :: "Status \<Rightarrow> string \<Rightarrow> string \<Rightarrow> string \<Rightarrow> nat \<Rightarrow> Status" where
  "load_status raw buf s1 file i =
     (case read_lines (i + 1) file buf (raw\<lparr>real_player_id := word_of_nat i\<rparr>, s1) of (p, w) \<Rightarrow> set_attr w p)"

section \<open>The process\<close>

datatype ppc = P_start | P_first | P_read | P_write | P_fifo | P_crash | P_exit

record player =
  player_id :: nat
  battle_pid :: cint
  original_HP :: cint
  status :: Status
  ppc :: ppc
  p_log :: "(string \<times> string) list"

definition log_name :: "cint \<Rightarrow> string" where
  "log_name i = ''log_player'' @ fmt_d i @ ''.txt''"

definition pipe_line :: "string \<Rightarrow> nat \<Rightarrow> cint \<Rightarrow> cint \<Rightarrow> Status \<Rightarrow> string \<times> string" where
  "pipe_line dir i pid target_pid p =
     (log_name (real_player_id p), dec_nat i @ '','' @ fmt_d pid @ '' pipe '' @ dir @ '' '' @ [target_char i] @ '','' @ fmt_d target_pid
        @ '' '' @ status_text p @ [LF])"

definition fifo_from_line :: "nat \<Rightarrow> cint \<Rightarrow> Status \<Rightarrow> string \<times> string" where
  "fifo_from_line i pid p =
     (log_name (real_player_id p), dec_nat i @ '','' @ fmt_d pid @ '' fifo from '' @ fmt_d (real_player_id p) @ '' ''
        @ fmt_d (real_player_id p) @ '','' @ fmt_d (HP p) @ [LF])"

definition fifo_to_line :: "nat \<Rightarrow> cint \<Rightarrow> int \<Rightarrow> Status \<Rightarrow> string \<times> string" where
  "fifo_to_line i pid target p =
     (log_name (real_player_id p), dec_nat i @ '','' @ fmt_d pid @ '' fifo to '' @ fmt_d (word_of_int target) @ '' ''
        @ fmt_d (real_player_id p) @ '','' @ fmt_d (HP p) @ [LF])"

definition recover :: "cint \<Rightarrow> Status \<Rightarrow> Status" where
  "recover orig p = p\<lparr>battle_ended_flag := 0, HP := c_div (orig - HP p) 2 + HP p\<rparr>"

definition restore :: "cint \<Rightarrow> Status \<Rightarrow> Status" where
  "restore orig p = p\<lparr>HP := orig, battle_ended_flag := 0\<rparr>"

text \<open>What follows a message from the battle.\<close>

definition after_read :: "player \<Rightarrow> player" where
  "after_read q =
     (let p = status q in
      if battle_ended_flag p \<noteq> 1 then q\<lparr>ppc := P_write\<rparr>
      else if c_le (HP p) 0
      then if current_battle_id p \<noteq> CHR ''A'' \<and> player_id q \<le> 7
           then q\<lparr>status := restore (original_HP q) p, ppc := (if fifo_target (current_battle_id p) = None then P_crash else P_fifo)\<rparr>
           else q\<lparr>ppc := P_exit\<rparr>
      else if current_battle_id p = CHR ''A'' then q\<lparr>ppc := P_exit\<rparr>
      else q\<lparr>status := recover (original_HP q) p, ppc := P_write\<rparr>)"

definition got :: "Status option \<Rightarrow> Status \<Rightarrow> Status" where
  "got x p = (case x of None \<Rightarrow> p | Some p' \<Rightarrow> p')"

text \<open>\<open>read_Status\<close> and \<open>write_Status\<close> with their line in the log, by pipe and by fifo.\<close>

definition pipe_read :: "cint \<Rightarrow> Status option \<Rightarrow> player \<Rightarrow> player" where
  "pipe_read pid x q = (let p = got x (status q) in
     q\<lparr>status := p, p_log := p_log q @ [pipe_line ''from'' (player_id q) pid (battle_pid q) p]\<rparr>)"

definition fifo_read :: "cint \<Rightarrow> Status option \<Rightarrow> player \<Rightarrow> player" where
  "fifo_read pid x q = (let p = got x (status q) in
     q\<lparr>status := p, p_log := p_log q @ [fifo_from_line (player_id q) pid p]\<rparr>)"

definition pipe_wrote :: "cint \<Rightarrow> player \<Rightarrow> player" where
  "pipe_wrote pid q = q\<lparr>p_log := p_log q @ [pipe_line ''to'' (player_id q) pid (battle_pid q) (status q)]\<rparr>"

definition fifo_wrote :: "cint \<Rightarrow> int \<Rightarrow> player \<Rightarrow> player" where
  "fifo_wrote pid k q = q\<lparr>p_log := p_log q @ [fifo_to_line (player_id q) pid k (status q)]\<rparr>"

definition player_do :: "(proc \<Rightarrow> cint) \<Rightarrow> player \<Rightarrow> player action" where
  "player_do pids q =
     (let i = player_id q; self = Player i; pid = pids self; p = status q in
      case ppc q of
        P_start \<Rightarrow> Receive (Fifo (int i)) (\<lambda>x. (fifo_read pid x q)\<lparr>ppc := P_first\<rparr>)
      | P_first \<Rightarrow> Put (To_parent self) p ((pipe_wrote pid q)\<lparr>original_HP := HP p, ppc := P_read\<rparr>)
      | P_read \<Rightarrow> Receive (To_child self) (\<lambda>x. after_read (pipe_read pid x q))
      | P_write \<Rightarrow> Put (To_parent self) p ((pipe_wrote pid q)\<lparr>ppc := P_read\<rparr>)
      | P_fifo \<Rightarrow>
          (let k = the (fifo_target (current_battle_id p)) in Put (Fifo k) p ((fifo_wrote pid k q)\<lparr>ppc := P_exit\<rparr>))
      | P_crash \<Rightarrow> Done
      | P_exit \<Rightarrow> Done)"

text \<open>
  \<open>raw\<close>, \<open>buf\<close> and \<open>s1\<close> are what the local variables held, \<open>file\<close> the status file.
  An agent closes a log it never opened when it leaves; like \<open>P_crash\<close> and \<open>P_exit\<close>
  that ends the process, and the battle does not look at how.
\<close>

definition player_start :: "Status \<Rightarrow> string \<Rightarrow> string \<Rightarrow> string \<Rightarrow> string \<Rightarrow> string \<Rightarrow> player" where
  "player_start raw buf s1 file arg1 arg2 =
     (let i = nat (sint (atoi arg1)) in
      \<lparr>player_id = i, battle_pid = atoi arg2, original_HP = 0,
       status = (if i > 7 then raw else load_status raw buf s1 file i),
       ppc = (if i > 7 then P_start else P_first), p_log = []\<rparr>)"

end
