(* ===== verification/Pvp_Net.thy ===== *)
theory Pvp_Net
  imports Pvp_Player
begin

text \<open>
  The processes of the championship together: who runs, what is in the pipes
  and fifos, and the step of one process as the kernel makes it. A step is
  \<open>None\<close> when the process is blocked or has ended. The locale
  \<open>message_system\<close> states what the independence of the schedule rests on, the
  commuting of steps of different processes; it is interpreted on the
  championship with pipes of which both ends are in use (\<open>quiet_step\<close>), which
  is all there is in a run that ends well.
\<close>

section \<open>The system\<close>

datatype program = RunB battle | RunP player | Killed

record net =
  procs :: "proc \<Rightarrow> program option"
  chans :: "chan \<Rightarrow> Status list"

text \<open>What the operating system and uninitialised memory put in.\<close>

record world =
  pids :: "proc \<Rightarrow> cint"
  raw_status :: "proc \<Rightarrow> Status"
  raw_first :: "proc \<Rightarrow> nat"
  raw_buf :: string
  raw_word :: string
  status_file :: string

definition program_do :: "world \<Rightarrow> program \<Rightarrow> program action" where
  "program_do w g =
     (case g of
        RunB b \<Rightarrow> map_action RunB (battle_do (pids w) b)
      | RunP q \<Rightarrow> map_action RunP (player_do (pids w) q)
      | Killed \<Rightarrow> Done)"

text \<open>\<open>execl\<close> of a child with its name and the pid of the battle.\<close>

definition exec :: "world \<Rightarrow> proc \<Rightarrow> proc \<Rightarrow> string \<Rightarrow> program" where
  "exec w p q name =
     (case q of
        Battle _ \<Rightarrow> RunB (battle_start (replicate 2 (raw_status w q)) (raw_first w q) name (fmt_d (pids w p)))
      | Player _ \<Rightarrow> RunP (player_start (raw_status w q) (raw_buf w) (raw_word w) (status_file w) name (fmt_d (pids w p))))"

definition battles :: string where "battles = ''ABCDEFGHIJKLMN''"

definition parent_of :: "proc \<Rightarrow> char option" where
  "parent_of q = find (\<lambda>b. q = child b 0 \<or> q = child b 1) battles"

definition over :: "program \<Rightarrow> bool" where
  "over g = (case g of RunB b \<Rightarrow> bpc b = B_exit | RunP q \<Rightarrow> ppc q \<in> {P_crash, P_exit} | Killed \<Rightarrow> True)"

definition ended :: "net \<Rightarrow> proc \<Rightarrow> bool" where
  "ended s q \<longleftrightarrow> (case procs s q of None \<Rightarrow> False | Some g \<Rightarrow> over g)"

definition writer_ended :: "net \<Rightarrow> chan \<Rightarrow> bool" where
  "writer_ended s c =
     (case c of
        To_parent q \<Rightarrow> ended s q
      | To_child q \<Rightarrow> (case parent_of q of None \<Rightarrow> False | Some b \<Rightarrow> ended s (Battle b))
      | Fifo k \<Rightarrow> False)"

definition reader_ended :: "net \<Rightarrow> chan \<Rightarrow> bool" where
  "reader_ended s c =
     (case c of
        To_parent q \<Rightarrow> (case parent_of q of None \<Rightarrow> False | Some b \<Rightarrow> ended s (Battle b))
      | To_child q \<Rightarrow> ended s q
      | Fifo k \<Rightarrow> False)"

text \<open>Opening a fifo to write waits for the agent that reads it.\<close>

definition can_put :: "net \<Rightarrow> chan \<Rightarrow> bool" where
  "can_put s c = (case c of Fifo k \<Rightarrow> 0 \<le> k \<and> procs s (Player (nat k)) \<noteq> None | _ \<Rightarrow> True)"

text \<open>\<open>wait\<close> returns when a child has ended that was not waited for, or when there is none left.\<close>

definition can_wait :: "net \<Rightarrow> program \<Rightarrow> bool" where
  "can_wait s g =
     (case g of
        RunB b \<Rightarrow> waited b < length (filter (\<lambda>i. ended s (child (battle_id b) i)) [0, 1]) \<or> 2 \<le> waited b
      | _ \<Rightarrow> True)"

definition goes_on :: "proc \<Rightarrow> program \<Rightarrow> net \<Rightarrow> net" where
  "goes_on p g s = s\<lparr>procs := (procs s)(p \<mapsto> g)\<rparr>"

text \<open>
  The next system call of \<open>p\<close>. A read at the end of a pipe that nobody can
  write returns without a status, a write to a pipe that nobody can read kills
  (\<open>SIGPIPE\<close>); \<open>quiet\<close> leaves both out: such a read blocks, such a write is kept.
\<close>

definition step :: "bool \<Rightarrow> world \<Rightarrow> proc \<Rightarrow> net \<Rightarrow> net option" where
  "step quiet w p s =
     (case procs s p of
        None \<Rightarrow> None
      | Some g \<Rightarrow>
          (case program_do w g of
             Spawn q name g' \<Rightarrow>
               if procs s q = None \<and> q \<noteq> p then Some (goes_on q (exec w p q name) (goes_on p g' s)) else None
           | Receive c k \<Rightarrow>
               (case chans s c of
                  x # xs \<Rightarrow> Some (goes_on p (k (Some x)) (s\<lparr>chans := (chans s)(c := xs)\<rparr>))
                | [] \<Rightarrow> if \<not> quiet \<and> writer_ended s c then Some (goes_on p (k None) s) else None)
           | Put c x g' \<Rightarrow>
               if \<not> can_put s c then None
               else if \<not> quiet \<and> reader_ended s c then Some (goes_on p Killed s)
               else Some (goes_on p g' (s\<lparr>chans := (chans s)(c := chans s c @ [x])\<rparr>))
           | Wait g' \<Rightarrow> if can_wait s g then Some (goes_on p g' s) else None
           | Done \<Rightarrow> None))"

definition net_step :: "world \<Rightarrow> proc \<Rightarrow> net \<Rightarrow> net option" where
  "net_step w = step False w"

definition quiet_step :: "world \<Rightarrow> proc \<Rightarrow> net \<Rightarrow> net option" where
  "quiet_step w = step True w"

text \<open>\<open>./battle A 0\<close>\<close>

definition net_start :: "world \<Rightarrow> net" where
  "net_start w = \<lparr>procs = (\<lambda>_. None)(Battle CHR ''A'' \<mapsto>
     RunB (battle_start (replicate 2 (raw_status w (Battle CHR ''A''))) (raw_first w (Battle CHR ''A'')) ''A'' ''0'')), chans = (\<lambda>_. [])\<rparr>"

fun run :: "('p \<Rightarrow> 's \<Rightarrow> 's option) \<Rightarrow> 'p list \<Rightarrow> 's \<Rightarrow> 's option" where
  "run st [] s = Some s"
| "run st (p # ps) s = (case st p s of None \<Rightarrow> None | Some s' \<Rightarrow> run st ps s')"

lemma run_append: "run st (ps @ qs) s = (case run st ps s of None \<Rightarrow> None | Some t \<Rightarrow> run st qs t)"
  by (induction ps arbitrary: s) (auto split: option.splits)

section \<open>Schedules do not matter\<close>

text \<open>
  A step may claim something: to read or write a pipe, to start a process. Steps
  of different processes with different claims commute. If some run to an end
  has one owner for each claim, every run can be continued to that end.
\<close>

locale message_system =
  fixes st :: "'p \<Rightarrow> 's \<Rightarrow> 's option" and claims :: "'p \<Rightarrow> 's \<Rightarrow> 'r option"
  assumes commute: "p \<noteq> q \<Longrightarrow> st p s = Some s1 \<Longrightarrow> st q s = Some s2 \<Longrightarrow> claims p s = None \<or> claims p s \<noteq> claims q s
      \<Longrightarrow> \<exists>t. st q s1 = Some t \<and> st p s2 = Some t"
    and keeps: "p \<noteq> q \<Longrightarrow> st p s = Some s1 \<Longrightarrow> st q s \<noteq> None \<or> claims q s \<noteq> None \<Longrightarrow> claims q s1 = claims q s"
begin

fun owned :: "('r \<Rightarrow> 'p) \<Rightarrow> 'p list \<Rightarrow> 's \<Rightarrow> bool" where
  "owned own [] s \<longleftrightarrow> True"
| "owned own (p # ps) s \<longleftrightarrow> (\<forall>r. claims p s = Some r \<longrightarrow> own r = p) \<and> (\<forall>s'. st p s = Some s' \<longrightarrow> owned own ps s')"

definition final :: "'s \<Rightarrow> bool" where
  "final t \<longleftrightarrow> (\<forall>q. st q t = None \<and> claims q t = None)"

lemma owned_append: "run st ps s = Some t \<Longrightarrow> owned own (ps @ qs) s \<longleftrightarrow> owned own ps s \<and> owned own qs t"
  by (induction ps arbitrary: s) (auto split: option.splits)

lemma claim_owner:
  "run st ps s = Some t \<Longrightarrow> owned own ps s \<Longrightarrow> claims q t = None \<Longrightarrow> claims q s = Some r \<Longrightarrow> own r = q"
proof (induction ps arbitrary: s)
  case (Cons p ps)
  then obtain s' where s': "st p s = Some s'" by (auto split: option.splits)
  show ?case
  proof (cases "p = q")
    case False
    then have "claims q s' = Some r" using keeps [OF False s'] Cons.prems(4) by simp
    then show ?thesis using Cons s' by auto
  qed (use Cons.prems in auto)
qed simp

lemma pull_front:
  "run st ps s = Some t \<Longrightarrow> owned own ps s \<Longrightarrow> final t \<Longrightarrow> st q s = Some s1
    \<Longrightarrow> \<exists>ps'. run st ps' s1 = Some t \<and> owned own ps' s1 \<and> length ps = Suc (length ps')"
proof (induction ps arbitrary: s s1)
  case Nil
  then show ?case by (simp add: final_def)
next
  case (Cons p ps)
  then obtain s2 where s2: "st p s = Some s2" and rest: "run st ps s2 = Some t" "owned own ps s2"
    by (auto split: option.splits)
  show ?case
  proof (cases "p = q")
    case True
    then show ?thesis using s2 rest Cons.prems(4) by auto
  next
    case False
    have apart: "claims p s = None \<or> claims p s \<noteq> claims q s"
    proof (rule ccontr)
      assume "\<not> ?thesis"
      then obtain r where r: "claims p s = Some r" "claims q s = Some r" by (cases "claims p s") auto
      then have "own r = p" using Cons.prems(2) by simp
      moreover have "own r = q"
        by (rule claim_owner [OF Cons.prems(1,2) _ r(2)]) (use Cons.prems(3) in \<open>simp add: final_def\<close>)
      ultimately show False using False by simp
    qed
    then obtain u where u: "st q s2 = Some u" "st p s1 = Some u"
      using commute [OF False s2 Cons.prems(4)] by blast
    then obtain ps' where ps': "run st ps' u = Some t" "owned own ps' u" "length ps = Suc (length ps')"
      using Cons.IH [OF rest Cons.prems(3)] by blast
    have "claims p s1 = claims p s" using keeps [of q p s s1] False Cons.prems(4) s2 by simp
    then have "owned own (p # ps') s1" using Cons.prems(2) u(2) ps'(2) by simp
    then show ?thesis using u(2) ps' by (intro exI [of _ "p # ps'"]) simp
  qed
qed

lemma every_run_reaches:
  assumes "run st ps s = Some t" and "owned own ps s" and "final t" and "run st qs s = Some u"
  shows "\<exists>ps'. run st ps' u = Some t \<and> owned own ps' u \<and> length ps = length qs + length ps'"
  using assms
proof (induction qs arbitrary: s ps)
  case (Cons q qs)
  then obtain s1 where s1: "st q s = Some s1" "run st qs s1 = Some u" by (auto split: option.splits)
  then obtain ps1 where "run st ps1 s1 = Some t" "owned own ps1 s1" "length ps = Suc (length ps1)"
    using pull_front Cons.prems(1-3) by blast
  then show ?case using Cons.IH [OF _ _ Cons.prems(3) s1(2)] by fastforce
qed auto

end

section \<open>The championship is such a system\<close>

datatype claim = Reads chan | Writes chan | Starts proc

definition claims :: "world \<Rightarrow> proc \<Rightarrow> net \<Rightarrow> claim option" where
  "claims w p s =
     (case procs s p of
        None \<Rightarrow> None
      | Some g \<Rightarrow>
          (case program_do w g of
             Spawn q name g' \<Rightarrow> Some (Starts q)
           | Receive c k \<Rightarrow> Some (Reads c)
           | Put c x g' \<Rightarrow> Some (Writes c)
           | _ \<Rightarrow> None))"

lemma program_done: "program_do w g = Done \<longleftrightarrow> over g"
proof -
  have m: "map_action f a = Done \<longleftrightarrow> a = Done" for f :: "'a \<Rightarrow> 'b" and a by (cases a) auto
  show ?thesis
    by (auto simp: program_do_def over_def battle_do_def player_do_def Let_def m
        split: program.splits bpc.splits ppc.splits)
qed

lemma ended_goes_on: "procs s p = Some g \<Longrightarrow> \<not> over g \<Longrightarrow> ended s q \<Longrightarrow> ended (goes_on p g' s) q"
  by (auto simp: ended_def goes_on_def split: option.splits)


lemma ended_new: "procs s q = None \<Longrightarrow> ended s r \<Longrightarrow> ended (goes_on q g s) r"
  by (auto simp: ended_def goes_on_def split: option.splits)

lemma ended_chans [simp]: "ended (s\<lparr>chans := cs\<rparr>) q = ended s q"
  by (simp add: ended_def)

lemma can_wait_more:
  assumes "can_wait s g" and "\<And>q. ended s q \<Longrightarrow> ended t q"
  shows "can_wait t g"
proof (cases g)
  case (RunB b)
  have "length (filter (\<lambda>i. ended s (child (battle_id b) i)) [0, 1])
      \<le> length (filter (\<lambda>i. ended t (child (battle_id b) i)) [0, 1])"
    using assms(2) by simp
  then show ?thesis using assms(1) by (auto simp: RunB can_wait_def)
qed (simp_all add: can_wait_def)

lemma can_put_more:
  "can_put s c \<Longrightarrow> (\<And>q. procs s q \<noteq> None \<Longrightarrow> procs t q \<noteq> None) \<Longrightarrow> can_put t c"
  by (auto simp: can_put_def split: chan.splits)

text \<open>What a step does: the program of \<open>p\<close> goes on, perhaps another starts, perhaps a channel changes.\<close>

lemma quiet_step_cases:
  assumes "quiet_step w p s = Some s'"
  obtains (Spawn) g q name g' where "procs s p = Some g" "program_do w g = Spawn q name g'" "procs s q = None" "q \<noteq> p"
      "s' = goes_on q (exec w p q name) (goes_on p g' s)"
    | (Receive) g c k x xs where "procs s p = Some g" "program_do w g = Receive c k" "chans s c = x # xs"
      "s' = goes_on p (k (Some x)) (s\<lparr>chans := (chans s)(c := xs)\<rparr>)"
    | (Put) g c x g' where "procs s p = Some g" "program_do w g = Put c x g'" "can_put s c"
      "s' = goes_on p g' (s\<lparr>chans := (chans s)(c := chans s c @ [x])\<rparr>)"
    | (Wait) g g' where "procs s p = Some g" "program_do w g = Wait g'" "can_wait s g" "s' = goes_on p g' s"
  using assms that unfolding quiet_step_def step_def
  by (auto split: option.splits action.splits list.splits if_splits)

lemma quiet_step_Spawn: "procs s p = Some g \<Longrightarrow> program_do w g = Spawn q name g' \<Longrightarrow> procs s q = None \<Longrightarrow> q \<noteq> p \<Longrightarrow>
    quiet_step w p s = Some (goes_on q (exec w p q name) (goes_on p g' s))"
  and quiet_step_Receive: "procs s p = Some g \<Longrightarrow> program_do w g = Receive c k \<Longrightarrow> chans s c = x # xs \<Longrightarrow>
    quiet_step w p s = Some (goes_on p (k (Some x)) (s\<lparr>chans := (chans s)(c := xs)\<rparr>))"
  and quiet_step_Put: "procs s p = Some g \<Longrightarrow> program_do w g = Put c x g' \<Longrightarrow> can_put s c \<Longrightarrow>
    quiet_step w p s = Some (goes_on p g' (s\<lparr>chans := (chans s)(c := chans s c @ [x])\<rparr>))"
  and quiet_step_Wait: "procs s p = Some g \<Longrightarrow> program_do w g = Wait g' \<Longrightarrow> can_wait s g \<Longrightarrow>
    quiet_step w p s = Some (goes_on p g' s)"
  by (simp_all add: quiet_step_def step_def)

lemma step_not_over: "quiet_step w p s = Some s' \<Longrightarrow> \<exists>g. procs s p = Some g \<and> \<not> over g"
  by (erule quiet_step_cases) (use program_done [of w] in \<open>auto, (metis action.distinct)+\<close>)

lemma quiet_step_frame:
  assumes "quiet_step w p s = Some s'"
  shows "q \<noteq> p \<Longrightarrow> procs s q = Some g \<Longrightarrow> procs s' q = Some g"
    and "procs s q \<noteq> None \<Longrightarrow> procs s' q \<noteq> None"
    and "ended s q \<Longrightarrow> ended s' q"
proof -
  show a: "q \<noteq> p \<Longrightarrow> procs s q = Some g \<Longrightarrow> procs s' q = Some g" for q g
    using assms by (cases rule: quiet_step_cases) (auto simp: goes_on_def)
  show "procs s q \<noteq> None \<Longrightarrow> procs s' q \<noteq> None"
    using assms by (cases rule: quiet_step_cases) (auto simp: goes_on_def)
  show "ended s q \<Longrightarrow> ended s' q"
    using a [of q] step_not_over [OF assms] by (cases "q = p") (auto simp: ended_def split: option.splits)
qed

lemma goes_on_simps [simp]:
  "procs (goes_on p g s) q = (if q = p then Some g else procs s q)"
  "chans (goes_on p g s) = chans s"
  "(goes_on p g s)\<lparr>chans := cs\<rparr> = goes_on p g (s\<lparr>chans := cs\<rparr>)"
  by (simp_all add: goes_on_def)

text \<open>The effect of a step: who goes on with what, which channel loses its head, which one gets a message.\<close>

type_synonym effect = "(proc \<times> program) list \<times> chan option \<times> (chan \<times> Status) option"

definition does :: "world \<Rightarrow> proc \<Rightarrow> net \<Rightarrow> effect option" where
  "does w p s =
     (case procs s p of
        None \<Rightarrow> None
      | Some g \<Rightarrow>
          (case program_do w g of
             Spawn q name g' \<Rightarrow> if procs s q = None \<and> q \<noteq> p then Some ([(p, g'), (q, exec w p q name)], None, None) else None
           | Receive c k \<Rightarrow> (case chans s c of [] \<Rightarrow> None | x # xs \<Rightarrow> Some ([(p, k (Some x))], Some c, None))
           | Put c x g' \<Rightarrow> if can_put s c then Some ([(p, g')], None, Some (c, x)) else None
           | Wait g' \<Rightarrow> if can_wait s g then Some ([(p, g')], None, None) else None
           | Done \<Rightarrow> None))"

definition channel_after :: "chan option \<Rightarrow> (chan \<times> Status) option \<Rightarrow> chan \<Rightarrow> Status list \<Rightarrow> Status list" where
  "channel_after inp out c l =
     (let l' = (if inp = Some c then tl l else l)
      in case out of None \<Rightarrow> l' | Some (c', x) \<Rightarrow> if c' = c then l' @ [x] else l')"

definition effect :: "effect \<Rightarrow> net \<Rightarrow> net" where
  "effect e s =
     (case e of (ups, inp, out) \<Rightarrow>
        \<lparr>procs = procs s ++ map_of ups, chans = (\<lambda>c. channel_after inp out c (chans s c))\<rparr>)"

lemma net_eqI: "(\<And>q. procs s q = procs t q) \<Longrightarrow> (\<And>c. chans s c = chans t c) \<Longrightarrow> s = t" for s t :: net
  by (rule net.equality) auto

lemma quiet_step_does: "quiet_step w p s = map_option (\<lambda>e. effect e s) (does w p s)"
  unfolding quiet_step_def step_def does_def
  by (auto simp: effect_def channel_after_def map_add_def Let_def intro!: net_eqI split: option.splits action.splits list.splits)

text \<open>The effect of a step is the same after a step of another process.\<close>

lemma does_stable:
  assumes pq: "p \<noteq> q" and p: "does w p s = Some d" and q: "does w q s = Some e"
    and apart: "claims w p s = None \<or> claims w p s \<noteq> claims w q s"
  shows "does w q (effect d s) = Some e"
proof -
  let ?t = "effect d s"
  have st: "quiet_step w p s = Some ?t" using p by (simp add: quiet_step_does)
  obtain h where h: "procs s q = Some h" using q by (auto simp: does_def split: option.splits)
  have h1: "procs ?t q = Some h" using quiet_step_frame(1) [OF st _ h] pq by blast
  note more = quiet_step_frame(2,3) [OF st]
  show ?thesis
  proof (cases "program_do w h")
    case (Spawn r name k)
    then have r: "procs s r = None" "r \<noteq> q" using q h by (auto simp: does_def split: if_splits)
    then have "procs ?t r = None"
      using p apart Spawn h
      by (auto simp: does_def effect_def claims_def map_add_def split: option.splits action.splits if_splits list.splits)
    then show ?thesis using q h h1 Spawn r by (simp add: does_def)
  next
    case (Receive c k)
    then obtain x xs where x: "chans s c = x # xs" using q h by (auto simp: does_def split: list.splits)
    then have "\<exists>ys. chans ?t c = x # ys"
      using p apart Receive h
      by (auto simp: does_def effect_def claims_def channel_after_def Let_def split: option.splits action.splits if_splits list.splits)
    then show ?thesis using q h h1 Receive x by (auto simp: does_def)
  next
    case (Put c x k)
    then have "can_put ?t c" using q h can_put_more [OF _ more(1)] by (auto simp: does_def split: if_splits)
    then show ?thesis using q h h1 Put by (auto simp: does_def split: if_splits)
  next
    case (Wait k)
    then have "can_wait ?t h" using q h can_wait_more [OF _ more(2)] by (auto simp: does_def split: if_splits)
    then show ?thesis using q h h1 Wait by (auto simp: does_def split: if_splits)
  qed (use q h in \<open>simp add: does_def\<close>)
qed

lemma does_facts:
  assumes "does w p s = Some (ups, inp, out)"
  shows "r \<in> fst ` set ups \<Longrightarrow> r = p \<or> procs s r = None \<and> claims w p s = Some (Starts r)"
    and "inp = Some c \<Longrightarrow> claims w p s = Some (Reads c) \<and> chans s c \<noteq> []"
    and "out = Some (c, x) \<Longrightarrow> claims w p s = Some (Writes c)"
    and "procs s p \<noteq> None"
  using assms by (auto simp: does_def claims_def split: option.splits action.splits if_splits list.splits)

lemma effects_commute:
  assumes pq: "p \<noteq> q" and p: "does w p s = Some d" and q: "does w q s = Some e"
    and apart: "claims w p s = None \<or> claims w p s \<noteq> claims w q s"
  shows "effect e (effect d s) = effect d (effect e s)"
proof -
  obtain ups inp out where d: "d = (ups, inp, out)" by (cases d)
  obtain ups' inp' out' where e: "e = (ups', inp', out')" by (cases e)
  note fp = does_facts [OF p [unfolded d]] and fq = does_facts [OF q [unfolded e]]
  have dis: "fst ` set ups \<inter> fst ` set ups' = {}"
    using fp(1,4) fq(1,4) pq apart by fastforce
  have "procs s ++ map_of ups ++ map_of ups' = procs s ++ map_of ups' ++ map_of ups"
    using map_add_comm [of "map_of ups" "map_of ups'"] dis by (simp add: dom_map_of_conv_image_fst flip: map_add_assoc)
  moreover have "channel_after inp' out' c (channel_after inp out c l) = channel_after inp out c (channel_after inp' out' c l)"
    if l: "l = chans s c" for c l
  proof -
    have a: "\<not> (inp = Some c \<and> inp' = Some c)" using fp(2) fq(2) apart by auto
    have b: "\<not> (\<exists>x y. out = Some (c, x) \<and> out' = Some (c, y))" using fp(3) fq(3) apart by fastforce
    have n: "inp = Some c \<Longrightarrow> l \<noteq> []" "inp' = Some c \<Longrightarrow> l \<noteq> []" using fp(2) fq(2) l by auto
    show ?thesis using a b n
      by (cases l) (auto simp: channel_after_def Let_def split: option.splits)
  qed
  ultimately show ?thesis by (simp add: effect_def d e)
qed

lemma quiet_commute:
  assumes pq: "p \<noteq> q" and p: "quiet_step w p s = Some s1" and q: "quiet_step w q s = Some s2"
    and apart: "claims w p s = None \<or> claims w p s \<noteq> claims w q s"
  shows "\<exists>t. quiet_step w q s1 = Some t \<and> quiet_step w p s2 = Some t"
proof -
  obtain d where d: "does w p s = Some d" "s1 = effect d s" using p by (auto simp: quiet_step_does)
  obtain e where e: "does w q s = Some e" "s2 = effect e s" using q by (auto simp: quiet_step_does)
  have apart': "claims w q s = None \<or> claims w q s \<noteq> claims w p s" using apart by auto
  show ?thesis
    using does_stable [OF pq d(1) e(1) apart] does_stable [OF pq [symmetric] e(1) d(1) apart']
      effects_commute [OF pq d(1) e(1) apart] by (simp add: quiet_step_does d(2) e(2))
qed

interpretation championship: message_system "quiet_step w" "claims w" for w
proof unfold_locales
  fix p q s s1 s2
  show "p \<noteq> q \<Longrightarrow> quiet_step w p s = Some s1 \<Longrightarrow> quiet_step w q s = Some s2 \<Longrightarrow>
      claims w p s = None \<or> claims w p s \<noteq> claims w q s \<Longrightarrow> \<exists>t. quiet_step w q s1 = Some t \<and> quiet_step w p s2 = Some t"
    by (rule quiet_commute)
  assume "p \<noteq> q" "quiet_step w p s = Some s1" "quiet_step w q s \<noteq> None \<or> claims w q s \<noteq> None"
  moreover have "procs s q \<noteq> None" if "quiet_step w q s \<noteq> None \<or> claims w q s \<noteq> None"
    using that by (auto simp: quiet_step_does does_def claims_def split: option.splits)
  ultimately have "procs s1 q = procs s q" using quiet_step_frame(1) by (metis option.exhaust)
  then show "claims w q s1 = claims w q s" by (simp add: claims_def)
qed

end
