(* ===== verification/Pvp_Tree.thy ===== *)
theory Pvp_Tree
  imports Pvp_Net
begin

text \<open>
  The tables of the tournament agree with each other: who is started by whom,
  which battle a player plays in, which agent gets the loser of a battle. The
  children of every battle are listed as rewrite rules; \<open>sub\<close> is the subtree
  of processes below a process.
\<close>

section \<open>The children of a battle\<close>

lemma child_table [simp]:
  "child CHR ''A'' 0 = Battle CHR ''B''" "child CHR ''A'' (Suc 0) = Battle CHR ''C''"
  "child CHR ''B'' 0 = Battle CHR ''D''" "child CHR ''B'' (Suc 0) = Battle CHR ''E''"
  "child CHR ''C'' 0 = Battle CHR ''F''" "child CHR ''C'' (Suc 0) = Player 14"
  "child CHR ''D'' 0 = Battle CHR ''G''" "child CHR ''D'' (Suc 0) = Battle CHR ''H''"
  "child CHR ''E'' 0 = Battle CHR ''I''" "child CHR ''E'' (Suc 0) = Battle CHR ''J''"
  "child CHR ''F'' 0 = Battle CHR ''K''" "child CHR ''F'' (Suc 0) = Battle CHR ''L''"
  "child CHR ''G'' 0 = Player 0" "child CHR ''G'' (Suc 0) = Player 1"
  "child CHR ''H'' 0 = Player 2" "child CHR ''H'' (Suc 0) = Player 3"
  "child CHR ''I'' 0 = Player 4" "child CHR ''I'' (Suc 0) = Player 5"
  "child CHR ''J'' 0 = Player 6" "child CHR ''J'' (Suc 0) = Player 7"
  "child CHR ''K'' 0 = Battle CHR ''M''" "child CHR ''K'' (Suc 0) = Player 10"
  "child CHR ''L'' 0 = Battle CHR ''N''" "child CHR ''L'' (Suc 0) = Player 13"
  "child CHR ''M'' 0 = Player 8" "child CHR ''M'' (Suc 0) = Player 9"
  "child CHR ''N'' 0 = Player 11" "child CHR ''N'' (Suc 0) = Player 12"
  by code_simp+

fun tree_of :: "nat \<Rightarrow> proc \<Rightarrow> proc list" where
  "tree_of 0 q = []"
| "tree_of (Suc n) (Player i) = [Player i]"
| "tree_of (Suc n) (Battle b) = Battle b # tree_of n (child b 0) @ tree_of n (child b 1)"

definition sub :: "proc \<Rightarrow> proc list" where
  "sub q = tree_of 6 q"


lemma sub_Player [simp]: "sub (Player i) = [Player i]"
  by (simp add: sub_def numeral_eq_Suc)

lemma list_all_battles: "list_all P battles \<Longrightarrow> b \<in> set battles \<Longrightarrow> P b"
  by (simp add: list_all_iff)

lemma sub_Battle: "b \<in> set battles \<Longrightarrow> sub (Battle b) = Battle b # sub (child b 0) @ sub (child b 1)"
  by (rule list_all_battles [where P = "\<lambda>b. sub (Battle b) = Battle b # sub (child b 0) @ sub (child b 1)"]) code_simp

lemma sub_distinct: "b \<in> set battles \<Longrightarrow> distinct (sub (Battle b))"
  by (rule list_all_battles [where P = "\<lambda>b. distinct (sub (Battle b))"]) code_simp

lemma parent_child:
  assumes "b \<in> set battles" and "f = 0 \<or> f = 1" shows "parent_of (child b f) = Some b"
proof -
  have "list_all (\<lambda>b. parent_of (child b 0) = Some b \<and> parent_of (child b 1) = Some b) battles" by code_simp
  then show ?thesis using assms by (auto simp: list_all_iff)
qed

lemma child_battles: "b \<in> set battles \<Longrightarrow> f = 0 \<or> f = 1 \<Longrightarrow> child b f = Battle c \<Longrightarrow> c \<in> set battles"
proof -
  assume b: "b \<in> set battles" "f = 0 \<or> f = 1" "child b f = Battle c"
  have "list_all (\<lambda>b. list_all (\<lambda>f. case child b f of Battle c \<Rightarrow> c \<in> set battles | Player i \<Rightarrow> i \<le> 14) [0, 1]) battles"
    by code_simp
  then show ?thesis using b by (auto simp: list_all_iff)
qed

text \<open>What the processes are started with.\<close>

lemma child_name_arg:
  assumes "b \<in> set battles" and "f = 0 \<or> f = 1"
  shows "child b f = Battle c \<Longrightarrow> hd (child_name b f) = c"
    and "child b f = Player i \<Longrightarrow> nat (sint (atoi (child_name b f))) = i"
proof -
  have "list_all (\<lambda>b. list_all (\<lambda>f. case child b f of Battle c \<Rightarrow> hd (child_name b f) = c
      | Player i \<Rightarrow> nat (sint (atoi (child_name b f))) = i) [0, 1]) battles"
    by code_simp
  then have "case child b f of Battle c \<Rightarrow> hd (child_name b f) = c | Player i \<Rightarrow> nat (sint (atoi (child_name b f))) = i"
    using assms by (auto simp: list_all_iff)
  then show "child b f = Battle c \<Longrightarrow> hd (child_name b f) = c"
    and "child b f = Player i \<Longrightarrow> nat (sint (atoi (child_name b f))) = i" by simp_all
qed

lemma battles_list: "battles = [CHR ''A'', CHR ''B'', CHR ''C'', CHR ''D'', CHR ''E'', CHR ''F'', CHR ''G'', CHR ''H'', CHR ''I'',
    CHR ''J'', CHR ''K'', CHR ''L'', CHR ''M'', CHR ''N'']"
  by (simp add: battles_def)

end
