(* ===== verification/Pvp_Fight.thy ===== *)
theory Pvp_Fight
  imports Pvp_Player
begin

text \<open>
  The playing mode of a battle on its own: \<open>fight\<close> repeats the round on the
  two messages until one has no health left. The lemmas give the effect of an
  attack and a round on integers, that a fight of fit players ends, and who
  wins it: the one who needs fewer hits, or, when both need as many, who has
  less health before the last round.
\<close>

section \<open>Fights\<close>

fun fight :: "nat \<Rightarrow> char \<Rightarrow> Status list \<Rightarrow> (nat \<times> Status list) option" where
  "fight 0 b ps = None"
| "fight (Suc n) b ps =
     (case battle_round b ps of (f, ps') \<Rightarrow>
        if battle_ended_flag (ps' ! 0) = 0 then fight n b ps' else Some (f, ps'))"

text \<open>No overflow: health below \<open>2 ^ 30\<close>, attack power below \<open>2 ^ 29\<close>.\<close>

definition fit :: "Status \<Rightarrow> bool" where
  "fit p \<longleftrightarrow> 0 < sint (HP p) \<and> sint (HP p) < 2 ^ 30 \<and> 0 < sint (ATK p) \<and> sint (ATK p) < 2 ^ 29 \<and> battle_ended_flag p = 0"

definition damage :: "char \<Rightarrow> Status \<Rightarrow> int" where
  "damage b p = (if attr p = attr_of b then 2 * sint (ATK p) else sint (ATK p))"

lemma damage_pos: "fit p \<Longrightarrow> 0 < damage b p \<and> damage b p < 2 ^ 30"
  by (auto simp: fit_def damage_def)

lemma damage_cong [simp]: "damage b (p\<lparr>HP := h\<rparr>) = damage b p" "damage b (p\<lparr>battle_ended_flag := e\<rparr>) = damage b p"
  "damage b (p\<lparr>current_battle_id := c\<rparr>) = damage b p"
  by (simp_all add: damage_def)

text \<open>One attack: the attacked loses the damage, and if nothing is left both messages say so.\<close>

definition hit :: "char \<Rightarrow> Status \<Rightarrow> Status \<Rightarrow> Status" where
  "hit b p q = q\<lparr>HP := HP q - (if attr p = attr_of b then ATK p * 2 else ATK p)\<rparr>"

lemma hit_HP:
  assumes "fit p" and "fit q"
  shows "sint (HP (hit b p q)) = sint (HP q) - damage b p"
proof -
  have two: "sint (2 :: cint) = 2" by simp
  have "sint (ATK p * 2) = sint (ATK p) * 2"
    by (subst sint_mult) (use assms(1) two in \<open>simp_all add: fit_def int_fits_def\<close>)
  then have atk: "sint (if attr p = attr_of b then ATK p * 2 else ATK p) = damage b p"
    by (simp add: damage_def)
  show ?thesis unfolding hit_def
    using sint_sub [of "HP q" "if attr p = attr_of b then ATK p * 2 else ATK p"] atk damage_pos [OF assms(1), of b] assms(2)
    by (simp add: fit_def int_fits_def)
qed

lemma hit_fields [simp]: "real_player_id (hit b p q) = real_player_id q" "ATK (hit b p q) = ATK q" "attr (hit b p q) = attr q"
  "current_battle_id (hit b p q) = current_battle_id q" "battle_ended_flag (hit b p q) = battle_ended_flag q"
  "damage b' (hit b p q) = damage b' q"
  by (simp_all add: hit_def)

lemma attack_hit:
  "play_an_attack p q (attr_of b) =
     (if c_le (HP (hit b p q)) 0 then (p\<lparr>battle_ended_flag := 1\<rparr>, (hit b p q)\<lparr>battle_ended_flag := 1\<rparr>, True)
      else (p, hit b p q, False))"
  by (simp add: play_an_attack_def hit_def Let_def)

definition at :: "char \<Rightarrow> Status \<Rightarrow> Status" where
  "at b p = p\<lparr>current_battle_id := b\<rparr>"

lemma at_fields [simp]: "real_player_id (at b p) = real_player_id p" "HP (at b p) = HP p" "ATK (at b p) = ATK p"
  "attr (at b p) = attr p" "current_battle_id (at b p) = b" "battle_ended_flag (at b p) = battle_ended_flag p"
  "damage b' (at b p) = damage b' p" "fit (at b p) = fit p"
  by (simp_all add: at_def fit_def)

definition flagged :: "Status \<Rightarrow> Status" where
  "flagged p = p\<lparr>battle_ended_flag := 1\<rparr>"

text \<open>A round of two fit players: the first attack ends it, or the second, or both are hit.\<close>

definition pair :: "nat \<Rightarrow> Status \<Rightarrow> Status \<Rightarrow> Status list" where
  "pair f p q = (if f = 0 then [p, q] else [q, p])"

lemma attack_by_pair:
  assumes "f \<in> {0, 1}"
  shows "attack_by f (attr_of b) (pair f p q) =
    (if c_le (HP (hit b p q)) 0 then (pair f (flagged p) (flagged (hit b p q)), True) else (pair f p (hit b p q), False))"
  using assms by (auto simp: attack_by_def attack_hit pair_def flagged_def)

lemma pair_other: "f \<in> {0, 1} \<Longrightarrow> pair (1 - f) p q = pair f q p"
  by (auto simp: pair_def)

lemma battle_round_pair:
  assumes f: "attacks_first (at b x) (at b y) = f" and p: "p = [x, y] ! f" and q: "q = [x, y] ! (1 - f)"
  shows "battle_round b [x, y] =
    (if c_le (HP (hit b (at b p) (at b q))) 0 then (f, pair f (flagged (at b p)) (flagged (hit b (at b p) (at b q))))
     else if c_le (HP (hit b (hit b (at b p) (at b q)) (at b p))) 0
     then (1 - f, pair f (flagged (hit b (hit b (at b p) (at b q)) (at b p))) (flagged (hit b (at b p) (at b q))))
     else (1 - f, pair f (hit b (hit b (at b p) (at b q)) (at b p)) (hit b (at b p) (at b q))))"
proof -
  have f01: "f \<in> {0, 1}" using f by (auto simp: attacks_first_def split: if_splits)
  then have g01: "1 - f \<in> {0, 1}" by auto
  have xy: "[at b x, at b y] = pair f (at b p) (at b q)" using f01 p q by (auto simp: pair_def)
  have m: "map (\<lambda>p. p\<lparr>current_battle_id := b\<rparr>) [x, y] = [at b x, at b y]" by (simp add: at_def)
  have r: "battle_round b [x, y] = (case attack_by f (attr_of b) (pair f (at b p) (at b q)) of (ps2, ended) \<Rightarrow>
      if ended then (f, ps2) else (1 - f, fst (attack_by (1 - f) (attr_of b) ps2)))"
    unfolding battle_round_def Let_def m xy [symmetric] One_nat_def nth_Cons_0 nth_Cons_Suc f ..
  have second: "attack_by (1 - f) (attr_of b) (pair f (at b p) z) =
      (if c_le (HP (hit b z (at b p))) 0 then (pair f (flagged (hit b z (at b p))) (flagged z), True)
       else (pair f (hit b z (at b p)) z, False))" for z
    using attack_by_pair [OF g01, of b z "at b p"] unfolding pair_other [OF f01] .
  show ?thesis unfolding r attack_by_pair [OF f01] by (simp add: second [unfolded One_nat_def])
qed


section \<open>Rounds on integers\<close>

definition keeps_player :: "char \<Rightarrow> Status \<Rightarrow> Status \<Rightarrow> bool" where
  "keeps_player b p p' \<longleftrightarrow> real_player_id p' = real_player_id p \<and> ATK p' = ATK p \<and> attr p' = attr p \<and> current_battle_id p' = b"

lemma keeps_player_parts [simp]: "keeps_player b p (at b p)" "keeps_player b p (hit b q r) = keeps_player b p r"
  "keeps_player b p (flagged r) = keeps_player b p r"
  by (simp_all add: keeps_player_def flagged_def)

lemma keeps_player_damage: "keeps_player b p p' \<Longrightarrow> damage c p' = damage c p"
  by (simp add: keeps_player_def damage_def)

lemma flagged_fields [simp]: "HP (flagged p) = HP p" "battle_ended_flag (flagged p) = 1"
  by (simp_all add: flagged_def)

lemma fit_hit: "fit p \<Longrightarrow> fit q \<Longrightarrow> damage b p < sint (HP q) \<Longrightarrow> fit (hit b p q)"
  using hit_HP [of p q b] damage_pos [of p b] by (simp add: fit_def)

lemma c_le_0: "c_le x 0 \<longleftrightarrow> sint x \<le> 0"
  by (simp add: c_le_def)

text \<open>Both survive their hit.\<close>

lemma round_goes_on:
  assumes x: "fit x" and y: "fit y" and hx: "damage b y < sint (HP x)" and hy: "damage b x < sint (HP y)"
  shows "\<exists>f x' y'. battle_round b [x, y] = (f, [x', y']) \<and> f \<in> {0, 1} \<and> fit x' \<and> fit y' \<and> keeps_player b x x' \<and> keeps_player b y y'
    \<and> sint (HP x') = sint (HP x) - damage b y \<and> sint (HP y') = sint (HP y) - damage b x"
proof -
  define f where "f = attacks_first (at b x) (at b y)"
  have f01: "f = 0 \<or> f = 1" by (auto simp: f_def attacks_first_def)
  define p where "p = [x, y] ! f"
  define q where "q = [x, y] ! (1 - f)"
  have pq: "fit p" "fit q" "damage b p < sint (HP q)" "damage b q < sint (HP p)"
    using assms f01 by (auto simp: p_def q_def)
  let ?q = "hit b (at b p) (at b q)" and ?p = "hit b (hit b (at b p) (at b q)) (at b p)"
  have q': "sint (HP ?q) = sint (HP q) - damage b p" "fit ?q"
    using hit_HP [of "at b p" "at b q" b] fit_hit [of "at b p" "at b q" b] pq by simp_all
  have p': "sint (HP ?p) = sint (HP p) - damage b q" "fit ?p"
    using hit_HP [of ?q "at b p" b] fit_hit [of ?q "at b p" b] pq q' by simp_all
  have r: "battle_round b [x, y] = (1 - f, pair f ?p ?q)"
    unfolding battle_round_pair [OF f_def [symmetric] p_def q_def] c_le_0 using p'(1) q'(1) pq by simp
  show ?thesis
    using f01 p' q' unfolding r by (elim disjE) (simp_all add: pair_def p_def q_def)
qed

text \<open>Who ends a round that ends: the only one who beats the other, else who attacks first.\<close>

definition ends_round :: "char \<Rightarrow> Status \<Rightarrow> Status \<Rightarrow> nat" where
  "ends_round b x y =
     (if sint (HP y) \<le> damage b x \<and> sint (HP x) \<le> damage b y then attacks_first x y
      else if sint (HP y) \<le> damage b x then 0 else 1)"

lemma attacks_first_at [simp]: "attacks_first (at b x) (at b y) = attacks_first x y"
  by (simp add: attacks_first_def)

lemma round_ends:
  assumes x: "fit x" and y: "fit y" and h: "sint (HP x) \<le> damage b y \<or> sint (HP y) \<le> damage b x"
  shows "\<exists>x' y'. battle_round b [x, y] = (ends_round b x y, [x', y']) \<and> battle_ended_flag x' = 1 \<and> battle_ended_flag y' = 1
    \<and> keeps_player b x x' \<and> keeps_player b y y'
    \<and> 0 < sint (HP ([x', y'] ! ends_round b x y)) \<and> sint (HP ([x', y'] ! ends_round b x y)) \<le> sint (HP ([x, y] ! ends_round b x y))
    \<and> sint (HP ([x', y'] ! (1 - ends_round b x y))) \<le> 0"
proof -
  define f where "f = attacks_first (at b x) (at b y)"
  have f01: "f = 0 \<or> f = 1" by (auto simp: f_def attacks_first_def)
  define p where "p = [x, y] ! f"
  define q where "q = [x, y] ! (1 - f)"
  have pq: "fit p" "fit q" "sint (HP p) \<le> damage b q \<or> sint (HP q) \<le> damage b p"
    using assms f01 by (auto simp: p_def q_def)
  let ?q = "hit b (at b p) (at b q)" and ?p = "hit b (hit b (at b p) (at b q)) (at b p)"
  have q': "sint (HP ?q) = sint (HP q) - damage b p" using hit_HP [of "at b p" "at b q" b] pq by simp
  note rnd = battle_round_pair [OF f_def [symmetric] p_def q_def]
  have e: "ends_round b x y = (if sint (HP q) \<le> damage b p then f else 1 - f)"
    using h f01 by (auto simp: ends_round_def p_def q_def f_def)
  show ?thesis
  proof (cases "sint (HP q) \<le> damage b p")
    case True
    then have r: "battle_round b [x, y] = (f, pair f (flagged (at b p)) (flagged ?q))"
      using q' unfolding rnd c_le_0 by simp
    have "0 < sint (HP p)" using pq(1) by (simp add: fit_def)
    then show ?thesis
      using f01 True q' unfolding r e by (elim disjE) (simp_all add: pair_def p_def q_def)
  next
    case False
    then have "fit ?q" using fit_hit [of "at b p" "at b q" b] pq by simp
    then have p': "sint (HP ?p) = sint (HP p) - damage b q" using hit_HP [of ?q "at b p" b] pq by simp
    have r: "battle_round b [x, y] = (1 - f, pair f (flagged ?p) (flagged ?q))"
      using False pq(3) p' q' unfolding rnd c_le_0 by simp
    show ?thesis
      using f01 False pq(3) p' q' damage_pos [OF pq(1), of b] unfolding r e by (elim disjE) (simp_all add: pair_def p_def q_def)
  qed
qed


section \<open>The outcome of a fight\<close>

text \<open>How often \<open>d\<close> must be taken from \<open>h\<close> until nothing is left.\<close>

definition hits :: "int \<Rightarrow> int \<Rightarrow> int" where
  "hits h d = (h + d - 1) div d"

lemma hits_step: "0 < d \<Longrightarrow> hits (h - d) d = hits h d - 1"
proof -
  assume "0 < d"
  moreover have "h - d + d - 1 = (h + d - 1) + (- 1) * d" by simp
  ultimately show ?thesis unfolding hits_def by (metis div_mult_self1 add.commute diff_conv_add_uminus less_irrefl)
qed

lemma hits_one: "0 < h \<Longrightarrow> h \<le> d \<Longrightarrow> hits h d = 1"
  unfolding hits_def by (intro div_pos_geq [THEN trans]) simp_all

lemma hits_more: "0 < d \<Longrightarrow> d < h \<Longrightarrow> 1 < hits h d"
proof -
  assume d: "0 < d" "d < h"
  then have "0 < hits (h - d) d" unfolding hits_def by (simp add: pos_imp_zdiv_pos_iff)
  then show ?thesis using hits_step [OF d(1), of h] by simp
qed

definition winner :: "char \<Rightarrow> Status \<Rightarrow> Status \<Rightarrow> nat" where
  "winner b x y =
     (let kx = hits (sint (HP x)) (damage b y); ky = hits (sint (HP y)) (damage b x);
          rx = sint (HP x) - (kx - 1) * damage b y; ry = sint (HP y) - (ky - 1) * damage b x
      in if ky < kx then 0 else if kx < ky then 1
         else if ry < rx \<or> ry = rx \<and> sint (real_player_id y) < sint (real_player_id x) then 1 else 0)"

lemma winner_ends:
  assumes x: "fit x" and y: "fit y" and h: "sint (HP x) \<le> damage b y \<or> sint (HP y) \<le> damage b x"
  shows "ends_round b x y = winner b x y"
proof -
  have hx: "0 < sint (HP x)" and hy: "0 < sint (HP y)" and dx: "0 < damage b x" and dy: "0 < damage b y"
    using x y damage_pos by (auto simp: fit_def)
  have a: "attacks_first x y = (if sint (HP y) < sint (HP x) \<or> sint (HP y) = sint (HP x) \<and> sint (real_player_id y) < sint (real_player_id x) then 1 else 0)"
    by (auto simp: attacks_first_def c_less_def)
  consider "sint (HP x) \<le> damage b y" "sint (HP y) \<le> damage b x" | "sint (HP x) \<le> damage b y" "damage b x < sint (HP y)"
    | "damage b y < sint (HP x)" "sint (HP y) \<le> damage b x" using h by linarith
  then show ?thesis
  proof cases
    case 1
    then have "hits (sint (HP x)) (damage b y) = 1" "hits (sint (HP y)) (damage b x) = 1" using hits_one hx hy by blast+
    then show ?thesis using 1 a by (simp add: winner_def ends_round_def Let_def)
  next
    case 2
    then have "hits (sint (HP x)) (damage b y) = 1" "1 < hits (sint (HP y)) (damage b x)" using hits_one hits_more hx dx by blast+
    then show ?thesis using 2 by (simp add: winner_def ends_round_def Let_def)
  next
    case 3
    then have "1 < hits (sint (HP x)) (damage b y)" "hits (sint (HP y)) (damage b x) = 1" using hits_one hits_more hy dy by blast+
    then show ?thesis using 3 by (simp add: winner_def ends_round_def Let_def)
  qed
qed

lemma winner_step:
  assumes dx: "0 < damage b x" and dy: "0 < damage b y" and k: "keeps_player b x x'" "keeps_player b y y'"
    and h: "sint (HP x') = sint (HP x) - damage b y" "sint (HP y') = sint (HP y) - damage b x"
  shows "winner b x' y' = winner b x y"
proof -
  have id: "real_player_id x' = real_player_id x" "real_player_id y' = real_player_id y"
    using k by (simp_all add: keeps_player_def)
  show ?thesis
    unfolding winner_def Let_def keeps_player_damage [OF k(1)] keeps_player_damage [OF k(2)] h id hits_step [OF dx] hits_step [OF dy]
    by (simp add: algebra_simps)
qed

text \<open>Every fight of fit players ends, after at most as many rounds as the first one has health.\<close>

lemma keeps_player_trans: "keeps_player b x y \<Longrightarrow> keeps_player b y z \<Longrightarrow> keeps_player b x z"
  by (simp add: keeps_player_def)

lemma fight_outcome:
  assumes "fit x" and "fit y" and "nat (sint (HP x)) \<le> n"
  shows "\<exists>x' y'. fight n b [x, y] = Some (winner b x y, [x', y']) \<and> battle_ended_flag x' = 1 \<and> battle_ended_flag y' = 1
    \<and> keeps_player b x x' \<and> keeps_player b y y'
    \<and> 0 < sint (HP ([x', y'] ! winner b x y)) \<and> sint (HP ([x', y'] ! winner b x y)) \<le> sint (HP ([x, y] ! winner b x y))
    \<and> sint (HP ([x', y'] ! (1 - winner b x y))) \<le> 0"
  using assms
proof (induction n arbitrary: x y)
  case 0
  then show ?case by (simp add: fit_def)
next
  case (Suc n)
  note dx = damage_pos [OF Suc.prems(1), of b] and dy = damage_pos [OF Suc.prems(2), of b]
  show ?case
  proof (cases "sint (HP x) \<le> damage b y \<or> sint (HP y) \<le> damage b x")
    case True
    obtain x' y' where r: "battle_round b [x, y] = (ends_round b x y, [x', y'])" "battle_ended_flag x' = 1" "battle_ended_flag y' = 1"
      "keeps_player b x x'" "keeps_player b y y'"
      "0 < sint (HP ([x', y'] ! ends_round b x y))" "sint (HP ([x', y'] ! ends_round b x y)) \<le> sint (HP ([x, y] ! ends_round b x y))"
      "sint (HP ([x', y'] ! (1 - ends_round b x y))) \<le> 0"
      using round_ends [OF Suc.prems(1,2) True] by blast
    have "fight (Suc n) b [x, y] = Some (ends_round b x y, [x', y'])" using r(1,2) by simp
    then show ?thesis using r(2-) winner_ends [OF Suc.prems(1,2) True] by metis
  next
    case False
    obtain f x1 y1 where r: "battle_round b [x, y] = (f, [x1, y1])" "f \<in> {0, 1}" "fit x1" "fit y1"
      "keeps_player b x x1" "keeps_player b y y1" "sint (HP x1) = sint (HP x) - damage b y" "sint (HP y1) = sint (HP y) - damage b x"
      using round_goes_on [OF Suc.prems(1,2)] False by (metis not_le)
    have less: "nat (sint (HP x1)) \<le> n" using r(7) dy Suc.prems(3) by (simp add: nat_le_iff)
    have w: "winner b x1 y1 = winner b x y" using winner_step [OF _ _ r(5-8)] dx dy by blast
    have step: "fight (Suc n) b [x, y] = fight n b [x1, y1]" using r(1,3) by (simp add: fit_def)
    obtain x' y' where o: "fight n b [x1, y1] = Some (winner b x1 y1, [x', y'])" "battle_ended_flag x' = 1" "battle_ended_flag y' = 1"
      "keeps_player b x1 x'" "keeps_player b y1 y'"
      "0 < sint (HP ([x', y'] ! winner b x1 y1))" "sint (HP ([x', y'] ! winner b x1 y1)) \<le> sint (HP ([x1, y1] ! winner b x1 y1))"
      "sint (HP ([x', y'] ! (1 - winner b x1 y1))) \<le> 0"
      using Suc.IH [OF r(3,4) less] by blast
    have w01: "winner b x y = 0 \<or> winner b x y = 1" by (simp add: winner_def Let_def)
    then have "sint (HP ([x1, y1] ! winner b x y)) \<le> sint (HP ([x, y] ! winner b x y))" using r(7,8) dx dy by auto
    then show ?thesis
      using o step keeps_player_trans [OF r(5) o(4)] keeps_player_trans [OF r(6) o(5)] unfolding w by fastforce
  qed
qed

end
