(* ===== verification/Pvp_Runs.thy ===== *)
theory Pvp_Runs
  imports Pvp_Tree Pvp_Fight
begin

text \<open>
  Runs of parts of the championship. A subtree that is \<open>standing\<close> has a living
  player at its end and battles in passing mode above it: what comes down to it
  is answered by the player (\<open>deliver\<close>) or ends the whole subtree. A battle
  whose two subtrees stand plays its fight, after which it stands itself with
  the winner's subtree and the loser's is gone (\<open>battle_plays\<close>). \<open>alike\<close> and
  \<open>gone\<close> say what of the rest of the system stays or is left.
\<close>

section \<open>Reaching a state\<close>

text \<open>Who may make a claim; the writers of the fifos are given.\<close>

definition parent_proc :: "proc \<Rightarrow> proc" where
  "parent_proc q = (case parent_of q of None \<Rightarrow> q | Some b \<Rightarrow> Battle b)"

fun owner :: "(int \<Rightarrow> proc) \<Rightarrow> claim \<Rightarrow> proc" where
  "owner lost (Starts q) = parent_proc q"
| "owner lost (Reads (To_parent q)) = parent_proc q"
| "owner lost (Writes (To_parent q)) = q"
| "owner lost (Reads (To_child q)) = q"
| "owner lost (Writes (To_child q)) = parent_proc q"
| "owner lost (Reads (Fifo k)) = Player (nat k)"
| "owner lost (Writes (Fifo k)) = lost k"

definition reaches :: "world \<Rightarrow> (int \<Rightarrow> proc) \<Rightarrow> net \<Rightarrow> net \<Rightarrow> bool" where
  "reaches w lost s t \<longleftrightarrow> (\<exists>ps. run (quiet_step w) ps s = Some t \<and> championship.owned w (owner lost) ps s)"

lemma reaches_refl [simp]: "reaches w lost s s"
  unfolding reaches_def by (intro exI [of _ "[]"]) simp

lemma reaches_trans [trans]: "reaches w lost s t \<Longrightarrow> reaches w lost t u \<Longrightarrow> reaches w lost s u"
  unfolding reaches_def using run_append championship.owned_append by (metis option.simps(5))

lemma reaches_step:
  assumes "quiet_step w p s = Some t" and "\<And>r. claims w p s = Some r \<Longrightarrow> owner lost r = p"
  shows "reaches w lost s t"
  unfolding reaches_def by (rule exI [of _ "[p]"]) (use assms in simp)

lemma reaches_running:
  assumes "reaches w lost s t" and "procs s q \<noteq> None" shows "procs t q \<noteq> None"
proof -
  obtain ps where "run (quiet_step w) ps s = Some t" using assms(1) by (auto simp: reaches_def)
  then show ?thesis using assms(2)
  proof (induction ps arbitrary: s)
    case (Cons p ps)
    then show ?case using quiet_step_frame(2) by (auto split: option.splits)
  qed simp
qed

lemma claims_do: "procs s p = Some g \<Longrightarrow> claims w p s =
    (case program_do w g of Spawn q name g' \<Rightarrow> Some (Starts q) | Receive c k \<Rightarrow> Some (Reads c)
     | Put c x g' \<Rightarrow> Some (Writes c) | _ \<Rightarrow> None)"
  by (simp add: claims_def)

lemma reach_Spawn:
  assumes "procs s p = Some g" and "program_do w g = Spawn q name g'" and "procs s q = None" and "q \<noteq> p" and "parent_proc q = p"
  shows "reaches w lost s (goes_on q (exec w p q name) (goes_on p g' s))"
  by (rule reaches_step [OF quiet_step_Spawn [OF assms(1-4)]]) (use assms in \<open>auto simp: claims_do\<close>)

lemma reach_Receive:
  assumes "procs s p = Some g" and "program_do w g = Receive c k" and "chans s c = x # xs" and "owner lost (Reads c) = p"
  shows "reaches w lost s (goes_on p (k (Some x)) (s\<lparr>chans := (chans s)(c := xs)\<rparr>))"
  by (rule reaches_step [OF quiet_step_Receive [OF assms(1-3)]]) (use assms in \<open>auto simp: claims_do\<close>)

lemma reach_Put:
  assumes "procs s p = Some g" and "program_do w g = Put c x g'" and "can_put s c" and "owner lost (Writes c) = p"
  shows "reaches w lost s (goes_on p g' (s\<lparr>chans := (chans s)(c := chans s c @ [x])\<rparr>))"
  by (rule reaches_step [OF quiet_step_Put [OF assms(1-3)]]) (use assms in \<open>auto simp: claims_do\<close>)

lemma reach_Wait:
  assumes "procs s p = Some g" and "program_do w g = Wait g'" and "can_wait s g"
  shows "reaches w lost s (goes_on p g' s)"
  by (rule reaches_step [OF quiet_step_Wait [OF assms]]) (use assms in \<open>auto simp: claims_do\<close>)

section \<open>What stays\<close>

text \<open>\<open>t\<close> differs from \<open>s\<close> only in the processes \<open>Q\<close>, their pipes, and the fifos \<open>K\<close>.\<close>

definition alike :: "proc set \<Rightarrow> int set \<Rightarrow> net \<Rightarrow> net \<Rightarrow> bool" where
  "alike Q K s t \<longleftrightarrow> (\<forall>p. p \<notin> Q \<longrightarrow> procs t p = procs s p \<and> chans t (To_parent p) = chans s (To_parent p)
       \<and> chans t (To_child p) = chans s (To_child p)) \<and> (\<forall>k. k \<notin> K \<longrightarrow> chans t (Fifo k) = chans s (Fifo k))"

lemma alike_refl [simp]: "alike Q K s s"
  by (simp add: alike_def)

lemma alike_trans: "alike Q K s t \<Longrightarrow> alike R L t u \<Longrightarrow> alike (Q \<union> R) (K \<union> L) s u"
  by (simp add: alike_def)

lemma alike_mono: "alike Q K s t \<Longrightarrow> Q \<subseteq> R \<Longrightarrow> K \<subseteq> L \<Longrightarrow> alike R L s t"
  by (auto simp: alike_def)

lemma alike_within: "alike Q UNIV s t \<Longrightarrow> alike R UNIV t u \<Longrightarrow> R \<subseteq> Q \<Longrightarrow> alike Q UNIV s u"
  using alike_trans [of Q UNIV s t R UNIV u] by (simp add: Un_absorb2)

lemma alike_goes_on [simp]: "p \<in> Q \<Longrightarrow> alike Q K s (goes_on p g s)"
  by (auto simp: alike_def)

lemma alike_chan [simp]:
  "q \<in> Q \<Longrightarrow> alike Q K s (s\<lparr>chans := (chans s)(To_parent q := l)\<rparr>)"
  "q \<in> Q \<Longrightarrow> alike Q K s (s\<lparr>chans := (chans s)(To_child q := l)\<rparr>)"
  "k \<in> K \<Longrightarrow> alike Q K s (s\<lparr>chans := (chans s)(Fifo k := l)\<rparr>)"
  by (auto simp: alike_def)

section \<open>Subtrees\<close>

text \<open>Everything in the subtree has ended and its pipes are empty.\<close>

definition gone :: "net \<Rightarrow> proc \<Rightarrow> bool" where
  "gone s q \<longleftrightarrow> (\<forall>p\<in>set (sub q). ended s p \<and> chans s (To_parent p) = [] \<and> chans s (To_child p) = [])"

lemma gone_alike: "gone s q \<Longrightarrow> alike Q K s t \<Longrightarrow> set (sub q) \<inter> Q = {} \<Longrightarrow> gone t q"
  by (auto simp: gone_def alike_def ended_def)

text \<open>A living player \<open>i\<close>, who started with \<open>orig\<close>, below battles in passing mode; the pipes inside are empty.\<close>

inductive standing :: "net \<Rightarrow> proc \<Rightarrow> cint \<Rightarrow> nat \<Rightarrow> bool" where
  Standing_player: "procs s (Player i) = Some (RunP q) \<Longrightarrow> player_id q = i \<Longrightarrow> ppc q = P_read \<Longrightarrow> original_HP q = orig
    \<Longrightarrow> standing s (Player i) orig i"
| Standing_battle: "procs s (Battle b) = Some (RunB bt) \<Longrightarrow> battle_id bt = b \<Longrightarrow> b \<in> set battles \<Longrightarrow> b \<noteq> CHR ''A'' \<Longrightarrow> bpc bt = B_pass_down
    \<Longrightarrow> first_attack bt = f \<Longrightarrow> f = 0 \<or> f = 1 \<Longrightarrow> waited bt = 1 \<Longrightarrow> length (ptr bt) = 2
    \<Longrightarrow> gone s (child b (1 - f)) \<Longrightarrow> chans s (To_parent (child b f)) = [] \<Longrightarrow> chans s (To_child (child b f)) = []
    \<Longrightarrow> standing s (child b f) orig i \<Longrightarrow> standing s (Battle b) orig i"

inductive_cases standing_PlayerE: "standing s (Player j) orig i"
inductive_cases standing_BattleE: "standing s (Battle b) orig i"

lemma sub_self: "b \<in> set battles \<Longrightarrow> Battle b \<in> set (sub (Battle b))"
  by (simp add: sub_Battle)

lemma child_sub: "b \<in> set battles \<Longrightarrow> f = 0 \<or> f = 1 \<Longrightarrow> set (sub (child b f)) \<subseteq> set (sub (Battle b))"
  by (auto simp: sub_Battle)


lemma child_sub_below: "b \<in> set battles \<Longrightarrow> f = 0 \<or> f = 1 \<Longrightarrow> set (sub (child b f)) \<subseteq> set (sub (Battle b)) - {Battle b}"
  using sub_distinct [of b] by (auto simp: sub_Battle)

lemma children_apart:
  "b \<in> set battles \<Longrightarrow> f = 0 \<or> f = 1 \<Longrightarrow> set (sub (child b f)) \<inter> set (sub (child b (1 - f))) = {}"
  using sub_distinct [of b] by (auto simp: sub_Battle)

lemma self_sub: "b \<in> set battles \<Longrightarrow> f = 0 \<or> f = 1 \<Longrightarrow> child b f \<in> set (sub (child b f))"
  using child_battles [of b f] sub_self by (cases "child b f") auto

lemma standing_same:
  assumes "standing s r orig i"
    and "\<forall>p\<in>set (sub r). procs t p = procs s p"
    and "\<forall>p\<in>set (sub r) - {r}. chans t (To_parent p) = chans s (To_parent p) \<and> chans t (To_child p) = chans s (To_child p)"
  shows "standing t r orig i"
  using assms
proof (induction rule: standing.induct)
  case (Standing_player s i q orig)
  then show ?case by (auto intro: standing.Standing_player)
next
  case (Standing_battle s b bt f orig i)
  note b = Standing_battle(3)
  have c: "set (sub (child b f)) \<subseteq> set (sub (Battle b)) - {Battle b}"
    "set (sub (child b (1 - f))) \<subseteq> set (sub (Battle b)) - {Battle b}"
    using child_sub_below [OF b, of f] child_sub_below [OF b, of "1 - f"] Standing_battle(7) by auto
  have kid: "child b f \<in> set (sub (child b f))" using self_sub [OF b Standing_battle(7)] .
  note same = Standing_battle(15,16)
  have "gone t (child b (1 - f))"
    unfolding gone_def ended_def
  proof
    fix p
    assume p: "p \<in> set (sub (child b (1 - f)))"
    then have "p \<in> set (sub (Battle b)) - {Battle b}" using c(2) by blast
    then show "(case procs t p of None \<Rightarrow> False | Some g \<Rightarrow> over g) \<and> chans t (To_parent p) = [] \<and> chans t (To_child p) = []"
      using same p Standing_battle(10) by (simp add: gone_def ended_def)
  qed
  moreover have below: "child b f \<in> set (sub (Battle b)) - {Battle b}" using c(1) kid by blast
  moreover have "chans t (To_parent (child b f)) = []" "chans t (To_child (child b f)) = []"
    using Standing_battle(11,12) bspec [OF same(2) below] by simp_all
  moreover have "standing t (child b f) orig i"
    by (rule Standing_battle(14)) (use same c(1) in auto)
  moreover have "procs t (Battle b) = Some (RunB bt)" using Standing_battle(1) same(1) sub_self [OF b] by simp
  ultimately show ?case using standing.Standing_battle [OF _ Standing_battle(2-9)] by blast
qed

section \<open>What comes down is answered\<close>

text \<open>The answer of a player that started with \<open>orig\<close>; \<open>None\<close>: it ends.\<close>

definition reply :: "cint \<Rightarrow> Status \<Rightarrow> Status option" where
  "reply orig x =
     (if battle_ended_flag x \<noteq> 1 then Some x
      else if c_le (HP x) 0 \<or> current_battle_id x = CHR ''A'' then None else Some (recover orig x))"

text \<open>What a player that has lost sends to the agent of the battle.\<close>

definition passes_on :: "nat \<Rightarrow> Status \<Rightarrow> bool" where
  "passes_on i x \<longleftrightarrow> battle_ended_flag x = 1 \<and> c_le (HP x) 0 \<and> current_battle_id x \<noteq> CHR ''A'' \<and> i \<le> 7"

definition fifo_gets :: "nat \<Rightarrow> cint \<Rightarrow> Status \<Rightarrow> net \<Rightarrow> net \<Rightarrow> bool" where
  "fifo_gets i orig x s t \<longleftrightarrow>
     (if passes_on i x
      then (\<forall>k. fifo_target (current_battle_id x) = Some k \<longrightarrow> chans t (Fifo k) = chans s (Fifo k) @ [restore orig x])
        \<and> (\<forall>k. fifo_target (current_battle_id x) \<noteq> Some k \<longrightarrow> chans t (Fifo k) = chans s (Fifo k))
      else \<forall>k. chans t (Fifo k) = chans s (Fifo k))"

definition can_pass_on :: "(int \<Rightarrow> proc) \<Rightarrow> nat \<Rightarrow> Status \<Rightarrow> net \<Rightarrow> bool" where
  "can_pass_on lost i x s \<longleftrightarrow>
     (passes_on i x \<longrightarrow> (\<exists>k. fifo_target (current_battle_id x) = Some k \<and> can_put s (Fifo k) \<and> lost k = Player i))"

text \<open>The state of a subtree after it has dealt with \<open>x\<close>.\<close>

definition answered :: "proc \<Rightarrow> cint \<Rightarrow> nat \<Rightarrow> Status \<Rightarrow> net \<Rightarrow> bool" where
  "answered r orig i x t \<longleftrightarrow>
     (case reply orig x of
        None \<Rightarrow> gone t r
      | Some y \<Rightarrow> standing t r orig i \<and> chans t (To_parent r) = [y] \<and> chans t (To_child r) = [])"


lemma after_read_reply:
  assumes "status q = x" and "original_HP q = orig"
  shows "reply orig x = Some y \<Longrightarrow> after_read q = q\<lparr>status := y, ppc := P_write\<rparr>"
    and "passes_on (player_id q) x \<Longrightarrow> fifo_target (current_battle_id x) = Some k \<Longrightarrow>
      after_read q = q\<lparr>status := restore orig x, ppc := P_fifo\<rparr>"
    and "reply orig x = None \<Longrightarrow> \<not> passes_on (player_id q) x \<Longrightarrow> after_read q = q\<lparr>ppc := P_exit\<rparr>"
  using assms by (auto simp: after_read_def reply_def passes_on_def Let_def split: if_splits)

lemma player_do_simps:
  "ppc q = P_read \<Longrightarrow> program_do w (RunP q) = Receive (To_child (Player (player_id q))) (\<lambda>x. RunP (after_read (q\<lparr>status := got x (status q),
      p_log := p_log q @ [pipe_line ''from'' (player_id q) (pids w (Player (player_id q))) (battle_pid q) (got x (status q))]\<rparr>)))"
  "ppc q = P_write \<Longrightarrow> program_do w (RunP q) = Put (To_parent (Player (player_id q))) (status q)
      (RunP (q\<lparr>p_log := p_log q @ [pipe_line ''to'' (player_id q) (pids w (Player (player_id q))) (battle_pid q) (status q)], ppc := P_read\<rparr>))"
  "ppc q = P_first \<Longrightarrow> program_do w (RunP q) = Put (To_parent (Player (player_id q))) (status q)
      (RunP (q\<lparr>p_log := p_log q @ [pipe_line ''to'' (player_id q) (pids w (Player (player_id q))) (battle_pid q) (status q)],
        original_HP := HP (status q), ppc := P_read\<rparr>))"
  "ppc q = P_start \<Longrightarrow> program_do w (RunP q) = Receive (Fifo (int (player_id q))) (\<lambda>x. RunP (q\<lparr>status := got x (status q),
      p_log := p_log q @ [fifo_from_line (player_id q) (pids w (Player (player_id q))) (got x (status q))], ppc := P_first\<rparr>))"
  "ppc q = P_fifo \<Longrightarrow> fifo_target (current_battle_id (status q)) = Some k \<Longrightarrow> program_do w (RunP q) = Put (Fifo k) (status q)
      (RunP (q\<lparr>p_log := p_log q @ [fifo_to_line (player_id q) (pids w (Player (player_id q))) k (status q)], ppc := P_exit\<rparr>))"
  by (simp_all add: program_do_def player_do_def Let_def comp_def pipe_read_def fifo_read_def pipe_wrote_def fifo_wrote_def)

lemma got_Some [simp]: "got (Some x) p = x"
  by (simp add: got_def)

lemma player_deliver:
  assumes pl: "procs u (Player i) = Some (RunP q)" "player_id q = i" "ppc q = P_read" "original_HP q = orig"
    and inp: "chans u (To_child (Player i)) = [x]" and out: "chans u (To_parent (Player i)) = []"
    and fifo: "can_pass_on lost i x u"
  shows "\<exists>t. reaches w lost u t \<and> alike {Player i} UNIV u t \<and> fifo_gets i orig x u t \<and> answered (Player i) orig i x t"
proof -
  let ?p = "Player i"
  define q1 where "q1 = q\<lparr>status := x, p_log := p_log q @ [pipe_line ''from'' i (pids w ?p) (battle_pid q) x]\<rparr>"
  have q1: "status q1 = x" "original_HP q1 = orig" "player_id q1 = i" by (simp_all add: q1_def pl)
  define u1 where "u1 = goes_on ?p (RunP (after_read q1)) (u\<lparr>chans := (chans u)(To_child ?p := [])\<rparr>)"
  have r1: "reaches w lost u u1"
    using reach_Receive [OF pl(1) player_do_simps(1) [OF pl(3)], of x "[]" lost] inp by (simp add: pl u1_def q1_def)
  have al1: "alike {?p} UNIV u u1" by (simp add: u1_def alike_def)
  have u1: "procs u1 ?p = Some (RunP (after_read q1))" "chans u1 (To_child ?p) = []" "chans u1 (To_parent ?p) = []"
    by (simp_all add: u1_def out)
  have f1: "chans u1 (Fifo k) = chans u (Fifo k)" for k by (simp add: u1_def)
  show ?thesis
  proof (cases "reply orig x")
    case (Some y)
    have no: "\<not> passes_on i x" using Some by (auto simp: reply_def passes_on_def split: if_splits)
    define q2 where "q2 = q1\<lparr>status := y, ppc := P_write\<rparr>"
    have a: "after_read q1 = q2" using after_read_reply(1) [OF q1(1,2) Some] by (simp add: q2_def)
    have q2: "ppc q2 = P_write" "player_id q2 = i" "status q2 = y" "original_HP q2 = orig" using q1 by (simp_all add: q2_def)
    define q3 where "q3 = q2\<lparr>p_log := p_log q2 @ [pipe_line ''to'' i (pids w ?p) (battle_pid q2) y], ppc := P_read\<rparr>"
    define t where "t = goes_on ?p (RunP q3) (u1\<lparr>chans := (chans u1)(To_parent ?p := [y])\<rparr>)"
    have "reaches w lost u1 t"
      using reach_Put [OF u1(1) [unfolded a] player_do_simps(2) [OF q2(1)], of lost] q2 u1(3)
      by (simp add: can_put_def t_def q3_def)
    then have "reaches w lost u t" using r1 reaches_trans by blast
    moreover have "alike {?p} UNIV u t" using al1 by (simp add: t_def alike_def)
    moreover have "fifo_gets i orig x u t" using f1 no by (simp add: fifo_gets_def t_def)
    moreover have "standing t ?p orig i" by (rule Standing_player [of _ _ q3]) (simp_all add: t_def q3_def q2)
    ultimately show ?thesis using u1(2) by (auto simp: answered_def Some t_def)
  next
    case None
    show ?thesis
    proof (cases "passes_on i x")
      case True
      obtain k where k: "fifo_target (current_battle_id x) = Some k" "can_put u (Fifo k)" "lost k = ?p"
        using fifo True by (auto simp: can_pass_on_def)
      define q2 where "q2 = q1\<lparr>status := restore orig x, ppc := P_fifo\<rparr>"
      have a: "after_read q1 = q2" using after_read_reply(2) [OF q1(1,2) _ k(1)] True q1(3) by (simp add: q2_def)
      have q2: "ppc q2 = P_fifo" "player_id q2 = i" "status q2 = restore orig x" using q1 by (simp_all add: q2_def)
      have k2: "fifo_target (current_battle_id (status q2)) = Some k" using k(1) by (simp add: q2 restore_def)
      define q3 where "q3 = q2\<lparr>p_log := p_log q2 @ [fifo_to_line i (pids w ?p) k (status q2)], ppc := P_exit\<rparr>"
      define t where "t = goes_on ?p (RunP q3) (u1\<lparr>chans := (chans u1)(Fifo k := chans u1 (Fifo k) @ [restore orig x])\<rparr>)"
      have put: "can_put u1 (Fifo k)" using k(2) by (simp add: can_put_def u1_def)
      have "reaches w lost u1 t"
        using reach_Put [OF u1(1) [unfolded a] player_do_simps(5) [OF q2(1) k2] put, of lost] q2 k(3) by (simp add: t_def q3_def)
      then have "reaches w lost u t" using r1 reaches_trans by blast
      moreover have "alike {?p} UNIV u t" using al1 by (simp add: t_def alike_def)
      moreover have "fifo_gets i orig x u t" using f1 True k(1) by (simp add: fifo_gets_def t_def)
      moreover have "gone t ?p" using u1 by (simp add: gone_def t_def ended_def over_def q3_def)
      ultimately show ?thesis by (auto simp: answered_def None)
    next
      case False
      have "after_read q1 = q1\<lparr>ppc := P_exit\<rparr>" using after_read_reply(3) [OF q1(1,2) None] False q1(3) by simp
      then have "gone u1 ?p" using u1 by (simp add: gone_def ended_def over_def)
      moreover have "fifo_gets i orig x u u1" using f1 False by (simp add: fifo_gets_def)
      ultimately show ?thesis using r1 al1 by (auto simp: answered_def None)
    qed
  qed
qed


text \<open>The system calls of a battle, as they stand in the network.\<close>

lemma parent_proc_child [simp]: "b \<in> set battles \<Longrightarrow> f = 0 \<or> f = 1 \<Longrightarrow> parent_proc (child b f) = Battle b"
  by (simp add: parent_proc_def parent_child)

lemma battle_read_fields [simp]:
  "battle_id (battle_read k pid tp n x bt) = battle_id bt" "waited (battle_read k pid tp n x bt) = waited bt"
  "first_attack (battle_read k pid tp n x bt) = first_attack bt" "b_out (battle_read k pid tp n x bt) = b_out bt"
  "ptr (battle_read k pid tp n (Some y) bt) = (ptr bt)[k := y]"
  by (simp_all add: battle_read_def Let_def)

lemma battle_wrote_fields [simp]:
  "battle_id (battle_wrote k pid tp n bt) = battle_id bt" "waited (battle_wrote k pid tp n bt) = waited bt"
  "first_attack (battle_wrote k pid tp n bt) = first_attack bt" "b_out (battle_wrote k pid tp n bt) = b_out bt"
  "ptr (battle_wrote k pid tp n bt) = ptr bt"
  by (simp_all add: battle_wrote_def)

text \<open>One system call of a battle, with what it leaves of the record that matters.\<close>

lemma battle_pass_down:
  assumes "procs s (Battle b) = Some (RunB bt)" and "battle_id bt = b" and "bpc bt = B_pass_down" and "chans s (To_child (Battle b)) = x # xs"
  shows "\<exists>bt'. reaches w lost s (goes_on (Battle b) (RunB bt') (s\<lparr>chans := (chans s)(To_child (Battle b) := xs)\<rparr>))
    \<and> battle_id bt' = b \<and> bpc bt' = B_pass_write \<and> first_attack bt' = first_attack bt \<and> waited bt' = waited bt
    \<and> ptr bt' = (ptr bt)[first_attack bt := x] \<and> b_out bt' = b_out bt"
proof -
  define k where "k = (\<lambda>x. (battle_read (first_attack bt) (pids w (Battle b)) (parent_pid bt)
     (battle_parent ! battle_index b) x bt)\<lparr>bpc := B_pass_write\<rparr>)"
  have d: "program_do w (RunB bt) = Receive (To_child (Battle b)) (\<lambda>x. RunB (k x))"
    using assms(2,3) by (simp add: program_do_def battle_do_def Let_def comp_def k_def)
  show ?thesis
    by (rule exI [of _ "k (Some x)"]) (use reach_Receive [OF assms(1) d assms(4), of lost] assms(2) in \<open>simp add: k_def\<close>)
qed

lemma battle_pass_write:
  assumes "procs s (Battle b) = Some (RunB bt)" and "battle_id bt = b" and "bpc bt = B_pass_write" and "first_attack bt = f"
    and "b \<in> set battles" and "f = 0 \<or> f = 1"
  shows "\<exists>bt'. reaches w lost s (goes_on (Battle b) (RunB bt') (s\<lparr>chans := (chans s)(To_child (child b f) := chans s (To_child (child b f)) @ [ptr bt ! f])\<rparr>))
    \<and> battle_id bt' = b \<and> bpc bt' = (if passing_over (ptr bt ! f) then B_last_wait else B_pass_read) \<and> first_attack bt' = f
    \<and> waited bt' = waited bt \<and> ptr bt' = ptr bt \<and> b_out bt' = b_out bt"
proof -
  define bt' where "bt' = (battle_wrote f (pids w (Battle b)) (pids w (child b f)) (child_name b f) bt)
     \<lparr>bpc := (if passing_over (ptr bt ! f) then B_last_wait else B_pass_read)\<rparr>"
  have d: "program_do w (RunB bt) = Put (To_child (child b f)) (ptr bt ! f) (RunB bt')"
    using assms(2-4) by (simp add: program_do_def battle_do_def Let_def bt'_def)
  show ?thesis
    by (rule exI [of _ bt']) (use reach_Put [OF assms(1) d, of lost] assms in \<open>simp add: bt'_def can_put_def\<close>)
qed

lemma battle_pass_read:
  assumes "procs s (Battle b) = Some (RunB bt)" and "battle_id bt = b" and "bpc bt = B_pass_read" and "first_attack bt = f"
    and "b \<in> set battles" and "f = 0 \<or> f = 1" and "chans s (To_parent (child b f)) = x # xs"
  shows "\<exists>bt'. reaches w lost s (goes_on (Battle b) (RunB bt') (s\<lparr>chans := (chans s)(To_parent (child b f) := xs)\<rparr>))
    \<and> battle_id bt' = b \<and> bpc bt' = B_pass_up \<and> first_attack bt' = f \<and> waited bt' = waited bt \<and> ptr bt' = (ptr bt)[f := x]
    \<and> b_out bt' = b_out bt"
proof -
  define k where "k = (\<lambda>x. (battle_read f (pids w (Battle b)) (pids w (child b f)) (child_name b f) x bt)\<lparr>bpc := B_pass_up\<rparr>)"
  have d: "program_do w (RunB bt) = Receive (To_parent (child b f)) (\<lambda>x. RunB (k x))"
    using assms(2-4) by (simp add: program_do_def battle_do_def Let_def comp_def k_def)
  show ?thesis
    by (rule exI [of _ "k (Some x)"]) (use reach_Receive [OF assms(1) d assms(7), of lost] assms in \<open>simp add: k_def\<close>)
qed

lemma battle_pass_up:
  assumes "procs s (Battle b) = Some (RunB bt)" and "battle_id bt = b" and "bpc bt = B_pass_up" and "first_attack bt = f"
  shows "\<exists>bt'. reaches w lost s (goes_on (Battle b) (RunB bt') (s\<lparr>chans := (chans s)(To_parent (Battle b) := chans s (To_parent (Battle b)) @ [ptr bt ! f])\<rparr>))
    \<and> battle_id bt' = b \<and> bpc bt' = B_pass_down \<and> first_attack bt' = f \<and> waited bt' = waited bt \<and> ptr bt' = ptr bt \<and> b_out bt' = b_out bt"
proof -
  define bt' where "bt' = (battle_wrote f (pids w (Battle b)) (parent_pid bt) (battle_parent ! battle_index b) bt)\<lparr>bpc := B_pass_down\<rparr>"
  have d: "program_do w (RunB bt) = Put (To_parent (Battle b)) (ptr bt ! f) (RunB bt')"
    using assms(2-4) by (simp add: program_do_def battle_do_def Let_def bt'_def)
  show ?thesis
    by (rule exI [of _ bt']) (use reach_Put [OF assms(1) d, of lost] assms in \<open>simp add: bt'_def can_put_def\<close>)
qed

lemma battle_last_wait:
  assumes "procs s (Battle b) = Some (RunB bt)" and "battle_id bt = b" and "bpc bt = B_last_wait" and "waited bt = 1"
    and "ended s (child b 0)" and "ended s (child b 1)"
  shows "\<exists>bt'. reaches w lost s (goes_on (Battle b) (RunB bt') s) \<and> battle_id bt' = b \<and> bpc bt' = B_exit
    \<and> b_out bt' = (if b = CHR ''A'' then b_out bt @ champion_line (real_player_id (ptr bt ! first_attack bt)) else b_out bt)"
proof -
  define bt' where "bt' = bt\<lparr>waited := waited bt + 1, bpc := B_exit,
     b_out := (if b = CHR ''A'' then b_out bt @ champion_line (real_player_id (ptr bt ! first_attack bt)) else b_out bt)\<rparr>"
  have d: "program_do w (RunB bt) = Wait (RunB bt')"
    using assms(2,3) by (simp add: program_do_def battle_do_def Let_def bt'_def)
  have "can_wait s (RunB bt)" using assms by (simp add: can_wait_def)
  then show ?thesis using reach_Wait [OF assms(1) d, of lost] assms(2) by (intro exI [of _ bt']) (simp add: bt'_def)
qed


text \<open>\<open>r\<close> stands, \<open>x\<close> waits at its input and nothing at its output; then \<open>r\<close> deals with \<open>x\<close>.\<close>

definition deals :: "world \<Rightarrow> (int \<Rightarrow> proc) \<Rightarrow> proc \<Rightarrow> cint \<Rightarrow> nat \<Rightarrow> Status \<Rightarrow> net \<Rightarrow> bool" where
  "deals w lost r orig i x u \<longleftrightarrow>
     (\<exists>t. reaches w lost u t \<and> alike (set (sub r)) UNIV u t \<and> fifo_gets i orig x u t \<and> answered r orig i x t)"

definition sane :: "Status \<Rightarrow> bool" where
  "sane x \<longleftrightarrow> (battle_ended_flag x \<noteq> 1 \<longrightarrow> 0 < sint (HP x))"

lemma reply_None: "sane x \<Longrightarrow> reply orig x = None \<longleftrightarrow> passing_over x"
  by (auto simp: reply_def passing_over_def sane_def c_le_def)

lemma fifo_gets_cong:
  assumes "\<And>k. chans s' (Fifo k) = chans s (Fifo k)" and "\<And>k. chans t' (Fifo k) = chans t (Fifo k)"
  shows "fifo_gets i orig x s' t' = fifo_gets i orig x s t"
  using assms by (simp add: fifo_gets_def)

lemma can_pass_on_same: "can_pass_on lost i x s \<Longrightarrow> (\<And>q. procs s q \<noteq> None \<Longrightarrow> procs t q \<noteq> None) \<Longrightarrow> can_pass_on lost i x t"
  by (fastforce simp: can_pass_on_def intro: can_put_more)

lemma deliver:
  assumes "standing s r orig i" and "sane x"
    and "\<forall>p\<in>set (sub r). procs u p = procs s p"
    and "\<forall>p\<in>set (sub r) - {r}. chans u (To_parent p) = chans s (To_parent p) \<and> chans u (To_child p) = chans s (To_child p)"
    and "chans u (To_child r) = [x]" and "chans u (To_parent r) = []" and "can_pass_on lost i x u"
  shows "deals w lost r orig i x u"
  using assms(1,3-)
proof (induction arbitrary: u rule: standing.induct)
  case (Standing_player s i q orig)
  then show ?case
    using player_deliver [of u i q orig x lost w] by (simp add: deals_def)
next
  case (Standing_battle s b bt f orig i)
  note b = Standing_battle(3) and f = Standing_battle(7)
  let ?c = "child b f" and ?d = "child b (1 - f)" and ?b = "Battle b"
  have f': "1 - f = 0 \<or> 1 - f = (1 :: nat)" using f by auto
  note same = Standing_battle(15,16) and inp = Standing_battle(17) and out = Standing_battle(18) and fifo = Standing_battle(19)
  have cb: "set (sub ?c) \<subseteq> set (sub ?b) - {?b}" "set (sub ?d) \<subseteq> set (sub ?b) - {?b}"
    using child_sub_below [OF b f] child_sub_below [OF b f'] by blast+
  have apart: "set (sub ?c) \<inter> set (sub ?d) = {}" by (rule children_apart [OF b f])
  have kid: "?c \<in> set (sub ?c)" "?c \<noteq> ?b" "?c \<in> set (sub ?b) - {?b}"
    using self_sub [OF b f] cb(1) by blast+
  have ub: "procs u ?b = Some (RunB bt)" using Standing_battle(1) same(1) sub_self [OF b] by simp
  have uc: "chans u (To_parent ?c) = []" "chans u (To_child ?c) = []"
    using Standing_battle(11,12) bspec [OF same(2) kid(3)] by simp_all
  obtain bt1 where bt1: "reaches w lost u (goes_on ?b (RunB bt1) (u\<lparr>chans := (chans u)(To_child ?b := [])\<rparr>))"
    "battle_id bt1 = b" "bpc bt1 = B_pass_write" "first_attack bt1 = f" "waited bt1 = 1" "ptr bt1 = (ptr bt)[f := x]"
    using battle_pass_down [OF ub Standing_battle(2,5) inp, of w lost] Standing_battle(6,8) by auto
  have at: "ptr bt1 ! f = x" "length (ptr bt1) = 2" using bt1(6) Standing_battle(9) f by auto
  define u1 where "u1 = goes_on ?b (RunB bt1) (u\<lparr>chans := (chans u)(To_child ?b := [])\<rparr>)"
  have u1: "procs u1 ?b = Some (RunB bt1)" by (simp add: u1_def)
  obtain bt2 where bt2: "reaches w lost u1 (goes_on ?b (RunB bt2) (u1\<lparr>chans := (chans u1)(To_child ?c := chans u1 (To_child ?c) @ [x])\<rparr>))"
    "battle_id bt2 = b" "bpc bt2 = (if passing_over x then B_last_wait else B_pass_read)" "first_attack bt2 = f"
    "waited bt2 = waited bt1" "ptr bt2 = ptr bt1"
    using battle_pass_write [OF u1 bt1(2-4) b f, of w lost, unfolded at(1)] by blast
  have w2: "waited bt2 = 1" using bt2(5) bt1(5) by simp
  define u2 where "u2 = goes_on ?b (RunB bt2) (u1\<lparr>chans := (chans u1)(To_child ?c := chans u1 (To_child ?c) @ [x])\<rparr>)"
  have u2p: "procs u2 p = (if p = ?b then Some (RunB bt2) else procs u p)" for p by (simp add: u2_def u1_def)
  have u2c: "chans u2 (To_child ?c) = [x]" "chans u2 (To_parent p) = chans u (To_parent p)" "chans u2 (To_child ?b) = []"
    "p \<noteq> ?b \<Longrightarrow> p \<noteq> ?c \<Longrightarrow> chans u2 (To_child p) = chans u (To_child p)" "chans u2 (Fifo k) = chans u (Fifo k)" for p k
    using kid(2) kid(2) [symmetric] uc by (simp_all add: u2_def u1_def)
  have ru2: "reaches w lost u u2" using reaches_trans [OF bt1(1) [folded u1_def] bt2(1)] by (simp add: u2_def)
  have "deals w lost ?c orig i x u2"
  proof (rule Standing_battle(14))
    show "\<forall>p\<in>set (sub ?c). procs u2 p = procs s p" using u2p cb(1) same(1) by auto
    show "\<forall>p\<in>set (sub ?c) - {?c}. chans u2 (To_parent p) = chans s (To_parent p) \<and> chans u2 (To_child p) = chans s (To_child p)"
    proof
      fix p
      assume p: "p \<in> set (sub ?c) - {?c}"
      then have "p \<in> set (sub ?b) - {?b}" using cb(1) by blast
      then show "chans u2 (To_parent p) = chans s (To_parent p) \<and> chans u2 (To_child p) = chans s (To_child p)"
        using p bspec [OF same(2), of p] u2c(2,4) by simp
    qed
    show "chans u2 (To_child ?c) = [x]" "chans u2 (To_parent ?c) = []" using u2c(1,2) uc by simp_all
    show "can_pass_on lost i x u2" by (rule can_pass_on_same [OF fifo]) (use u2p in auto)
  qed
  then obtain v where v: "reaches w lost u2 v" "alike (set (sub ?c)) UNIV u2 v" "fifo_gets i orig x u2 v" "answered ?c orig i x v"
    unfolding deals_def by blast
  have vb: "procs v ?b = Some (RunB bt2)" "chans v (To_child ?b) = []" "chans v (To_parent ?b) = []"
    using v(2) cb(1) u2p u2c out by (auto simp: alike_def)
  have vd: "gone v ?d"
  proof -
    have "gone u2 ?d"
      unfolding gone_def ended_def
    proof
      fix p
      assume p: "p \<in> set (sub ?d)"
      then have "p \<in> set (sub ?b) - {?b}" "p \<noteq> ?b" "p \<noteq> ?c" using cb(2) apart kid(1) by blast+
      then show "(case procs u2 p of None \<Rightarrow> False | Some g \<Rightarrow> over g) \<and> chans u2 (To_parent p) = [] \<and> chans u2 (To_child p) = []"
        using p Standing_battle(10) same u2p u2c by (simp add: gone_def ended_def)
    qed
    then show ?thesis using gone_alike [OF _ v(2)] apart by blast
  qed
  have rv: "reaches w lost u v" using ru2 v(1) reaches_trans by blast
  have al: "alike (set (sub ?b)) UNIV u v"
  proof -
    have "alike {?b, ?c} UNIV u u2" using u2p u2c by (simp add: alike_def)
    then have "alike ({?b, ?c} \<union> set (sub ?c)) (UNIV \<union> UNIV) u v" using v(2) alike_trans by blast
    then show ?thesis by (rule alike_mono) (use cb(1) kid(3) sub_self [OF b] in auto)
  qed
  have ff: "fifo_gets i orig x u v" using v(3) fifo_gets_cong [of u2 u v v i orig x] u2c(5) by simp
  show ?case
  proof (cases "reply orig x")
    case None
    then have "bpc bt2 = B_last_wait" using bt2(3) reply_None [OF assms(2)] by simp
    moreover have "gone v ?c" using v(4) None by (simp add: answered_def)
    then have "ended v (child b 0)" "ended v (child b 1)"
      using vd kid(1) self_sub [OF b f'] f by (auto simp: gone_def)
    ultimately obtain bt3 where bt3: "reaches w lost v (goes_on ?b (RunB bt3) v)" "bpc bt3 = B_exit"
      using battle_last_wait [OF vb(1) bt2(2) _ w2, of w lost] by blast
    let ?t = "goes_on ?b (RunB bt3) v"
    have "gone ?t ?b"
      unfolding gone_def
    proof
      fix p
      assume "p \<in> set (sub ?b)"
      then have "p = ?b \<or> p \<in> set (sub ?c) \<or> p \<in> set (sub ?d)" using f by (auto simp: sub_Battle [OF b])
      then show "ended ?t p \<and> chans ?t (To_parent p) = [] \<and> chans ?t (To_child p) = []"
        using bt3(2) vb vd \<open>gone v ?c\<close> by (auto simp: gone_def ended_def over_def)
    qed
    moreover have "alike (set (sub ?b)) UNIV u ?t" using al sub_self [OF b] by (auto simp: alike_def)
    moreover have "fifo_gets i orig x u ?t" using ff fifo_gets_cong [of u u v ?t i orig x] by simp
    ultimately show ?thesis
      using reaches_trans [OF rv bt3(1)] None unfolding deals_def answered_def by auto
  next
    case (Some y)
    then have pc: "bpc bt2 = B_pass_read" using bt2(3) reply_None [OF assms(2), of orig] by simp
    have st: "standing v ?c orig i" "chans v (To_parent ?c) = [y]" "chans v (To_child ?c) = []"
      using v(4) Some by (simp_all add: answered_def)
    obtain bt3 where bt3: "reaches w lost v (goes_on ?b (RunB bt3) (v\<lparr>chans := (chans v)(To_parent ?c := [])\<rparr>))"
      "battle_id bt3 = b" "bpc bt3 = B_pass_up" "first_attack bt3 = f" "waited bt3 = waited bt2" "ptr bt3 = (ptr bt2)[f := y]"
      using battle_pass_read [OF vb(1) bt2(2) pc bt2(4) b f st(2), of w lost] by blast
    have at3: "ptr bt3 ! f = y" "length (ptr bt3) = 2" using bt3(6) bt2(6) at(2) f by auto
    define v1 where "v1 = goes_on ?b (RunB bt3) (v\<lparr>chans := (chans v)(To_parent ?c := [])\<rparr>)"
    have v1: "procs v1 ?b = Some (RunB bt3)" by (simp add: v1_def)
    obtain bt4 where bt4: "reaches w lost v1 (goes_on ?b (RunB bt4) (v1\<lparr>chans := (chans v1)(To_parent ?b := chans v1 (To_parent ?b) @ [y])\<rparr>))"
      "battle_id bt4 = b" "bpc bt4 = B_pass_down" "first_attack bt4 = f" "waited bt4 = waited bt3" "ptr bt4 = ptr bt3"
      using battle_pass_up [OF v1 bt3(2-4), of w lost, unfolded at3(1)] by blast
    have w4: "waited bt4 = 1" using bt4(5) bt3(5) w2 by simp
    define t where "t = goes_on ?b (RunB bt4) (v1\<lparr>chans := (chans v1)(To_parent ?b := chans v1 (To_parent ?b) @ [y])\<rparr>)"
    have tp: "procs t p = (if p = ?b then Some (RunB bt4) else procs v p)" for p by (simp add: t_def v1_def)
    have tc: "chans t (To_parent ?b) = [y]" "chans t (To_parent ?c) = []" "chans t (To_child p) = chans v (To_child p)"
      "p \<noteq> ?b \<Longrightarrow> p \<noteq> ?c \<Longrightarrow> chans t (To_parent p) = chans v (To_parent p)" "chans t (Fifo k) = chans v (Fifo k)" for p k
      using kid(2) kid(2) [symmetric] vb(3) by (simp_all add: t_def v1_def)
    have "reaches w lost v t" using reaches_trans [OF bt3(1) [folded v1_def] bt4(1)] by (simp add: t_def)
    then have rt: "reaches w lost u t" by (rule reaches_trans [OF rv])
    have gd: "gone t ?d"
      unfolding gone_def ended_def
    proof
      fix p
      assume p: "p \<in> set (sub ?d)"
      then have "p \<noteq> ?b" "p \<noteq> ?c" using cb(2) apart kid(1) by blast+
      then show "(case procs t p of None \<Rightarrow> False | Some g \<Rightarrow> over g) \<and> chans t (To_parent p) = [] \<and> chans t (To_child p) = []"
        using p vd tp tc by (simp add: gone_def ended_def)
    qed
    have "standing t ?c orig i"
      by (rule standing_same [OF st(1)]) (use tp tc(3,4) cb(1) in auto)
    then have "standing t ?b orig i"
      using standing.Standing_battle [of t b bt4 f orig i] tp bt4(2-4,6) w4 b Standing_battle(4) f at3 gd tc st(3) by simp
    moreover have "chans t (To_child ?b) = []" using tc(3) vb(2) by simp
    moreover have "alike (set (sub ?b)) UNIV u t"
    proof -
      have "alike {?b, ?c} UNIV v t" using tp tc by (simp add: alike_def)
      then show ?thesis by (rule alike_within [OF al]) (use sub_self [OF b] kid(3) in auto)
    qed
    moreover have "fifo_gets i orig x u t" using ff fifo_gets_cong [of u u v t i orig x] tc(5) by simp
    ultimately show ?thesis using rt tc(1) unfolding deals_def answered_def by (auto simp: Some)
  qed
qed


section \<open>A battle plays\<close>

lemma answered_alike:
  assumes "answered r orig i x t" and "alike Q UNIV t u" and "set (sub r) \<inter> Q = {}" and "r \<in> set (sub r)"
  shows "answered r orig i x u"
proof -
  have same: "procs u p = procs t p" "chans u (To_parent p) = chans t (To_parent p)" "chans u (To_child p) = chans t (To_child p)"
    if "p \<in> set (sub r)" for p
    using assms(2,3) that by (auto simp: alike_def)
  show ?thesis
    using assms(1) gone_alike [OF _ assms(2,3)] standing_same [of t r orig i u] same assms(4)
    by (auto simp: answered_def split: option.splits)
qed

lemma both_answer:
  assumes b: "b \<in> set battles"
    and st: "standing t (child b 0) o0 i0" "standing t (child b 1) o1 i1"
    and inp: "chans t (To_child (child b 0)) = [y0]" "chans t (To_child (child b 1)) = [y1]"
    and out: "chans t (To_parent (child b 0)) = []" "chans t (To_parent (child b 1)) = []"
    and sane: "sane y0" "sane y1" and can: "can_pass_on lost i0 y0 t" "can_pass_on lost i1 y1 t"
    and one: "\<not> (passes_on i0 y0 \<and> passes_on i1 y1)"
  shows "\<exists>u. reaches w lost t u \<and> alike (set (sub (child b 0)) \<union> set (sub (child b 1))) UNIV t u
    \<and> answered (child b 0) o0 i0 y0 u \<and> answered (child b 1) o1 i1 y1 u
    \<and> (if passes_on i0 y0 then fifo_gets i0 o0 y0 t u else fifo_gets i1 o1 y1 t u)"
proof -
  let ?c = "child b 0" and ?d = "child b 1"
  have apart: "set (sub ?c) \<inter> set (sub ?d) = {}" using children_apart [OF b, of 0] by simp
  have self: "?c \<in> set (sub ?c)" "?d \<in> set (sub ?d)" using self_sub [OF b] by simp_all
  obtain v where v: "reaches w lost t v" "alike (set (sub ?c)) UNIV t v" "fifo_gets i0 o0 y0 t v" "answered ?c o0 i0 y0 v"
    using deliver [OF st(1) sane(1), of t lost w] inp(1) out(1) can(1) by (auto simp: deals_def)
  have same: "procs v p = procs t p" "chans v (To_parent p) = chans t (To_parent p)" "chans v (To_child p) = chans t (To_child p)"
    if "p \<in> set (sub ?d)" for p
    using v(2) that apart by (auto simp: alike_def)
  have stv: "standing v ?d o1 i1" by (rule standing_same [OF st(2)]) (simp_all add: same)
  have "can_pass_on lost i1 y1 v" using can_pass_on_same [OF can(2)] reaches_running [OF v(1)] by blast
  then obtain u where u: "reaches w lost v u" "alike (set (sub ?d)) UNIV v u" "fifo_gets i1 o1 y1 v u" "answered ?d o1 i1 y1 u"
    using deliver [OF stv sane(2), of v lost w] inp(2) out(2) same self(2) by (auto simp: deals_def)
  have "answered ?c o0 i0 y0 u" by (rule answered_alike [OF v(4) u(2) apart self(1)])
  moreover have "if passes_on i0 y0 then fifo_gets i0 o0 y0 t u else fifo_gets i1 o1 y1 t u"
    using v(3) u(3) one by (auto simp: fifo_gets_def)
  ultimately show ?thesis
    using reaches_trans [OF v(1) u(1)] alike_trans [OF v(2) u(2)] u(4) by auto
qed

text \<open>Reading both messages, the round, and both answers.\<close>

lemma battle_first_read:
  assumes "procs s (Battle b) = Some (RunB bt)" and "battle_id bt = b" and "bpc bt = B_read 0"
    and "b \<in> set battles" and "chans s (To_parent (child b 0)) = x # xs"
  shows "\<exists>bt'. reaches w lost s (goes_on (Battle b) (RunB bt') (s\<lparr>chans := (chans s)(To_parent (child b 0) := xs)\<rparr>))
    \<and> battle_id bt' = b \<and> bpc bt' = B_read 1 \<and> waited bt' = waited bt \<and> ptr bt' = (ptr bt)[0 := x] \<and> b_out bt' = b_out bt"
proof -
  define k where "k = (\<lambda>x. (battle_read 0 (pids w (Battle b)) (pids w (child b 0)) (child_name b 0) x bt)\<lparr>bpc := B_read 1\<rparr>)"
  have d: "program_do w (RunB bt) = Receive (To_parent (child b 0)) (\<lambda>x. RunB (k x))"
    using assms(2,3) by (simp add: program_do_def battle_do_def Let_def comp_def k_def)
  show ?thesis
    by (rule exI [of _ "k (Some x)"]) (use reach_Receive [OF assms(1) d assms(5), of lost] assms in \<open>simp add: k_def\<close>)
qed

lemma battle_second_read:
  assumes "procs s (Battle b) = Some (RunB bt)" and "battle_id bt = b" and "bpc bt = B_read 1"
    and "b \<in> set battles" and "chans s (To_parent (child b 1)) = x # xs"
    and "(ptr bt)[1 := x] = ps" and "battle_ended_flag (ps ! 0) = 0" and "battle_round b ps = (f, qs)"
  shows "\<exists>bt'. reaches w lost s (goes_on (Battle b) (RunB bt') (s\<lparr>chans := (chans s)(To_parent (child b 1) := xs)\<rparr>))
    \<and> battle_id bt' = b \<and> bpc bt' = B_write 0 \<and> waited bt' = waited bt \<and> ptr bt' = qs \<and> first_attack bt' = f \<and> b_out bt' = b_out bt"
proof -
  define k where "k = (\<lambda>x. loop_head (battle_read 1 (pids w (Battle b)) (pids w (child b 1)) (child_name b 1) x bt))"
  have d: "program_do w (RunB bt) = Receive (To_parent (child b 1)) (\<lambda>x. RunB (k x))"
    using assms(2,3) by (simp add: program_do_def battle_do_def Let_def comp_def k_def)
  have "k (Some x) = (battle_read 1 (pids w (Battle b)) (pids w (child b 1)) (child_name b 1) (Some x) bt)
      \<lparr>first_attack := f, ptr := qs, bpc := B_write 0\<rparr>"
    using assms(2,6-8) by (simp add: k_def loop_head_def)
  then show ?thesis
    by (intro exI [of _ "k (Some x)"]) (use reach_Receive [OF assms(1) d assms(5), of lost] assms in simp)
qed

lemma battle_first_write:
  assumes "procs s (Battle b) = Some (RunB bt)" and "battle_id bt = b" and "bpc bt = B_write 0" and "b \<in> set battles"
  shows "\<exists>bt'. reaches w lost s (goes_on (Battle b) (RunB bt') (s\<lparr>chans := (chans s)(To_child (child b 0) := chans s (To_child (child b 0)) @ [ptr bt ! 0])\<rparr>))
    \<and> battle_id bt' = b \<and> bpc bt' = B_write 1 \<and> waited bt' = waited bt \<and> ptr bt' = ptr bt \<and> first_attack bt' = first_attack bt \<and> b_out bt' = b_out bt"
proof -
  define bt' where "bt' = (battle_wrote 0 (pids w (Battle b)) (pids w (child b 0)) (child_name b 0) bt)\<lparr>bpc := B_write 1\<rparr>"
  have d: "program_do w (RunB bt) = Put (To_child (child b 0)) (ptr bt ! 0) (RunB bt')"
    using assms(2,3) by (simp add: program_do_def battle_do_def Let_def bt'_def)
  show ?thesis
    by (rule exI [of _ bt']) (use reach_Put [OF assms(1) d, of lost] assms in \<open>simp add: bt'_def can_put_def\<close>)
qed

lemma battle_second_write:
  assumes "procs s (Battle b) = Some (RunB bt)" and "battle_id bt = b" and "bpc bt = B_write 1" and "b \<in> set battles"
  shows "\<exists>bt'. reaches w lost s (goes_on (Battle b) (RunB bt') (s\<lparr>chans := (chans s)(To_child (child b 1) := chans s (To_child (child b 1)) @ [ptr bt ! 1])\<rparr>))
    \<and> battle_id bt' = b \<and> bpc bt' = (if battle_ended_flag (ptr bt ! 0) = 0 then B_read 0 else B_wait) \<and> waited bt' = waited bt
    \<and> ptr bt' = ptr bt \<and> first_attack bt' = first_attack bt \<and> b_out bt' = b_out bt"
proof -
  define bt' where "bt' = (battle_wrote 1 (pids w (Battle b)) (pids w (child b 1)) (child_name b 1) bt)
     \<lparr>bpc := (if battle_ended_flag (ptr bt ! 0) = 0 then B_read 0 else B_wait)\<rparr>"
  have d: "program_do w (RunB bt) = Put (To_child (child b 1)) (ptr bt ! 1) (RunB bt')"
    using assms(2,3) by (simp add: program_do_def battle_do_def Let_def bt'_def)
  show ?thesis
    by (rule exI [of _ bt']) (use reach_Put [OF assms(1) d, of lost] assms in \<open>simp add: bt'_def can_put_def\<close>)
qed


text \<open>The battle \<open>b\<close> as the record \<open>bt\<close>; its children stand with their messages sent.\<close>

definition ready :: "net \<Rightarrow> proc \<Rightarrow> Status \<Rightarrow> cint \<Rightarrow> nat \<Rightarrow> bool" where
  "ready s r x orig i \<longleftrightarrow> standing s r orig i \<and> chans s (To_parent r) = [x] \<and> chans s (To_child r) = []"

lemma answered_ready: "reply orig x = Some y \<Longrightarrow> answered r orig i x t \<longleftrightarrow> ready t r y orig i"
  by (simp add: answered_def ready_def)

lemma net_round:
  assumes b: "b \<in> set battles"
    and bt: "procs s (Battle b) = Some (RunB bt)" "battle_id bt = b" "bpc bt = B_read 0" "length (ptr bt) = 2"
    and kids: "ready s (child b 0) x0 o0 i0" "ready s (child b 1) x1 o1 i1"
    and flag: "battle_ended_flag x0 = 0" and rnd: "battle_round b [x0, x1] = (f, [y0, y1])"
    and sane: "sane y0" "sane y1" and can: "can_pass_on lost i0 y0 s" "can_pass_on lost i1 y1 s"
    and one: "\<not> (passes_on i0 y0 \<and> passes_on i1 y1)"
  shows "\<exists>u bt'. reaches w lost s u \<and> alike (set (sub (Battle b)) - {Battle b}) UNIV (goes_on (Battle b) (RunB bt') s) u
    \<and> battle_id bt' = b \<and> bpc bt' = (if battle_ended_flag y0 = 0 then B_read 0 else B_wait) \<and> waited bt' = waited bt
    \<and> ptr bt' = [y0, y1] \<and> first_attack bt' = f \<and> b_out bt' = b_out bt
    \<and> answered (child b 0) o0 i0 y0 u \<and> answered (child b 1) o1 i1 y1 u
    \<and> (if passes_on i0 y0 then fifo_gets i0 o0 y0 s u else fifo_gets i1 o1 y1 s u)"
proof -
  let ?b = "Battle b" and ?c = "child b 0" and ?d = "child b 1"
  have below: "set (sub ?c) \<subseteq> set (sub ?b) - {?b}" "set (sub ?d) \<subseteq> set (sub ?b) - {?b}"
    using child_sub_below [OF b] by simp_all
  have self: "?c \<in> set (sub ?c)" "?d \<in> set (sub ?d)" using self_sub [OF b] by simp_all
  have apart: "set (sub ?c) \<inter> set (sub ?d) = {}" using children_apart [OF b, of 0] by simp
  have ne: "?c \<noteq> ?d" "?c \<noteq> ?b" "?d \<noteq> ?b"
    using disjoint_iff [THEN iffD1, OF apart] subsetD [OF below(1) self(1)] subsetD [OF below(2) self(2)] self by (metis, blast, blast)
  have ch: "standing s ?c o0 i0" "chans s (To_parent ?c) = [x0]" "chans s (To_child ?c) = []"
    "standing s ?d o1 i1" "chans s (To_parent ?d) = [x1]" "chans s (To_child ?d) = []"
    using kids by (simp_all add: ready_def)
  obtain b1 where b1: "reaches w lost s (goes_on ?b (RunB b1) (s\<lparr>chans := (chans s)(To_parent ?c := [])\<rparr>))"
    "battle_id b1 = b" "bpc b1 = B_read 1" "waited b1 = waited bt" "ptr b1 = (ptr bt)[0 := x0]" "b_out b1 = b_out bt"
    using battle_first_read [OF bt(1-3) b ch(2), of w lost] by blast
  define s1 where "s1 = goes_on ?b (RunB b1) (s\<lparr>chans := (chans s)(To_parent ?c := [])\<rparr>)"
  have s1: "procs s1 ?b = Some (RunB b1)" "chans s1 (To_parent ?d) = [x1]" using ne ch by (simp_all add: s1_def)
  have ps: "(ptr b1)[1 := x1] = [x0, x1]"
  proof -
    obtain p q where "ptr bt = [p, q]" using bt(4) by (auto simp: length_Suc_conv numeral_2_eq_2)
    then show ?thesis by (simp add: b1(5))
  qed
  obtain b2 where b2: "reaches w lost s1 (goes_on ?b (RunB b2) (s1\<lparr>chans := (chans s1)(To_parent ?d := [])\<rparr>))"
    "battle_id b2 = b" "bpc b2 = B_write 0" "waited b2 = waited b1" "ptr b2 = [y0, y1]" "first_attack b2 = f" "b_out b2 = b_out b1"
    using battle_second_read [OF s1(1) b1(2,3) b s1(2) ps _ rnd, of w lost] flag by auto
  define s2 where "s2 = goes_on ?b (RunB b2) (s1\<lparr>chans := (chans s1)(To_parent ?d := [])\<rparr>)"
  have s2: "procs s2 ?b = Some (RunB b2)" by (simp add: s2_def)
  obtain b3 where b3: "reaches w lost s2 (goes_on ?b (RunB b3) (s2\<lparr>chans := (chans s2)(To_child ?c := chans s2 (To_child ?c) @ [y0])\<rparr>))"
    "battle_id b3 = b" "bpc b3 = B_write 1" "waited b3 = waited b2" "ptr b3 = ptr b2" "first_attack b3 = first_attack b2" "b_out b3 = b_out b2"
    using battle_first_write [OF s2 b2(2,3) b, of w lost] unfolding b2(5) nth_Cons_0 by blast
  define s3 where "s3 = goes_on ?b (RunB b3) (s2\<lparr>chans := (chans s2)(To_child ?c := chans s2 (To_child ?c) @ [y0])\<rparr>)"
  have s3: "procs s3 ?b = Some (RunB b3)" by (simp add: s3_def)
  have p3: "ptr b3 ! 0 = y0" "ptr b3 ! 1 = y1" by (simp_all add: b3(5) b2(5))
  obtain b4 where b4: "reaches w lost s3 (goes_on ?b (RunB b4) (s3\<lparr>chans := (chans s3)(To_child ?d := chans s3 (To_child ?d) @ [y1])\<rparr>))"
    "battle_id b4 = b" "bpc b4 = (if battle_ended_flag y0 = 0 then B_read 0 else B_wait)" "waited b4 = waited b3" "ptr b4 = ptr b3"
    "first_attack b4 = first_attack b3" "b_out b4 = b_out b3"
    using battle_second_write [OF s3 b3(2,3) b, of w lost] unfolding p3 by blast
  define t where "t = goes_on ?b (RunB b4) (s3\<lparr>chans := (chans s3)(To_child ?d := chans s3 (To_child ?d) @ [y1])\<rparr>)"
  have rt: "reaches w lost s t"
    using reaches_trans [OF b1(1) reaches_trans [OF b2(1) [unfolded s1_def] reaches_trans [OF b3(1) [unfolded s2_def s1_def] b4(1) [unfolded s3_def s2_def s1_def]]]]
    by (simp add: t_def s3_def s2_def s1_def)
  have tp: "procs t p = (if p = ?b then Some (RunB b4) else procs s p)" for p by (simp add: t_def s3_def s2_def s1_def)
  have tc: "chans t (To_parent ?c) = []" "chans t (To_parent ?d) = []" "chans t (To_child ?c) = [y0]" "chans t (To_child ?d) = [y1]"
    "chans t (Fifo k) = chans s (Fifo k)"
    "p \<noteq> ?c \<Longrightarrow> p \<noteq> ?d \<Longrightarrow> chans t (To_parent p) = chans s (To_parent p) \<and> chans t (To_child p) = chans s (To_child p)" for k p
    using ne ne(1) [symmetric] ch by (simp_all add: t_def s3_def s2_def s1_def)
  have st0: "standing t ?c o0 i0"
  proof (rule standing_same)
    show "standing s ?c o0 i0" using ch by blast
    show "\<forall>p\<in>set (sub ?c). procs t p = procs s p" using tp below(1) by auto
    show "\<forall>p\<in>set (sub ?c) - {?c}. chans t (To_parent p) = chans s (To_parent p) \<and> chans t (To_child p) = chans s (To_child p)"
      using tc(6) disjoint_iff [THEN iffD1, OF apart] self(2) by (metis Diff_iff singletonI)
  qed
  have st1: "standing t ?d o1 i1"
  proof (rule standing_same)
    show "standing s ?d o1 i1" using ch by blast
    show "\<forall>p\<in>set (sub ?d). procs t p = procs s p" using tp below(2) by auto
    show "\<forall>p\<in>set (sub ?d) - {?d}. chans t (To_parent p) = chans s (To_parent p) \<and> chans t (To_child p) = chans s (To_child p)"
      using tc(6) disjoint_iff [THEN iffD1, OF apart] self(1) by (metis Diff_iff singletonI)
  qed
  have more: "procs s q \<noteq> None \<Longrightarrow> procs t q \<noteq> None" for q by (simp add: tp)
  obtain u where u: "reaches w lost t u" "alike (set (sub ?c) \<union> set (sub ?d)) UNIV t u"
    "answered ?c o0 i0 y0 u" "answered ?d o1 i1 y1 u"
    "if passes_on i0 y0 then fifo_gets i0 o0 y0 t u else fifo_gets i1 o1 y1 t u"
    using both_answer [OF b st0 st1 tc(3,4,1,2) sane can_pass_on_same [OF can(1) more] can_pass_on_same [OF can(2) more] one] by blast
  have "alike {?c, ?d} UNIV (goes_on ?b (RunB b4) s) t" using tp tc by (simp add: alike_def)
  then have "alike ({?c, ?d} \<union> (set (sub ?c) \<union> set (sub ?d))) (UNIV \<union> UNIV) (goes_on ?b (RunB b4) s) u"
    using u(2) by (rule alike_trans)
  then have "alike (set (sub ?b) - {?b}) UNIV (goes_on ?b (RunB b4) s) u"
    by (rule alike_mono) (use below self in auto)
  moreover have "if passes_on i0 y0 then fifo_gets i0 o0 y0 s u else fifo_gets i1 o1 y1 s u"
    using u(5) fifo_gets_cong [of s t u u] tc(5) by (auto split: if_splits)
  ultimately show ?thesis
    using reaches_trans [OF rt u(1)] u(3,4) b4(2-7) b3(4-7) b2(4-7) b1(4,6)
    by (intro exI [of _ u] exI [of _ b4]) simp
qed


lemma alike_again: "alike Q K (goes_on p g s) t \<Longrightarrow> alike Q K (goes_on p h t) u \<Longrightarrow> alike Q K (goes_on p h s) u"
  by (simp add: alike_def)

lemma net_fight:
  assumes b: "b \<in> set battles" and "fit x0" and "fit x1" and "fight n b [x0, x1] = Some (f, qs)"
    and "procs s (Battle b) = Some (RunB bt)" and "battle_id bt = b" and "bpc bt = B_read 0" and "length (ptr bt) = 2"
    and "ready s (child b 0) x0 o0 i0" and "ready s (child b 1) x1 o1 i1"
    and "can_pass_on lost i0 (qs ! 0) s" and "can_pass_on lost i1 (qs ! 1) s"
    and "\<not> (passes_on i0 (qs ! 0) \<and> passes_on i1 (qs ! 1))"
  shows "\<exists>u bt'. reaches w lost s u \<and> alike (set (sub (Battle b)) - {Battle b}) UNIV (goes_on (Battle b) (RunB bt') s) u
    \<and> battle_id bt' = b \<and> bpc bt' = B_wait \<and> waited bt' = waited bt \<and> ptr bt' = qs \<and> first_attack bt' = f \<and> b_out bt' = b_out bt
    \<and> answered (child b 0) o0 i0 (qs ! 0) u \<and> answered (child b 1) o1 i1 (qs ! 1) u
    \<and> (if passes_on i0 (qs ! 0) then fifo_gets i0 o0 (qs ! 0) s u else fifo_gets i1 o1 (qs ! 1) s u)"
  using assms(2-)
proof (induction n arbitrary: x0 x1 s bt)
  case (Suc n)
  have flag: "battle_ended_flag x0 = 0" using Suc.prems(1) by (simp add: fit_def)
  show ?case
  proof (cases "sint (HP x0) \<le> damage b x1 \<or> sint (HP x1) \<le> damage b x0")
    case True
    obtain y0 y1 where r: "battle_round b [x0, x1] = (ends_round b x0 x1, [y0, y1])" "battle_ended_flag y0 = 1" "battle_ended_flag y1 = 1"
      using round_ends [OF Suc.prems(1,2) True] by blast
    have fq: "f = ends_round b x0 x1" "qs = [y0, y1]" using Suc.prems(3) r(1,2) by simp_all
    have at: "qs ! 0 = y0" "qs ! 1 = y1" by (simp_all add: fq)
    have sane: "sane y0" "sane y1" using r by (simp_all add: sane_def)
    have pc: "(if battle_ended_flag y0 = 0 then B_read 0 else B_wait) = B_wait" using r(2) by simp
    from net_round [OF b Suc.prems(4-9) flag r(1) sane, of lost w, unfolded pc] Suc.prems(10-12) [unfolded at]
    show ?thesis unfolding at unfolding fq by blast
  next
    case False
    then have less: "damage b x1 < sint (HP x0)" "damage b x0 < sint (HP x1)" by auto
    obtain g y0 y1 where r: "battle_round b [x0, x1] = (g, [y0, y1])" "fit y0" "fit y1"
      using round_goes_on [OF Suc.prems(1,2) less] by blast
    have fl: "battle_ended_flag y0 = 0" "battle_ended_flag y1 = 0" using r(2,3) by (simp_all add: fit_def)
    have rest: "fight n b [y0, y1] = Some (f, qs)" using Suc.prems(3) r(1) fl by simp
    have sane: "sane y0" "sane y1" using r(2,3) by (simp_all add: sane_def fit_def)
    have no: "\<not> passes_on i y0" "\<not> passes_on i y1" for i using fl by (simp_all add: passes_on_def)
    have can: "can_pass_on lost i0 y0 s" "can_pass_on lost i1 y1 s" using no by (simp_all add: can_pass_on_def)
    have pc: "(if battle_ended_flag y0 = 0 then B_read 0 else B_wait) = B_read 0" using fl by simp
    have one: "\<not> (passes_on i0 y0 \<and> passes_on i1 y1)" using no by simp
    obtain u bt1 where u: "reaches w lost s u" "alike (set (sub (Battle b)) - {Battle b}) UNIV (goes_on (Battle b) (RunB bt1) s) u"
      "battle_id bt1 = b" "bpc bt1 = B_read 0" "waited bt1 = waited bt" "ptr bt1 = [y0, y1]" "b_out bt1 = b_out bt"
      "answered (child b 0) o0 i0 y0 u" "answered (child b 1) o1 i1 y1 u"
      "if passes_on i0 y0 then fifo_gets i0 o0 y0 s u else fifo_gets i1 o1 y1 s u"
      using net_round [OF b Suc.prems(4-9) flag r(1) sane can one, of w, unfolded pc] by blast
    have rep: "reply i y0 = Some y0" "reply i y1 = Some y1" for i using fl by (simp_all add: reply_def)
    have kids: "ready u (child b 0) y0 o0 i0" "ready u (child b 1) y1 o1 i1"
      using u(8,9) answered_ready [OF rep(1)] answered_ready [OF rep(2)] by blast+
    have ub: "procs u (Battle b) = Some (RunB bt1)" using u(2) by (simp add: alike_def)
    have can': "can_pass_on lost i0 (qs ! 0) u" "can_pass_on lost i1 (qs ! 1) u"
      using can_pass_on_same [OF _ reaches_running [OF u(1)]] Suc.prems(10,11) by blast+
    have len: "length (ptr bt1) = 2" by (simp add: u(6))
    obtain v bt2 where v: "reaches w lost u v" "alike (set (sub (Battle b)) - {Battle b}) UNIV (goes_on (Battle b) (RunB bt2) u) v"
      "battle_id bt2 = b" "bpc bt2 = B_wait" "waited bt2 = waited bt1" "ptr bt2 = qs" "first_attack bt2 = f" "b_out bt2 = b_out bt1"
      "answered (child b 0) o0 i0 (qs ! 0) v" "answered (child b 1) o1 i1 (qs ! 1) v"
      "if passes_on i0 (qs ! 0) then fifo_gets i0 o0 (qs ! 0) u v else fifo_gets i1 o1 (qs ! 1) u v"
      using Suc.IH [OF r(2,3) rest ub u(3,4) len kids can' Suc.prems(12)] by blast
    have same: "chans u (Fifo k) = chans s (Fifo k)" for k using u(10) no by (simp add: fifo_gets_def)
    have "if passes_on i0 (qs ! 0) then fifo_gets i0 o0 (qs ! 0) s v else fifo_gets i1 o1 (qs ! 1) s v"
      using v(11) fifo_gets_cong [of s u v v] same by (auto split: if_splits)
    then show ?thesis
      using reaches_trans [OF u(1) v(1)] alike_again [OF u(2) v(2)] v(3-10) u(5,7)
      by (intro exI [of _ v] exI [of _ bt2]) simp
  qed
qed simp


section \<open>From two contestants to one\<close>

text \<open>Who stands at the end of a subtree: the message, the health at the start, the process.\<close>

record contestant =
  c_status :: Status
  c_orig :: cint
  c_player :: nat

definition sound :: "contestant \<Rightarrow> bool" where
  "sound c \<longleftrightarrow> fit (c_status c) \<and> sint (HP (c_status c)) \<le> sint (c_orig c) \<and> sint (c_orig c) < 2 ^ 30"

definition present :: "net \<Rightarrow> proc \<Rightarrow> contestant \<Rightarrow> bool" where
  "present s r c \<longleftrightarrow> ready s r (c_status c) (c_orig c) (c_player c)"

definition outcome :: "char \<Rightarrow> contestant \<Rightarrow> contestant \<Rightarrow> nat \<times> Status list" where
  "outcome b x y = the (fight (nat (sint (HP (c_status x)))) b [c_status x, c_status y])"

definition advance :: "char \<Rightarrow> contestant \<Rightarrow> contestant \<Rightarrow> contestant" where
  "advance b x y =
     (case outcome b x y of (f, qs) \<Rightarrow> let c = [x, y] ! f in c\<lparr>c_status := recover (c_orig c) (qs ! f)\<rparr>)"

definition loser :: "char \<Rightarrow> contestant \<Rightarrow> contestant \<Rightarrow> contestant" where
  "loser b x y = [x, y] ! (1 - fst (outcome b x y))"

definition demoted :: "char \<Rightarrow> contestant \<Rightarrow> contestant \<Rightarrow> Status" where
  "demoted b x y = (case outcome b x y of (f, qs) \<Rightarrow> restore (c_orig (loser b x y)) (qs ! (1 - f)))"

lemma outcome_facts:
  assumes "sound x" and "sound y"
  obtains f qs where "fight (nat (sint (HP (c_status x)))) b [c_status x, c_status y] = Some (f, qs)" and "outcome b x y = (f, qs)"
    and "f = winner b (c_status x) (c_status y)" and "f = 0 \<or> f = 1" and "length qs = 2"
    and "\<And>j. j = 0 \<or> j = 1 \<Longrightarrow> battle_ended_flag (qs ! j) = 1 \<and> keeps_player b (c_status ([x, y] ! j)) (qs ! j)"
    and "0 < sint (HP (qs ! f))" and "sint (HP (qs ! f)) \<le> sint (HP (c_status ([x, y] ! f)))" and "sint (HP (qs ! (1 - f))) \<le> 0"
proof -
  let ?x = "c_status x" and ?y = "c_status y" and ?n = "nat (sint (HP (c_status x)))"
  obtain x' y' where o: "fight ?n b [?x, ?y] = Some (winner b ?x ?y, [x', y'])" "battle_ended_flag x' = 1" "battle_ended_flag y' = 1"
    "keeps_player b ?x x'" "keeps_player b ?y y'" "0 < sint (HP ([x', y'] ! winner b ?x ?y))"
    "sint (HP ([x', y'] ! winner b ?x ?y)) \<le> sint (HP ([?x, ?y] ! winner b ?x ?y))" "sint (HP ([x', y'] ! (1 - winner b ?x ?y))) \<le> 0"
    using fight_outcome [of ?x ?y ?n b] assms by (auto simp: sound_def)
  have w: "winner b ?x ?y = 0 \<or> winner b ?x ?y = 1" by (simp add: winner_def Let_def)
  then have st: "[?x, ?y] ! winner b ?x ?y = c_status ([x, y] ! winner b ?x ?y)" by auto
  show thesis
    by (rule that [of "winner b ?x ?y" "[x', y']"]) (use o w st in \<open>auto simp: outcome_def\<close>)
qed

lemma recover_facts:
  assumes "0 < sint (HP p)" and "sint (HP p) \<le> sint orig" and "sint orig < 2 ^ 30"
  shows "sint (HP (recover orig p)) = (sint orig + sint (HP p)) div 2"
    and "sint (HP p) \<le> sint (HP (recover orig p))" and "sint (HP (recover orig p)) \<le> sint orig"
proof -
  define d where "d = sint orig - sint (HP p)"
  have sub: "sint (orig - HP p) = d"
    unfolding d_def by (rule sint_sub) (use assms in \<open>simp add: int_fits_def\<close>)
  have two: "sint (2 :: cint) = 2" by simp
  have d0: "0 \<le> d" "d < 2 ^ 30" using assms by (simp_all add: d_def)
  then have half: "0 \<le> d div 2" "d div 2 < 2 ^ 30" by linarith+
  have "d sdiv 2 = d div 2" using d0 by (auto simp: signed_divide_int_def sgn_if)
  then have c: "sint (c_div (orig - HP p) 2) = d div 2"
    unfolding c_div_def sub two using half by (subst sint_of_int) (simp_all add: int_fits_def)
  have "sint (c_div (orig - HP p) 2 + HP p) = d div 2 + sint (HP p)"
    unfolding c [symmetric] by (rule sint_add) (use c half assms in \<open>simp add: int_fits_def\<close>)
  then have r: "sint (HP (recover orig p)) = d div 2 + sint (HP p)" by (simp add: recover_def)
  show "sint (HP (recover orig p)) = (sint orig + sint (HP p)) div 2" unfolding r d_def by linarith
  show "sint (HP p) \<le> sint (HP (recover orig p))" unfolding r using half by simp
  show "sint (HP (recover orig p)) \<le> sint orig" unfolding r d_def using assms by linarith
qed

lemma sound_advance:
  assumes "sound x" and "sound y" shows "sound (advance b x y)"
proof -
  obtain f qs where o: "outcome b x y = (f, qs)" "f = 0 \<or> f = 1" "keeps_player b (c_status ([x, y] ! f)) (qs ! f)"
    "0 < sint (HP (qs ! f))" "sint (HP (qs ! f)) \<le> sint (HP (c_status ([x, y] ! f)))"
    using outcome_facts [OF assms, of b] by metis
  have c: "sound ([x, y] ! f)" using o(2) assms by auto
  then have le: "sint (HP (qs ! f)) \<le> sint (c_orig ([x, y] ! f))" "sint (c_orig ([x, y] ! f)) < 2 ^ 30"
    using o(5) by (simp_all add: sound_def)
  note r = recover_facts [OF o(4) le]
  have "fit (recover (c_orig ([x, y] ! f)) (qs ! f))"
    using r o(3,4) le c by (simp add: fit_def sound_def keeps_player_def) (simp add: recover_def)
  then show ?thesis using r le by (simp add: advance_def o(1) Let_def sound_def)
qed

lemma demoted_fit:
  assumes "sound x" and "sound y"
  shows "fit (demoted b x y)" and "HP (demoted b x y) = c_orig (loser b x y)" and "sint (HP (demoted b x y)) < 2 ^ 30"
proof -
  obtain f qs where o: "outcome b x y = (f, qs)" "f = 0 \<or> f = 1"
    and k: "\<And>j. j = 0 \<or> j = 1 \<Longrightarrow> keeps_player b (c_status ([x, y] ! j)) (qs ! j)"
    using outcome_facts [OF assms, of b] by metis
  have f': "1 - f = 0 \<or> 1 - f = (1 :: nat)" using o(2) by auto
  have l: "loser b x y = [x, y] ! (1 - f)" by (simp add: loser_def o(1))
  have s: "sound ([x, y] ! (1 - f))" using f' assms by auto
  show "HP (demoted b x y) = c_orig (loser b x y)" by (simp add: demoted_def o(1) restore_def)
  then show "sint (HP (demoted b x y)) < 2 ^ 30" using s by (simp add: l sound_def)
  show "fit (demoted b x y)"
    using s k [OF f'] by (simp add: demoted_def o(1) l restore_def fit_def sound_def keeps_player_def)
qed


section \<open>A whole battle\<close>

text \<open>A battle that waits for its first messages.\<close>

definition idle :: "net \<Rightarrow> char \<Rightarrow> bool" where
  "idle s b \<longleftrightarrow> (\<exists>bt. procs s (Battle b) = Some (RunB bt) \<and> battle_id bt = b \<and> bpc bt = B_read 0 \<and> length (ptr bt) = 2
     \<and> waited bt = 0 \<and> b_out bt = []) \<and> chans s (To_parent (Battle b)) = [] \<and> chans s (To_child (Battle b)) = []"

text \<open>What the fifos get when \<open>b\<close> is over.\<close>

definition fifo_news :: "char \<Rightarrow> contestant \<Rightarrow> contestant \<Rightarrow> net \<Rightarrow> net \<Rightarrow> bool" where
  "fifo_news b x y s t \<longleftrightarrow> (\<forall>k. chans t (Fifo k) = chans s (Fifo k) @
     (if b \<noteq> CHR ''A'' \<and> c_player (loser b x y) \<le> 7 \<and> fifo_target b = Some k then [demoted b x y] else []))"

definition may_demote :: "(int \<Rightarrow> proc) \<Rightarrow> char \<Rightarrow> contestant \<Rightarrow> contestant \<Rightarrow> net \<Rightarrow> bool" where
  "may_demote lost b x y s \<longleftrightarrow>
     (b \<noteq> CHR ''A'' \<and> c_player (loser b x y) \<le> 7 \<longrightarrow>
        (\<exists>k. fifo_target b = Some k \<and> can_put s (Fifo k) \<and> lost k = Player (c_player (loser b x y))))"

text \<open>The playing mode: the winner's subtree has answered, the loser's is gone.\<close>

lemma battle_fights:
  assumes b: "b \<in> set battles" and id: "idle s b" and x: "present s (child b 0) x" and y: "present s (child b 1) y"
    and sx: "sound x" and sy: "sound y" and may: "may_demote lost b x y s" and o: "outcome b x y = (f, qs)"
  shows "\<exists>u bt. reaches w lost s u \<and> alike (set (sub (Battle b)) - {Battle b}) UNIV (goes_on (Battle b) (RunB bt) s) u
    \<and> battle_id bt = b \<and> bpc bt = B_wait \<and> waited bt = 0 \<and> ptr bt = qs \<and> first_attack bt = f \<and> b_out bt = []
    \<and> answered (child b f) (c_orig ([x, y] ! f)) (c_player ([x, y] ! f)) (qs ! f) u \<and> gone u (child b (1 - f))
    \<and> fifo_news b x y s u"
proof -
  obtain f0 qs0 where F: "fight (nat (sint (HP (c_status x)))) b [c_status x, c_status y] = Some (f0, qs0)" "outcome b x y = (f0, qs0)"
    "f0 = winner b (c_status x) (c_status y)" "f0 = 0 \<or> f0 = 1" "length qs0 = 2"
    "\<And>j. j = 0 \<or> j = 1 \<Longrightarrow> battle_ended_flag (qs0 ! j) = 1 \<and> keeps_player b (c_status ([x, y] ! j)) (qs0 ! j)"
    "0 < sint (HP (qs0 ! f0))" "sint (HP (qs0 ! f0)) \<le> sint (HP (c_status ([x, y] ! f0)))" "sint (HP (qs0 ! (1 - f0))) \<le> 0"
    by (rule outcome_facts [OF sx sy, of b], rule that)
  have eq: "f0 = f" "qs0 = qs" using F(2) o by simp_all
  note F = F [unfolded eq]
  note fight = F(1) and f = F(4) and each = F(6) and win = F(7) and lose = F(9)
  have f': "1 - f = 0 \<or> 1 - f = (1 :: nat)" using f by auto
  have l: "loser b x y = [x, y] ! (1 - f)" by (simp add: loser_def o)
  have cur: "current_battle_id (qs ! j) = b" "battle_ended_flag (qs ! j) = 1" if "j = 0 \<or> j = 1" for j
    using each [OF that] by (simp_all add: keeps_player_def)
  have pw: "\<not> passes_on i (qs ! f)" for i using win by (simp add: passes_on_def c_le_def)
  have pl: "passes_on i (qs ! (1 - f)) \<longleftrightarrow> b \<noteq> CHR ''A'' \<and> i \<le> 7" for i
    using lose cur [OF f'] by (simp add: passes_on_def c_le_def)
  have canw: "can_pass_on lost i (qs ! f) s" for i using pw by (simp add: can_pass_on_def)
  have canl: "can_pass_on lost (c_player ([x, y] ! (1 - f))) (qs ! (1 - f)) s"
    using may unfolding can_pass_on_def may_demote_def pl l cur(1) [OF f'] .
  have can: "can_pass_on lost (c_player x) (qs ! 0) s" "can_pass_on lost (c_player y) (qs ! 1) s"
    using canw canl f by auto
  have one: "\<not> (passes_on (c_player x) (qs ! 0) \<and> passes_on (c_player y) (qs ! 1))" using pw f by auto
  obtain bt where bt: "procs s (Battle b) = Some (RunB bt)" "battle_id bt = b" "bpc bt = B_read 0" "length (ptr bt) = 2"
    "waited bt = 0" "b_out bt = []"
    using id by (auto simp: idle_def)
  have fx: "fit (c_status x)" "fit (c_status y)" using sx sy by (simp_all add: sound_def)
  obtain u bt' where u: "reaches w lost s u" "alike (set (sub (Battle b)) - {Battle b}) UNIV (goes_on (Battle b) (RunB bt') s) u"
    "battle_id bt' = b" "bpc bt' = B_wait" "waited bt' = waited bt" "ptr bt' = qs" "first_attack bt' = f" "b_out bt' = b_out bt"
    "answered (child b 0) (c_orig x) (c_player x) (qs ! 0) u" "answered (child b 1) (c_orig y) (c_player y) (qs ! 1) u"
    "if passes_on (c_player x) (qs ! 0) then fifo_gets (c_player x) (c_orig x) (qs ! 0) s u
     else fifo_gets (c_player y) (c_orig y) (qs ! 1) s u"
    using net_fight [OF b fx fight bt(1-4) x [unfolded present_def] y [unfolded present_def] can one, of w] by blast
  have aw: "answered (child b f) (c_orig ([x, y] ! f)) (c_player ([x, y] ! f)) (qs ! f) u"
    and al: "answered (child b (1 - f)) (c_orig ([x, y] ! (1 - f))) (c_player ([x, y] ! (1 - f))) (qs ! (1 - f)) u"
    using u(9,10) f by auto
  have "reply orig (qs ! (1 - f)) = None" for orig using lose cur [OF f'] by (simp add: reply_def c_le_def)
  then have gone: "gone u (child b (1 - f))" using al by (simp add: answered_def)
  have "fifo_gets (c_player ([x, y] ! (1 - f))) (c_orig ([x, y] ! (1 - f))) (qs ! (1 - f)) s u"
  proof (cases "passes_on (c_player x) (qs ! 0)")
    case True
    then have "f = 1" using pw f by auto
    then show ?thesis using u(11) True by simp
  next
    case False
    then show ?thesis
    proof (cases "f = 1")
      case True
      then show ?thesis using u(11) False pw by (simp add: fifo_gets_def)
    qed (use u(11) False f in simp)
  qed
  then have "fifo_news b x y s u"
    unfolding fifo_gets_def fifo_news_def pl l demoted_def o prod.case cur(1) [OF f'] by (auto split: if_splits)
  then show ?thesis using u(1-8) bt(5,6) aw gone by auto
qed

text \<open>The wait after the fight.\<close>

lemma battle_wait:
  assumes "procs s (Battle b) = Some (RunB bt)" and "battle_id bt = b" and "bpc bt = B_wait" and "waited bt = 0"
    and "first_attack bt = f" and "f = 0 \<or> f = 1" and "ended s (child b (1 - f))"
  shows "\<exists>bt'. reaches w lost s (goes_on (Battle b) (RunB bt') s) \<and> battle_id bt' = b
    \<and> bpc bt' = (if b = CHR ''A'' then B_last_wait else B_pass_read) \<and> waited bt' = 1 \<and> ptr bt' = ptr bt \<and> first_attack bt' = f
    \<and> b_out bt' = b_out bt"
proof -
  define bt' where "bt' = bt\<lparr>waited := waited bt + 1, bpc := (if battle_id bt = CHR ''A'' then B_last_wait else B_pass_read)\<rparr>"
  have d: "program_do w (RunB bt) = Wait (RunB bt')"
    using assms(2,3) by (simp add: program_do_def battle_do_def Let_def bt'_def)
  have "can_wait s (RunB bt)" using assms(2,4,6,7) by (auto simp: can_wait_def)
  then show ?thesis using reach_Wait [OF assms(1) d, of lost] assms(2,4,5) by (intro exI [of _ bt']) (simp add: bt'_def)
qed


lemma root_parts:
  assumes "b \<in> set battles" and "alike (set (sub (Battle b)) - {Battle b}) UNIV (goes_on (Battle b) g s) u"
  shows "procs u (Battle b) = Some g" and "chans u (To_parent (Battle b)) = chans s (To_parent (Battle b))"
    and "chans u (To_child (Battle b)) = chans s (To_child (Battle b))" and "alike (set (sub (Battle b))) UNIV s u"
  using assms sub_self [OF assms(1)] by (auto simp: alike_def)

text \<open>A battle below A: afterwards it stands with the winner, who has recovered, and its message is sent up.\<close>

lemma battle_plays:
  assumes b: "b \<in> set battles" "b \<noteq> CHR ''A''" and id: "idle s b"
    and x: "present s (child b 0) x" and y: "present s (child b 1) y"
    and sx: "sound x" and sy: "sound y" and may: "may_demote lost b x y s"
  shows "\<exists>t. reaches w lost s t \<and> alike (set (sub (Battle b))) UNIV s t \<and> present t (Battle b) (advance b x y) \<and> fifo_news b x y s t"
proof -
  let ?b = "Battle b"
  obtain f qs where o: "outcome b x y = (f, qs)" by fastforce
  have f: "f = 0 \<or> f = 1" and len: "length qs = 2" and win: "0 < sint (HP (qs ! f))"
    and cur: "current_battle_id (qs ! f) = b" and flag: "battle_ended_flag (qs ! f) = 1"
    using outcome_facts [OF sx sy, of b] o unfolding keeps_player_def by (metis prod.inject)+
  let ?c = "child b f" and ?d = "child b (1 - f)"
  define orig where "orig = c_orig ([x, y] ! f)"
  define i where "i = c_player ([x, y] ! f)"
  define z where "z = recover orig (qs ! f)"
  have adv: "advance b x y = ([x, y] ! f)\<lparr>c_status := z\<rparr>" by (simp add: advance_def o Let_def z_def orig_def)
  have f': "1 - f = 0 \<or> 1 - f = (1 :: nat)" using f by auto
  have below: "set (sub ?c) \<subseteq> set (sub ?b) - {?b}" "set (sub ?d) \<subseteq> set (sub ?b) - {?b}"
    using child_sub_below [OF b(1) f] child_sub_below [OF b(1) f'] .
  have self: "?c \<in> set (sub ?c)" "?d \<in> set (sub ?d)" using self_sub [OF b(1) f] self_sub [OF b(1) f'] .
  have ne: "?c \<noteq> ?b" "?c \<in> set (sub ?b)" using subsetD [OF below(1) self(1)] by simp_all
  obtain u bt where u: "reaches w lost s u" "alike (set (sub ?b) - {?b}) UNIV (goes_on ?b (RunB bt) s) u"
    "battle_id bt = b" "bpc bt = B_wait" "waited bt = 0" "ptr bt = qs" "first_attack bt = f" "b_out bt = []"
    "answered ?c (c_orig ([x, y] ! f)) (c_player ([x, y] ! f)) (qs ! f) u" "gone u ?d" "fifo_news b x y s u"
    using battle_fights [OF b(1) id x y sx sy may o, of w] by blast
  note ub = root_parts [OF b(1) u(2)]
  have links: "chans s (To_parent ?b) = []" "chans s (To_child ?b) = []" using id by (simp_all add: idle_def)
  have "reply orig (qs ! f) = Some z" using win cur flag b(2) by (simp add: reply_def c_le_def z_def)
  then have rc: "ready u ?c z orig i" using u(9) answered_ready by (simp add: orig_def i_def)
  have end_d: "ended u ?d" using u(10) self(2) by (simp add: gone_def)
  obtain b1 where b1: "reaches w lost u (goes_on ?b (RunB b1) u)" "battle_id b1 = b" "bpc b1 = B_pass_read" "waited b1 = 1"
    "ptr b1 = ptr bt" "first_attack b1 = f"
    using battle_wait [OF ub(1) u(3-5,7) f end_d, of w lost] b(2) by auto
  define u1 where "u1 = goes_on ?b (RunB b1) u"
  have c1: "procs u1 ?b = Some (RunB b1)" "chans u1 (To_parent ?c) = [z]" using rc by (simp_all add: u1_def ready_def)
  obtain b2 where b2: "reaches w lost u1 (goes_on ?b (RunB b2) (u1\<lparr>chans := (chans u1)(To_parent ?c := [])\<rparr>))"
    "battle_id b2 = b" "bpc b2 = B_pass_up" "first_attack b2 = f" "waited b2 = waited b1" "ptr b2 = (ptr b1)[f := z]"
    using battle_pass_read [OF c1(1) b1(2,3,6) b(1) f c1(2), of w lost] by blast
  define u2 where "u2 = goes_on ?b (RunB b2) (u1\<lparr>chans := (chans u1)(To_parent ?c := [])\<rparr>)"
  have c2: "procs u2 ?b = Some (RunB b2)" by (simp add: u2_def)
  have at: "ptr b2 ! f = z" "length (ptr b2) = 2" using len f by (auto simp: b2(6) b1(5) u(6))
  obtain b3 where b3: "reaches w lost u2 (goes_on ?b (RunB b3) (u2\<lparr>chans := (chans u2)(To_parent ?b := chans u2 (To_parent ?b) @ [z])\<rparr>))"
    "battle_id b3 = b" "bpc b3 = B_pass_down" "first_attack b3 = f" "waited b3 = waited b2" "ptr b3 = ptr b2"
    using battle_pass_up [OF c2 b2(2-4), of w lost, unfolded at(1)] by blast
  define t where "t = goes_on ?b (RunB b3) (u2\<lparr>chans := (chans u2)(To_parent ?b := chans u2 (To_parent ?b) @ [z])\<rparr>)"
  have rt: "reaches w lost s t"
    using reaches_trans [OF u(1) reaches_trans [OF b1(1) [folded u1_def] reaches_trans [OF b2(1) [folded u2_def] b3(1) [folded t_def]]]] .
  have tp: "procs t p = (if p = ?b then Some (RunB b3) else procs u p)" for p by (simp add: t_def u2_def u1_def)
  have tc: "chans t (To_parent ?b) = [z]" "chans t (To_parent ?c) = []" "chans t (To_child p) = chans u (To_child p)"
    "p \<noteq> ?b \<Longrightarrow> p \<noteq> ?c \<Longrightarrow> chans t (To_parent p) = chans u (To_parent p)" "chans t (Fifo k) = chans u (Fifo k)" for p k
    using ne(1) ne(1) [symmetric] ub(2) links by (simp_all add: t_def u2_def u1_def)
  have al: "alike {?b, ?c} UNIV u t" using tp tc by (simp add: alike_def)
  have apart: "set (sub ?d) \<inter> {?b, ?c} = {}"
    using below(2) children_apart [OF b(1) f] self(1) by blast
  have gd: "gone t ?d" by (rule gone_alike [OF u(10) al apart])
  have "standing t ?c orig i"
  proof (rule standing_same)
    show "standing u ?c orig i" using rc by (simp add: ready_def)
    show "\<forall>p\<in>set (sub ?c). procs t p = procs u p" using tp below(1) by auto
    show "\<forall>p\<in>set (sub ?c) - {?c}. chans t (To_parent p) = chans u (To_parent p) \<and> chans t (To_child p) = chans u (To_child p)"
      using tc(3,4) below(1) by blast
  qed
  moreover have "chans t (To_child ?c) = []" using rc tc(3) by (simp add: ready_def)
  moreover have "waited b3 = 1" "length (ptr b3) = 2" using b3(5,6) b2(5) b1(4) at(2) by simp_all
  ultimately have "standing t ?b orig i"
    using standing.Standing_battle [of t b b3 f orig i] tp b3(2-4) b f gd tc(2) by simp
  then have "present t ?b (advance b x y)"
    using tc(1,3) ub(3) links by (simp add: present_def ready_def adv orig_def i_def)
  moreover have "alike (set (sub ?b)) UNIV s t"
    by (rule alike_within [OF ub(4) al]) (use ne(2) sub_self [OF b(1)] in auto)
  moreover have "fifo_news b x y s t" using u(11) tc(5) by (simp add: fifo_news_def)
  ultimately show ?thesis using rt by blast
qed

text \<open>The root: everything ends, and the champion is printed.\<close>

lemma root_plays:
  assumes id: "idle s CHR ''A''" and x: "present s (Battle CHR ''B'') x" and y: "present s (Battle CHR ''C'') y"
    and sx: "sound x" and sy: "sound y"
  shows "\<exists>t bt. reaches w lost s t \<and> alike (set (sub (Battle CHR ''A''))) UNIV s t \<and> gone t (Battle CHR ''A'')
    \<and> procs t (Battle CHR ''A'') = Some (RunB bt)
    \<and> b_out bt = champion_line (real_player_id (c_status ([x, y] ! fst (outcome CHR ''A'' x y))))
    \<and> (\<forall>k. chans t (Fifo k) = chans s (Fifo k))"
proof -
  let ?A = "CHR ''A''"
  let ?b = "Battle ?A"
  have b: "?A \<in> set battles" by (simp add: battles_def)
  obtain f qs where o: "outcome ?A x y = (f, qs)" by fastforce
  have f: "f = 0 \<or> f = 1" and k: "keeps_player ?A (c_status ([x, y] ! f)) (qs ! f)" and flag: "battle_ended_flag (qs ! f) = 1"
    using outcome_facts [OF sx sy, of ?A] o by (metis prod.inject)+
  let ?c = "child ?A f" and ?d = "child ?A (1 - f)"
  have f': "1 - f = 0 \<or> 1 - f = (1 :: nat)" using f by auto
  have self: "?c \<in> set (sub ?c)" "?d \<in> set (sub ?d)" using self_sub [OF b f] self_sub [OF b f'] .
  have may: "may_demote lost ?A x y s" by (simp add: may_demote_def)
  have xy: "present s (child ?A 0) x" "present s (child ?A 1) y" using x y by simp_all
  obtain u bt where u: "reaches w lost s u" "alike (set (sub ?b) - {?b}) UNIV (goes_on ?b (RunB bt) s) u"
    "battle_id bt = ?A" "bpc bt = B_wait" "waited bt = 0" "ptr bt = qs" "first_attack bt = f" "b_out bt = []"
    "answered ?c (c_orig ([x, y] ! f)) (c_player ([x, y] ! f)) (qs ! f) u" "gone u ?d" "fifo_news ?A x y s u"
    using battle_fights [OF b id xy sx sy may o, of w] by blast
  note ub = root_parts [OF b u(2)]
  have links: "chans s (To_parent ?b) = []" "chans s (To_child ?b) = []" using id by (simp_all add: idle_def)
  have "reply orig (qs ! f) = None" for orig using k flag by (simp add: reply_def keeps_player_def)
  then have gc: "gone u ?c" using u(9) by (simp add: answered_def)
  have end_d: "ended u ?d" using u(10) self(2) by (simp add: gone_def)
  obtain b1 where b1: "reaches w lost u (goes_on ?b (RunB b1) u)" "battle_id b1 = ?A" "bpc b1 = B_last_wait" "waited b1 = 1"
    "ptr b1 = ptr bt" "first_attack b1 = f" "b_out b1 = b_out bt"
    using battle_wait [OF ub(1) u(3-5,7) f end_d, of w lost] by auto
  define u1 where "u1 = goes_on ?b (RunB b1) u"
  have c1: "procs u1 ?b = Some (RunB b1)" by (simp add: u1_def)
  have nb: "?b \<notin> set (sub ?c)" "?b \<notin> set (sub ?d)"
    using child_sub_below [OF b f] child_sub_below [OF b f'] by blast+
  have gone1: "gone (goes_on ?b g s') ?c" "gone (goes_on ?b g s') ?d" if "gone s' ?c" "gone s' ?d" for g s'
    using that nb by (auto simp: gone_def ended_def)
  have g1: "gone u1 ?c" "gone u1 ?d" unfolding u1_def by (rule gone1 [OF gc u(10)])+
  have "ended u1 (child ?A 0)" "ended u1 (child ?A 1)" using g1 self f by (auto simp: gone_def)
  then obtain b2 where b2: "reaches w lost u1 (goes_on ?b (RunB b2) u1)" "bpc b2 = B_exit"
    "b_out b2 = champion_line (real_player_id (qs ! f))"
    using battle_last_wait [OF c1 b1(2-4), of w lost] b1(5-7) u(6,8) by auto
  define t where "t = goes_on ?b (RunB b2) u1"
  have gt: "gone t ?c" "gone t ?d" unfolding t_def by (rule gone1 [OF g1])+
  have "gone t ?b"
    unfolding gone_def
  proof
    fix p
    assume "p \<in> set (sub ?b)"
    then have "p = ?b \<or> p \<in> set (sub ?c) \<or> p \<in> set (sub ?d)" using f by (auto simp: sub_Battle [OF b])
    moreover have "ended t ?b \<and> chans t (To_parent ?b) = [] \<and> chans t (To_child ?b) = []"
      using b2(2) ub(2,3) links by (simp add: t_def u1_def ended_def over_def)
    ultimately show "ended t p \<and> chans t (To_parent p) = [] \<and> chans t (To_child p) = []"
      using gt by (auto simp: gone_def)
  qed
  moreover have "reaches w lost s t"
    using reaches_trans [OF u(1) reaches_trans [OF b1(1) [folded u1_def] b2(1) [folded t_def]]] .
  moreover have "alike (set (sub ?b)) UNIV s t"
    by (rule alike_within [OF ub(4), of "{?b}"]) (use sub_self [OF b] in \<open>auto simp: t_def u1_def alike_def\<close>)
  moreover have "chans t (Fifo k) = chans s (Fifo k)" for k using u(11) by (simp add: t_def u1_def fifo_news_def)
  moreover have "procs t ?b = Some (RunB b2)" by (simp add: t_def)
  moreover have "b_out b2 = champion_line (real_player_id (c_status ([x, y] ! fst (outcome ?A x y))))"
    using b2(3) k by (simp add: o keeps_player_def)
  ultimately show ?thesis by blast
qed

end
