(* ===== verification/Pvp_Tournament.thy ===== *)
theory Pvp_Tournament
  imports Pvp_Runs
begin

text \<open>
  The whole tournament: the processes start, the real players send their first
  messages, and the battles are played one after the other in an order their
  results allow. \<open>tournament\<close> is what the championship computes, the double
  elimination as a function of the eight players.
\<close>

section \<open>The tournament as a function\<close>

definition agent :: "nat \<Rightarrow> Status \<Rightarrow> contestant" where
  "agent k p = \<lparr>c_status = p, c_orig = HP p, c_player = k\<rparr>"

text \<open>The agent that gets the loser of a battle, and the battle an agent's loser comes from.\<close>

definition agent_of :: "char \<Rightarrow> nat option" where
  "agent_of b = (case fifo_target b of None \<Rightarrow> None | Some k \<Rightarrow> if k < 0 then None else Some (nat k))"

definition source :: "nat \<Rightarrow> char option" where
  "source k = find (\<lambda>b. agent_of b = Some k) battles"

text \<open>An order in which the battles can be played, with the players that enter.\<close>

definition order :: "proc list" where
  "order = map Player [0, 1, 2, 3, 4, 5, 6, 7] @ map Battle ''GHIJDEB'' @ map Player [8, 9, 10, 11, 12, 13, 14] @ map Battle ''MNKLFCA''"

definition rank :: "proc \<Rightarrow> nat" where
  "rank r = length (takeWhile (\<lambda>q. q \<noteq> r) order)"

lemma rank_child:
  assumes "b \<in> set battles" and "f = 0 \<or> f = 1" shows "rank (child b f) < rank (Battle b)"
proof -
  have "list_all (\<lambda>b. rank (child b 0) < rank (Battle b) \<and> rank (child b 1) < rank (Battle b)) battles" by code_simp
  then show ?thesis using assms by (auto simp: list_all_iff)
qed

lemma source_battle: "source k = Some b \<Longrightarrow> b \<in> set battles \<and> agent_of b = Some k"
  by (auto simp: source_def find_Some_iff)

lemma agents_table: "b \<in> set battles \<Longrightarrow> agent_of b = Some k \<Longrightarrow>
    source k = Some b \<and> 7 < k \<and> fifo_target b = Some (int k) \<and> rank (Battle b) < rank (Player k)"
proof -
  have "list_all (\<lambda>b. case agent_of b of None \<Rightarrow> True
      | Some k \<Rightarrow> source k = Some b \<and> 7 < k \<and> fifo_target b = Some (int k) \<and> rank (Battle b) < rank (Player k)) battles"
    by code_simp
  then show "b \<in> set battles \<Longrightarrow> agent_of b = Some k \<Longrightarrow>
      source k = Some b \<and> 7 < k \<and> fifo_target b = Some (int k) \<and> rank (Battle b) < rank (Player k)"
    by (auto simp: list_all_iff)
qed

text \<open>
  Who stands at the end of the subtree of a process when it is its turn: the
  winner of a battle, a player with its status, an agent with the status of the
  loser it plays for.
\<close>

function seat :: "(nat \<Rightarrow> Status) \<Rightarrow> proc \<Rightarrow> contestant" where
  "seat st (Battle b) = (if b \<in> set battles then advance b (seat st (child b 0)) (seat st (child b 1)) else agent 0 (st 0))"
| "seat st (Player k) =
     (case source k of
        None \<Rightarrow> agent k (st k)
      | Some b \<Rightarrow> agent k (demoted b (seat st (child b 0)) (seat st (child b 1))))"
  by pat_completeness auto

termination
proof (relation "measure (\<lambda>(st, r). rank r)")
  fix k b
  assume "source k = Some b"
  then have b: "b \<in> set battles" and "rank (Battle b) < rank (Player k)" using source_battle agents_table by blast+
  then show "((st, child b 0), (st, Player k)) \<in> measure (\<lambda>(st, r). rank r)"
    and "((st, child b 1), (st, Player k)) \<in> measure (\<lambda>(st, r). rank r)" for st
    using rank_child [OF b, of 0] rank_child [OF b, of 1] by simp_all
qed (use rank_child [where f = 0] rank_child [where f = 1] in simp_all)

declare seat.simps [simp del]

definition champion :: "(nat \<Rightarrow> Status) \<Rightarrow> cint" where
  "champion st =
     (let x = seat st (Battle CHR ''B''); y = seat st (Battle CHR ''C'')
      in real_player_id (c_status ([x, y] ! fst (outcome CHR ''A'' x y))))"

text \<open>The loser of a battle of real players is the only writer of the fifo of the battle's agent.\<close>

definition demoter :: "(nat \<Rightarrow> Status) \<Rightarrow> int \<Rightarrow> proc" where
  "demoter st k =
     (case source (nat k) of
        None \<Rightarrow> Player 0
      | Some b \<Rightarrow> Player (c_player (loser b (seat st (child b 0)) (seat st (child b 1)))))"

section \<open>Contestants\<close>

lemma sound_agent: "fit p \<Longrightarrow> sound (agent k p)"
  by (simp add: sound_def agent_def fit_def)

lemma sound_demoted: "sound x \<Longrightarrow> sound y \<Longrightarrow> sound (agent k (demoted b x y))"
  by (rule sound_agent) (rule demoted_fit(1))

lemma agent_player [simp]: "c_player (agent k p) = k"
  by (simp add: agent_def)

lemma outcome_index: "sound x \<Longrightarrow> sound y \<Longrightarrow> fst (outcome b x y) = 0 \<or> fst (outcome b x y) = 1"
  using outcome_facts [of x y b] by (metis fst_conv)

lemma advance_player:
  assumes "sound x" and "sound y" shows "c_player (advance b x y) = c_player x \<or> c_player (advance b x y) = c_player y"
  using outcome_index [OF assms, of b] by (auto simp: advance_def Let_def split: prod.splits)

lemma loser_player:
  assumes "sound x" and "sound y" shows "c_player (loser b x y) = c_player x \<or> c_player (loser b x y) = c_player y"
  using outcome_index [OF assms, of b] by (auto simp: loser_def)

section \<open>Players enter\<close>

text \<open>A player that is about to send its first message, or an agent that waits for a loser.\<close>

definition entering :: "net \<Rightarrow> nat \<Rightarrow> Status \<Rightarrow> bool" where
  "entering s i p \<longleftrightarrow> (\<exists>q. procs s (Player i) = Some (RunP q) \<and> player_id q = i \<and> ppc q = P_first \<and> status q = p)
     \<and> chans s (To_parent (Player i)) = [] \<and> chans s (To_child (Player i)) = []"

definition asleep :: "net \<Rightarrow> nat \<Rightarrow> bool" where
  "asleep s k \<longleftrightarrow> (\<exists>q. procs s (Player k) = Some (RunP q) \<and> player_id q = k \<and> ppc q = P_start)
     \<and> chans s (To_parent (Player k)) = [] \<and> chans s (To_child (Player k)) = []"

lemma player_enters:
  assumes "entering s i p"
  shows "\<exists>t. reaches w lost s t \<and> alike {Player i} {} s t \<and> present t (Player i) (agent i p)"
proof -
  obtain q where q: "procs s (Player i) = Some (RunP q)" "player_id q = i" "ppc q = P_first" "status q = p"
    and e: "chans s (To_parent (Player i)) = []" "chans s (To_child (Player i)) = []"
    using assms by (auto simp: entering_def)
  define q' where "q' = q\<lparr>p_log := p_log q @ [pipe_line ''to'' i (pids w (Player i)) (battle_pid q) p],
     original_HP := HP p, ppc := P_read\<rparr>"
  define t where "t = goes_on (Player i) (RunP q') (s\<lparr>chans := (chans s)(To_parent (Player i) := [p])\<rparr>)"
  have "reaches w lost s t"
    using reach_Put [OF q(1) player_do_simps(3) [OF q(3)], of lost] q e by (simp add: can_put_def t_def q'_def)
  moreover have "standing t (Player i) (HP p) i" by (rule Standing_player [of _ _ q']) (simp_all add: t_def q'_def q)
  moreover have "alike {Player i} {} s t" by (simp add: t_def alike_def)
  ultimately show ?thesis using e by (intro exI [of _ t]) (simp add: present_def ready_def agent_def t_def)
qed

lemma agent_enters:
  assumes "asleep s k" and "chans s (Fifo (int k)) = [p]"
  shows "\<exists>t. reaches w lost s t \<and> alike {Player k} {int k} s t \<and> present t (Player k) (agent k p) \<and> chans t (Fifo (int k)) = []"
proof -
  obtain q where q: "procs s (Player k) = Some (RunP q)" "player_id q = k" "ppc q = P_start"
    and e: "chans s (To_parent (Player k)) = []" "chans s (To_child (Player k)) = []"
    using assms by (auto simp: asleep_def)
  define q' where "q' = q\<lparr>status := p, p_log := p_log q @ [fifo_from_line k (pids w (Player k)) p], ppc := P_first\<rparr>"
  define s1 where "s1 = goes_on (Player k) (RunP q') (s\<lparr>chans := (chans s)(Fifo (int k) := [])\<rparr>)"
  have r: "reaches w lost s s1"
    using reach_Receive [OF q(1) player_do_simps(4) [OF q(3)], of p "[]" lost] assms(2) q by (simp add: s1_def q'_def)
  have "entering s1 k p" using e q by (simp add: entering_def s1_def q'_def)
  then obtain t where t: "reaches w lost s1 t" "alike {Player k} {} s1 t" "present t (Player k) (agent k p)"
    using player_enters by blast
  have "alike {Player k} {int k} s t" using t(2) by (simp add: alike_def s1_def)
  moreover have "chans t (Fifo (int k)) = []" using t(2) by (simp add: alike_def s1_def)
  ultimately show ?thesis using reaches_trans [OF r t(1)] t(3) by blast
qed

section \<open>What stays while others play\<close>

lemma present_alike:
  assumes "present s r c" and "alike Q K s t" and "set (sub r) \<inter> Q = {}" and "r \<in> set (sub r)"
  shows "present t r c"
proof -
  have same: "procs t p = procs s p \<and> chans t (To_parent p) = chans s (To_parent p) \<and> chans t (To_child p) = chans s (To_child p)"
    if "p \<in> set (sub r)" for p
    using assms(2,3) that by (auto simp: alike_def)
  have "standing t r (c_orig c) (c_player c)"
    by (rule standing_same) (use assms(1) same in \<open>auto simp: present_def ready_def\<close>)
  then show ?thesis using assms(1) same [OF assms(4)] by (simp add: present_def ready_def)
qed

lemma idle_alike: "idle s b \<Longrightarrow> alike Q K s t \<Longrightarrow> Battle b \<notin> Q \<Longrightarrow> idle t b"
  by (simp add: idle_def alike_def)

lemma asleep_alike: "asleep s k \<Longrightarrow> alike Q K s t \<Longrightarrow> Player k \<notin> Q \<Longrightarrow> asleep t k"
  by (simp add: asleep_def alike_def)

lemma entering_alike: "entering s i p \<Longrightarrow> alike Q K s t \<Longrightarrow> Player i \<notin> Q \<Longrightarrow> entering t i p"
  by (simp add: entering_def alike_def)

definition calm :: "net \<Rightarrow> bool" where
  "calm s \<longleftrightarrow> (\<forall>k. chans s (Fifo k) = [])"

section \<open>Battles of real players and of agents\<close>

lemma real_battle:
  assumes b: "b \<in> set battles" "b \<noteq> CHR ''A''" and id: "idle s b"
    and x: "present s (child b 0) x" and y: "present s (child b 1) y" and sound: "sound x" "sound y"
    and real: "c_player x \<le> 7" "c_player y \<le> 7" and k: "fifo_target b = Some (int k)" "Player k \<notin> set (sub (Battle b))" "asleep s k"
    and lost: "lost (int k) = Player (c_player (loser b x y))" and calm: "calm s"
  shows "\<exists>t. reaches w lost s t \<and> alike (insert (Player k) (set (sub (Battle b)))) UNIV s t
    \<and> present t (Battle b) (advance b x y) \<and> present t (Player k) (agent k (demoted b x y)) \<and> calm t"
proof -
  have lr: "c_player (loser b x y) \<le> 7" using loser_player [OF sound, of b] real by auto
  have "can_put s (Fifo (int k))" using k(3) by (auto simp: can_put_def asleep_def)
  then have may: "may_demote lost b x y s" using k(1) lost by (auto simp: may_demote_def)
  obtain u where u: "reaches w lost s u" "alike (set (sub (Battle b))) UNIV s u" "present u (Battle b) (advance b x y)"
    "fifo_news b x y s u"
    using battle_plays [OF b id x y sound may, of w] by blast
  have news: "chans u (Fifo (int k)) = [demoted b x y]" "j \<noteq> int k \<Longrightarrow> chans u (Fifo j) = []" for j
    using u(4) b(2) lr k(1) calm by (auto simp: fifo_news_def calm_def)
  have as: "asleep u k" by (rule asleep_alike [OF k(3) u(2) k(2)])
  obtain t where t: "reaches w lost u t" "alike {Player k} {int k} u t" "present t (Player k) (agent k (demoted b x y))"
    "chans t (Fifo (int k)) = []"
    using agent_enters [OF as news(1)] by blast
  have "present t (Battle b) (advance b x y)"
    by (rule present_alike [OF u(3) t(2)]) (use k(2) sub_self [OF b(1)] in auto)
  moreover have "calm t"
    unfolding calm_def
  proof
    fix j
    show "chans t (Fifo j) = []" using t(2,4) news(2) [of j] by (cases "j = int k") (simp_all add: alike_def)
  qed
  moreover have "alike (insert (Player k) (set (sub (Battle b)))) UNIV s t"
    using alike_trans [OF u(2) t(2)] by simp
  ultimately show ?thesis using reaches_trans [OF u(1) t(1)] t(3) by blast
qed

lemma agent_battle:
  assumes b: "b \<in> set battles" "b \<noteq> CHR ''A''" and id: "idle s b"
    and x: "present s (child b 0) x" and y: "present s (child b 1) y" and sound: "sound x" "sound y"
    and agents: "7 < c_player x" "7 < c_player y" and calm: "calm s"
  shows "\<exists>t. reaches w lost s t \<and> alike (set (sub (Battle b))) UNIV s t \<and> present t (Battle b) (advance b x y) \<and> calm t"
proof -
  have la: "\<not> c_player (loser b x y) \<le> 7" using loser_player [OF sound, of b] agents by auto
  then have may: "may_demote lost b x y s" by (simp add: may_demote_def)
  obtain u where u: "reaches w lost s u" "alike (set (sub (Battle b))) UNIV s u" "present u (Battle b) (advance b x y)"
    "fifo_news b x y s u"
    using battle_plays [OF b id x y sound may, of w] by blast
  have "calm u" using u(4) la calm by (auto simp: fifo_news_def calm_def)
  then show ?thesis using u by blast
qed


section \<open>Who can be where\<close>

text \<open>Battles and players that the tables name.\<close>

definition named :: "proc \<Rightarrow> bool" where
  "named r = (case r of Battle b \<Rightarrow> b \<in> set battles | Player k \<Rightarrow> k \<le> 14)"

lemma named_child: "b \<in> set battles \<Longrightarrow> f = 0 \<or> f = 1 \<Longrightarrow> named (child b f)"
proof -
  have "list_all (\<lambda>b. named (child b 0) \<and> named (child b 1)) battles" by code_simp
  then show "b \<in> set battles \<Longrightarrow> f = 0 \<or> f = 1 \<Longrightarrow> ?thesis" by (auto simp: list_all_iff)
qed

lemma source_real: "k \<le> 14 \<Longrightarrow> source k = None \<Longrightarrow> k \<le> 7"
proof -
  have "list_all (\<lambda>k. source k = None \<longrightarrow> k \<le> 7) [0..<15]" by code_simp
  then show "k \<le> 14 \<Longrightarrow> source k = None \<Longrightarrow> ?thesis" by (simp add: list_all_iff)
qed

lemma sound_seat: "(\<And>i. i \<le> 7 \<Longrightarrow> fit (st i)) \<Longrightarrow> named r \<Longrightarrow> sound (seat st r)"
proof (induction st r rule: seat.induct)
  case (1 st b)
  then have b: "b \<in> set battles" by (simp add: named_def)
  then show ?case using 1 named_child [OF b, of 0] named_child [OF b, of 1] by (simp add: seat.simps(1) sound_advance)
next
  case (2 st k)
  show ?case
  proof (cases "source k")
    case None
    then show ?thesis using 2(3,4) source_real by (simp add: seat.simps(2) named_def sound_agent)
  next
    case (Some b)
    then have b: "b \<in> set battles" using source_battle by blast
    then show ?thesis
      using 2(1,2) [OF Some 2(3)] named_child [OF b, of 0] named_child [OF b, of 1] Some by (simp add: seat.simps(2) sound_demoted)
  qed
qed

lemma seat_player: "(\<And>i. i \<le> 7 \<Longrightarrow> fit (st i)) \<Longrightarrow> named r \<Longrightarrow> Player (c_player (seat st r)) \<in> set (sub r)"
proof (induction st r rule: seat.induct)
  case (1 st b)
  then have b: "b \<in> set battles" by (simp add: named_def)
  note n = named_child [OF b, of 0] named_child [OF b, of 1]
  have "Player (c_player (seat st (child b 0))) \<in> set (sub (child b 0))" "Player (c_player (seat st (child b 1))) \<in> set (sub (child b 1))"
    using 1(1,2) [OF b 1(3)] n by auto
  moreover have "c_player (seat st (Battle b)) = c_player (seat st (child b 0)) \<or> c_player (seat st (Battle b)) = c_player (seat st (child b 1))"
    using advance_player [OF sound_seat sound_seat] 1(3) b n by (simp add: seat.simps(1))
  ultimately show ?case using b by (auto simp: sub_Battle)
next
  case (2 st k)
  show ?case by (simp add: seat.simps(2) split: option.split)
qed

section \<open>The battles in order\<close>

text \<open>
  After the battles \<open>played\<close> have been played, the others are idle, the processes
  \<open>in_play\<close> are present with who stands there, and the agents of battles to come sleep.
\<close>

definition entered :: "char list \<Rightarrow> proc \<Rightarrow> bool" where
  "entered played r =
     (case r of Battle b \<Rightarrow> b \<in> set played
      | Player k \<Rightarrow> (case source k of None \<Rightarrow> True | Some b \<Rightarrow> b \<in> set played))"

definition in_play :: "char list \<Rightarrow> proc \<Rightarrow> bool" where
  "in_play played r = (entered played r \<and> (case parent_of r of None \<Rightarrow> True | Some b \<Rightarrow> b \<notin> set played))"

definition all_procs :: "proc list" where "all_procs = sub (Battle CHR ''A'')"

definition stage :: "(nat \<Rightarrow> Status) \<Rightarrow> char list \<Rightarrow> net \<Rightarrow> bool" where
  "stage st played s \<longleftrightarrow>
     (\<forall>b\<in>set battles. b \<notin> set played \<longrightarrow> idle s b)
   \<and> (\<forall>r\<in>set all_procs. in_play played r \<longrightarrow> present s r (seat st r))
   \<and> (\<forall>k. Player k \<in> set all_procs \<longrightarrow> \<not> entered played (Player k) \<longrightarrow> asleep s k) \<and> calm s"

text \<open>The battle \<open>b\<close> can be next, and nothing else in play is touched.\<close>

definition touched :: "char \<Rightarrow> proc list" where
  "touched b = (case agent_of b of None \<Rightarrow> [] | Some k \<Rightarrow> [Player k]) @ sub (Battle b)"

definition is_real :: "proc \<Rightarrow> bool" where
  "is_real r = (case r of Battle _ \<Rightarrow> True | Player k \<Rightarrow> k \<le> 7)"

definition is_agent :: "proc \<Rightarrow> bool" where
  "is_agent r = (case r of Battle _ \<Rightarrow> True | Player k \<Rightarrow> 7 < k)"

definition apart :: "proc list \<Rightarrow> proc list \<Rightarrow> bool" where
  "apart xs ys = list_all (\<lambda>x. x \<notin> set ys) xs"

definition fed :: "char \<Rightarrow> proc \<Rightarrow> bool" where
  "fed b r = (case agent_of b of None \<Rightarrow> False | Some k \<Rightarrow> r = Player k)"

definition next_battle :: "char list \<Rightarrow> char \<Rightarrow> bool" where
  "next_battle played b =
     (let Q = touched b in
      b \<in> set battles \<and> b \<noteq> CHR ''A'' \<and> b \<notin> set played \<and> in_play played (child b 0) \<and> in_play played (child b 1)
    \<and> list_all (\<lambda>r. r \<in> set all_procs) Q
    \<and> (case agent_of b of None \<Rightarrow> list_all is_agent (sub (Battle b))
       | Some k \<Rightarrow> list_all is_real (sub (Battle b)) \<and> \<not> entered played (Player k) \<and> Player k \<notin> set (sub (Battle b)))
    \<and> list_all (\<lambda>c. c \<in> set (b # played) \<or> Battle c \<notin> set Q) battles
    \<and> list_all (\<lambda>r. in_play (b # played) r \<longrightarrow> r = Battle b \<or> fed b r
         \<or> in_play played r \<and> apart (sub r) Q) all_procs
    \<and> list_all (\<lambda>r. entered (b # played) r \<or> \<not> entered played r \<and> r \<notin> set Q) all_procs)"


text \<open>Thirteen battles in this order, then A; the condition is computed.\<close>

definition battle_order :: string where "battle_order = ''GHIJDEBMNKLFC''"

lemma sub_table:
  "sub (Battle CHR ''G'') = [Battle CHR ''G'', Player 0, Player 1]" "sub (Battle CHR ''H'') = [Battle CHR ''H'', Player 2, Player 3]"
  "sub (Battle CHR ''I'') = [Battle CHR ''I'', Player 4, Player 5]" "sub (Battle CHR ''J'') = [Battle CHR ''J'', Player 6, Player 7]"
  "sub (Battle CHR ''D'') = Battle CHR ''D'' # sub (Battle CHR ''G'') @ sub (Battle CHR ''H'')"
  "sub (Battle CHR ''E'') = Battle CHR ''E'' # sub (Battle CHR ''I'') @ sub (Battle CHR ''J'')"
  "sub (Battle CHR ''B'') = Battle CHR ''B'' # sub (Battle CHR ''D'') @ sub (Battle CHR ''E'')"
  "sub (Battle CHR ''M'') = [Battle CHR ''M'', Player 8, Player 9]" "sub (Battle CHR ''N'') = [Battle CHR ''N'', Player 11, Player 12]"
  "sub (Battle CHR ''K'') = Battle CHR ''K'' # sub (Battle CHR ''M'') @ [Player 10]"
  "sub (Battle CHR ''L'') = Battle CHR ''L'' # sub (Battle CHR ''N'') @ [Player 13]"
  "sub (Battle CHR ''F'') = Battle CHR ''F'' # sub (Battle CHR ''K'') @ sub (Battle CHR ''L'')"
  "sub (Battle CHR ''C'') = Battle CHR ''C'' # sub (Battle CHR ''F'') @ [Player 14]"
  "sub (Battle CHR ''A'') = Battle CHR ''A'' # sub (Battle CHR ''B'') @ sub (Battle CHR ''C'')"
  by (simp_all add: sub_Battle battles_def)

lemma parent_table:
  "list_all (\<lambda>b. parent_of (child b 0) = Some b \<and> parent_of (child b 1) = Some b) battles" "parent_of (Battle CHR ''A'') = None"
  by code_simp+

lemmas parents = parent_table [unfolded battles_list, simplified]

lemma agent_table: "map agent_of battles
    = [None, Some 14, None, Some 10, Some 13, None, Some 8, Some 11, Some 9, Some 12, None, None, None, None]"
  by code_simp

lemmas agents = agent_table [unfolded battles_list, simplified]

lemma source_table:
  "source 0 = None" "source (Suc 0) = None" "source 2 = None" "source 3 = None" "source 4 = None" "source 5 = None" "source 6 = None" "source 7 = None"
  "source 8 = Some CHR ''G''" "source 9 = Some CHR ''I''" "source 10 = Some CHR ''D''" "source 11 = Some CHR ''H''" "source 12 = Some CHR ''J''" "source 13 = Some CHR ''E''" "source 14 = Some CHR ''B''"
  by code_simp+

lemmas legality = next_battle_def Let_def touched_def agents sub_table in_play_def entered_def parents source_table is_real_def
  is_agent_def fed_def apart_def all_procs_def battles_list

lemma battle_order_legal: "n < length battle_order \<Longrightarrow> next_battle (take n battle_order) (battle_order ! n)"
proof -
  have "next_battle [] CHR ''G''" "next_battle ''G'' CHR ''H''" "next_battle ''GH'' CHR ''I''" "next_battle ''GHI'' CHR ''J''"
    "next_battle ''GHIJ'' CHR ''D''" "next_battle ''GHIJD'' CHR ''E''" "next_battle ''GHIJDE'' CHR ''B''"
    "next_battle ''GHIJDEB'' CHR ''M''" "next_battle ''GHIJDEBM'' CHR ''N''" "next_battle ''GHIJDEBMN'' CHR ''K''"
    "next_battle ''GHIJDEBMNK'' CHR ''L''" "next_battle ''GHIJDEBMNKL'' CHR ''F''" "next_battle ''GHIJDEBMNKLF'' CHR ''C''"
    by (simp_all add: legality)
  then have "list_all (\<lambda>n. next_battle (take n battle_order) (battle_order ! n)) [0, 1, 2, 3, 4, 5, 6, 7, 8, 9, 10, 11, 12]"
    by (simp add: battle_order_def)
  moreover have "[0..<length battle_order] = [0, 1, 2, 3, 4, 5, 6, 7, 8, 9, 10, 11, 12]" by code_simp
  ultimately have "list_all (\<lambda>n. next_battle (take n battle_order) (battle_order ! n)) [0..<length battle_order]" by simp
  then show "n < length battle_order \<Longrightarrow> ?thesis" by (simp add: list_all_iff)
qed

lemma all_self: "r \<in> set all_procs \<Longrightarrow> r \<in> set (sub r)"
proof -
  have "list_all (\<lambda>r. r \<in> set (sub r)) all_procs" by code_simp
  then show "r \<in> set all_procs \<Longrightarrow> r \<in> set (sub r)" by (simp add: list_all_iff)
qed

lemma next_battleD:
  assumes "next_battle played b"
  shows "b \<in> set battles" and "b \<noteq> CHR ''A''" and "b \<notin> set played"
    and "in_play played (child b 0)" and "in_play played (child b 1)" and "set (touched b) \<subseteq> set all_procs"
    and "agent_of b = Some k \<Longrightarrow> list_all is_real (sub (Battle b)) \<and> \<not> entered played (Player k) \<and> Player k \<notin> set (sub (Battle b))"
    and "agent_of b = None \<Longrightarrow> list_all is_agent (sub (Battle b))"
    and "c \<in> set battles \<Longrightarrow> c \<notin> set (b # played) \<Longrightarrow> Battle c \<notin> set (touched b)"
    and "r \<in> set all_procs \<Longrightarrow> in_play (b # played) r \<Longrightarrow> r = Battle b \<or> fed b r \<or> in_play played r \<and> apart (sub r) (touched b)"
    and "r \<in> set all_procs \<Longrightarrow> \<not> entered (b # played) r \<Longrightarrow> \<not> entered played r \<and> r \<notin> set (touched b)"
  using assms unfolding next_battle_def Let_def list_all_iff by (auto split: option.splits)

text \<open>One more battle is played.\<close>

lemma stage_next:
  assumes st: "stage st played s" and nb: "next_battle played b" and fits: "\<And>i. i \<le> 7 \<Longrightarrow> fit (st i)"
  shows "\<exists>t. reaches w (demoter st) s t \<and> alike (set all_procs) UNIV s t \<and> stage st (b # played) t"
proof -
  note n = next_battleD [OF nb]
  let ?x = "seat st (child b 0)" and ?y = "seat st (child b 1)"
  have kid: "child b f \<in> set all_procs" if "f = 0 \<or> f = 1" for f
    using child_sub [OF n(1) that] self_sub [OF n(1) that] n(6) by (auto simp: touched_def)
  have x: "present s (child b 0) ?x" and y: "present s (child b 1) ?y"
    using st n(4,5) kid by (auto simp: stage_def)
  have id: "idle s b" and calm: "calm s" using st n(1,3) by (auto simp: stage_def)
  have sound: "sound ?x" "sound ?y" using sound_seat [OF fits] named_child [OF n(1)] by simp_all
  have win: "seat st (Battle b) = advance b ?x ?y" using n(1) by (simp add: seat.simps(1))
  have below: "Player (c_player (seat st (child b f))) \<in> set (sub (Battle b))" if "f = 0 \<or> f = 1" for f
    using seat_player [of st "child b f"] fits named_child [OF n(1) that] child_sub [OF n(1) that] by blast
  have "\<exists>t. reaches w (demoter st) s t \<and> alike (set (touched b)) UNIV s t \<and> present t (Battle b) (seat st (Battle b))
    \<and> (\<forall>k. agent_of b = Some k \<longrightarrow> present t (Player k) (seat st (Player k))) \<and> calm t"
  proof (cases "agent_of b")
    case None
    then have "7 < c_player ?x" "7 < c_player ?y" using n(8) below [of 0] below [of 1] by (auto simp: list_all_iff is_agent_def)
    then show ?thesis
      using agent_battle [OF n(1,2) id x y sound _ _ calm, of w "demoter st"] None by (auto simp: touched_def win)
  next
    case (Some k)
    note k = agents_table [OF n(1) Some] and kn = n(7) [OF Some]
    have real: "c_player ?x \<le> 7" "c_player ?y \<le> 7" using kn below [of 0] below [of 1] by (auto simp: list_all_iff is_real_def)
    have as: "asleep s k" using st kn n(6) Some by (simp add: stage_def touched_def)
    have lost: "demoter st (int k) = Player (c_player (loser b ?x ?y))" using k by (simp add: demoter_def)
    have ag: "seat st (Player k) = agent k (demoted b ?x ?y)" using k by (simp add: seat.simps(2))
    have fifo: "fifo_target b = Some (int k)" and out: "Player k \<notin> set (sub (Battle b))" using k kn by simp_all
    show ?thesis
      using real_battle [where lost = "demoter st" and k = k and w = w, OF n(1,2) id x y sound real fifo out as lost calm] Some
      by (simp add: touched_def win ag)
  qed
  then obtain t where t: "reaches w (demoter st) s t" "alike (set (touched b)) UNIV s t" "present t (Battle b) (seat st (Battle b))"
    "\<And>k. agent_of b = Some k \<Longrightarrow> present t (Player k) (seat st (Player k))" "calm t" by blast
  have "idle t c" if "c \<in> set battles" "c \<notin> set (b # played)" for c
    using idle_alike [OF _ t(2) n(9) [OF that]] st that by (simp add: stage_def)
  moreover have "present t r (seat st r)" if r: "r \<in> set all_procs" "in_play (b # played) r" for r
    using n(10) [OF r]
  proof (elim disjE conjE)
    assume "in_play played r" "apart (sub r) (touched b)"
    then show ?thesis
      using st r(1) present_alike [OF _ t(2)] all_self [OF r(1)] by (auto simp: stage_def apart_def list_all_iff disjoint_iff)
  qed (use t(3,4) in \<open>auto simp: fed_def split: option.splits\<close>)
  moreover have "asleep t k" if "Player k \<in> set all_procs" "\<not> entered (b # played) (Player k)" for k
    using asleep_alike [OF _ t(2)] n(11) [OF that] st that(1) by (simp add: stage_def)
  ultimately have "stage st (b # played) t" using t(5) by (simp add: stage_def)
  then show ?thesis using t(1) alike_mono [OF t(2) n(6)] by blast
qed

end
