(* ===== verification/Pvp_Champion.thy ===== *)
theory Pvp_Champion
  imports Pvp_Tournament
begin

text \<open>
  A whole run of the championship: every battle starts its children, the real
  players send their first messages, the battles are played in order, and
  everything ends. As the steps of different processes commute, that run stands
  for all of them (\<open>every_schedule\<close>), also when reads at the end of a pipe and
  writes without a reader are taken as the kernel does.
\<close>

section \<open>All battles\<close>

lemma stage_cong: "set played = set played' \<Longrightarrow> stage st played s = stage st played' s"
proof -
  assume "set played = set played'"
  then have "entered played = entered played'" "in_play played = in_play played'" "\<And>b. b \<in> set played \<longleftrightarrow> b \<in> set played'"
    by (simp_all add: fun_eq_iff entered_def in_play_def split: proc.split option.split)
  then show ?thesis by (simp add: stage_def)
qed

lemma stage_after:
  assumes "stage st [] s" and fits: "\<And>i. i \<le> 7 \<Longrightarrow> fit (st i)" and "n \<le> length battle_order"
  shows "\<exists>t. reaches w (demoter st) s t \<and> alike (set all_procs) UNIV s t \<and> stage st (take n battle_order) t"
  using assms(3)
proof (induction n)
  case 0
  then show ?case using assms(1) by (intro exI [of _ s]) simp
next
  case (Suc n)
  then obtain t where t: "reaches w (demoter st) s t" "alike (set all_procs) UNIV s t" "stage st (take n battle_order) t" by auto
  have nb: "next_battle (take n battle_order) (battle_order ! n)" using battle_order_legal Suc.prems by simp
  obtain u where u: "reaches w (demoter st) t u" "alike (set all_procs) UNIV t u" "stage st (battle_order ! n # take n battle_order) u"
    using stage_next [OF t(3) nb fits] by blast
  have "set (battle_order ! n # take n battle_order) = set (take (Suc n) battle_order)"
    using Suc.prems by (simp add: take_Suc_conv_app_nth)
  then have "stage st (take (Suc n) battle_order) u" using u(3) stage_cong by blast
  then show ?case using reaches_trans [OF t(1) u(1)] alike_within [OF t(2) u(2)] by blast
qed

lemma championship_ends:
  assumes "stage st [] s" and fits: "\<And>i. i \<le> 7 \<Longrightarrow> fit (st i)"
  shows "\<exists>t bt. reaches w (demoter st) s t \<and> alike (set all_procs) UNIV s t \<and> gone t (Battle CHR ''A'') \<and> calm t
    \<and> procs t (Battle CHR ''A'') = Some (RunB bt) \<and> b_out bt = champion_line (champion st)"
proof -
  obtain t where t: "reaches w (demoter st) s t" "alike (set all_procs) UNIV s t" "stage st battle_order t"
    using stage_after [OF assms order_refl] by auto
  have "in_play battle_order (Battle CHR ''B'')" "in_play battle_order (Battle CHR ''C'')"
    by (simp_all add: battle_order_def in_play_def entered_def parents)
  moreover have "Battle CHR ''B'' \<in> set all_procs" "Battle CHR ''C'' \<in> set all_procs"
    by (simp_all add: all_procs_def sub_table)
  ultimately have x: "present t (Battle CHR ''B'') (seat st (Battle CHR ''B''))" and y: "present t (Battle CHR ''C'') (seat st (Battle CHR ''C''))"
    using t(3) by (simp_all add: stage_def)
  have sound: "sound (seat st (Battle CHR ''B''))" "sound (seat st (Battle CHR ''C''))"
    by (rule sound_seat [OF fits]; simp add: named_def battles_def)+
  have id: "idle t CHR ''A''" and calm: "calm t" using t(3) by (simp_all add: stage_def battles_def battle_order_def)
  obtain u bt where u: "reaches w (demoter st) t u" "alike (set all_procs) UNIV t u" "gone u (Battle CHR ''A'')"
    "procs u (Battle CHR ''A'') = Some (RunB bt)" "b_out bt = champion_line (champion st)" "\<forall>k. chans u (Fifo k) = chans t (Fifo k)"
    using root_plays [OF id x y sound, of w "demoter st"]
    unfolding champion_def Let_def all_procs_def by blast
  have "calm u" using u(6) calm by (simp add: calm_def)
  then show ?thesis using reaches_trans [OF t(1) u(1)] alike_within [OF t(2) u(2)] u(3-5) by blast
qed

section \<open>Every process starts\<close>

text \<open>What a process is right after \<open>execl\<close>, and a battle that has started its children.\<close>

definition loaded :: "world \<Rightarrow> nat \<Rightarrow> Status" where
  "loaded w i = load_status (raw_status w (Player i)) (raw_buf w) (raw_word w) (status_file w) i"

definition fresh_battle :: "bpc \<Rightarrow> char \<Rightarrow> battle \<Rightarrow> bool" where
  "fresh_battle pc b bt \<longleftrightarrow> battle_id bt = b \<and> bpc bt = pc \<and> length (ptr bt) = 2 \<and> waited bt = 0 \<and> b_out bt = []"

definition fresh :: "world \<Rightarrow> bpc \<Rightarrow> proc \<Rightarrow> net \<Rightarrow> bool" where
  "fresh w pc r s \<longleftrightarrow>
     (case r of
        Battle b \<Rightarrow> (\<exists>bt. procs s r = Some (RunB bt) \<and> fresh_battle pc b bt)
      | Player i \<Rightarrow> (\<exists>q. procs s r = Some (RunP q) \<and> player_id q = i \<and>
          (if i > 7 then ppc q = P_start else ppc q = P_first \<and> status q = loaded w i)))"

lemma fresh_exec:
  assumes "b \<in> set battles" and "f = 0 \<or> f = 1"
  shows "procs s (child b f) = Some (exec w p (child b f) (child_name b f)) \<Longrightarrow> fresh w (B_fork 0) (child b f) s"
  using child_name_arg [OF assms]
  by (cases "child b f")
    (simp_all add: fresh_def exec_def battle_start_def fresh_battle_def player_start_def Let_def loaded_def)

lemma fresh_same: "fresh w pc r s \<Longrightarrow> procs t r = procs s r \<Longrightarrow> fresh w pc r t"
  by (cases r) (simp_all add: fresh_def)

lemma battle_forks:
  assumes "procs s (Battle b) = Some (RunB bt)" and "fresh_battle (B_fork i) b bt" and b: "b \<in> set battles" and i: "i = 0 \<or> i = 1"
    and none: "procs s (child b i) = None"
  shows "\<exists>t bt'. reaches w lost s t \<and> chans t = chans s \<and> procs t (Battle b) = Some (RunB bt')
    \<and> fresh_battle (if i = 0 then B_fork 1 else B_read 0) b bt' \<and> fresh w (B_fork 0) (child b i) t
    \<and> (\<forall>p. p \<noteq> Battle b \<longrightarrow> p \<noteq> child b i \<longrightarrow> procs t p = procs s p)"
proof -
  let ?c = "child b i" and ?b = "Battle b"
  define bt' where "bt' = bt\<lparr>bpc := (if i = 0 then B_fork 1 else B_read 0)\<rparr>"
  have d: "program_do w (RunB bt) = Spawn ?c (child_name b i) (RunB bt')"
    using assms(2) by (simp add: program_do_def battle_do_def Let_def bt'_def fresh_battle_def)
  have ne: "?c \<noteq> ?b" using none assms(1) by auto
  define t where "t = goes_on ?c (exec w ?b ?c (child_name b i)) (goes_on ?b (RunB bt') s)"
  have "reaches w lost s t" unfolding t_def by (rule reach_Spawn [OF assms(1) d none ne parent_proc_child [OF b i]])
  moreover have "fresh w (B_fork 0) ?c t" by (rule fresh_exec [OF b i]) (simp add: t_def)
  moreover have "procs t ?b = Some (RunB bt')" using ne [symmetric] by (simp add: t_def)
  ultimately show ?thesis using assms(2) by (intro exI [of _ t] exI [of _ bt']) (simp add: t_def bt'_def fresh_battle_def)
qed

text \<open>From a process on its own to its whole subtree.\<close>

lemma subtree_starts:
  assumes "fresh w (B_fork 0) r s" and "\<And>b. r = Battle b \<Longrightarrow> b \<in> set battles" and "\<forall>p\<in>set (sub r) - {r}. procs s p = None"
  shows "\<exists>t. reaches w lost s t \<and> chans t = chans s \<and> (\<forall>p\<in>set (sub r). fresh w (B_read 0) p t)
    \<and> (\<forall>p. p \<notin> set (sub r) \<longrightarrow> procs t p = procs s p)"
  using assms
proof (induction "length (sub r)" arbitrary: r s rule: less_induct)
  case less
  show ?case
  proof (cases r)
    case (Player i)
    then show ?thesis using less.prems(1) by (intro exI [of _ s]) (simp add: fresh_def)
  next
    case (Battle b)
    then have b: "b \<in> set battles" using less.prems(2) by simp
    let ?b = "Battle b" and ?c = "child b 0" and ?d = "child b 1"
    have below: "set (sub ?c) \<subseteq> set (sub ?b) - {?b}" "set (sub ?d) \<subseteq> set (sub ?b) - {?b}"
      using child_sub_below [OF b] by simp_all
    have self: "?c \<in> set (sub ?c)" "?d \<in> set (sub ?d)" using self_sub [OF b] by simp_all
    have apart: "p \<in> set (sub ?c) \<Longrightarrow> p \<notin> set (sub ?d)" for p using children_apart [OF b, of 0] by auto
    have ne: "?c \<noteq> ?b" "?d \<noteq> ?b" "?c \<noteq> ?d" using subsetD [OF below(1) self(1)] subsetD [OF below(2) self(2)] apart [OF self(1)] self(2) by auto
    have in_c: "p \<noteq> ?b \<and> p \<noteq> ?d" if "p \<in> set (sub ?c)" for p using subsetD [OF below(1) that] apart [OF that] self(2) by auto
    have in_d: "p \<noteq> ?b \<and> p \<noteq> ?c" if "p \<in> set (sub ?d)" for p using subsetD [OF below(2) that] apart [OF self(1)] that by auto
    have parts: "set (sub ?b) = insert ?b (set (sub ?c) \<union> set (sub ?d))" by (simp add: sub_Battle [OF b])
    have less_c: "length (sub ?c) < length (sub r)" "length (sub ?d) < length (sub r)" by (simp_all add: Battle sub_Battle [OF b])
    have kids: "?c = Battle c \<Longrightarrow> c \<in> set battles" "?d = Battle c \<Longrightarrow> c \<in> set battles" for c using child_battles [OF b, of 0 c] child_battles [OF b, of 1 c] by simp_all
    have none: "procs s p = None" if "p \<in> set (sub ?c) \<or> p \<in> set (sub ?d)" for p
      using less.prems(3) that below by (auto simp: Battle)
    obtain bt where bt: "procs s ?b = Some (RunB bt)" "fresh_battle (B_fork 0) b bt"
      using less.prems(1) by (auto simp: Battle fresh_def)
    obtain s1 b1 where s1: "reaches w lost s s1" "chans s1 = chans s" "procs s1 ?b = Some (RunB b1)" "fresh_battle (B_fork 1) b b1"
      "fresh w (B_fork 0) ?c s1" "\<forall>p. p \<noteq> ?b \<longrightarrow> p \<noteq> ?c \<longrightarrow> procs s1 p = procs s p"
      using battle_forks [OF bt b, of w lost] none self(1) by auto
    have d1: "procs s1 ?d = None" using s1(6) none self ne by simp
    obtain s2 b2 where s2: "reaches w lost s1 s2" "chans s2 = chans s1" "procs s2 ?b = Some (RunB b2)" "fresh_battle (B_read 0) b b2"
      "fresh w (B_fork 0) ?d s2" "\<forall>p. p \<noteq> ?b \<longrightarrow> p \<noteq> ?d \<longrightarrow> procs s2 p = procs s1 p"
      using battle_forks [OF s1(3,4) b _ d1, of w lost] by auto
    have fc: "fresh w (B_fork 0) ?c s2"
      by (rule fresh_same [OF s1(5)]) (use s2(6) ne in simp)
    have n2: "\<forall>p\<in>set (sub ?c) - {?c}. procs s2 p = None"
      using s1(6) s2(6) none in_c by auto
    obtain t where t: "reaches w lost s2 t" "chans t = chans s2" "\<forall>p\<in>set (sub ?c). fresh w (B_read 0) p t"
      "\<forall>p. p \<notin> set (sub ?c) \<longrightarrow> procs t p = procs s2 p"
      using less.hyps [OF less_c(1) fc kids(1) n2] by blast
    have fd: "fresh w (B_fork 0) ?d t"
      by (rule fresh_same [OF s2(5)]) (use t(4) apart self in blast)
    have n3: "\<forall>p\<in>set (sub ?d) - {?d}. procs t p = None"
    proof
      fix p
      assume p: "p \<in> set (sub ?d) - {?d}"
      then have "p \<noteq> ?b" "p \<noteq> ?c" "p \<notin> set (sub ?c)" using in_d [of p] apart [of p] by auto
      then show "procs t p = None" using p s1(6) s2(6) t(4) none [of p] by simp
    qed
    obtain u where u: "reaches w lost t u" "chans u = chans t" "\<forall>p\<in>set (sub ?d). fresh w (B_read 0) p u"
      "\<forall>p. p \<notin> set (sub ?d) \<longrightarrow> procs u p = procs t p"
      using less.hyps [OF less_c(2) fd kids(2) n3] by blast
    have "fresh w (B_read 0) p u" if "p \<in> set (sub r)" for p
    proof -
      consider "p = ?b" | "p \<in> set (sub ?c)" | "p \<in> set (sub ?d)" using \<open>p \<in> set (sub r)\<close> Battle parts by auto
      then show ?thesis
      proof cases
        case 1
        have "procs u ?b = Some (RunB b2)" using u(4) t(4) s2(3) in_c [of ?b] in_d [of ?b] by metis
        then show ?thesis using s2(4) 1 by (simp add: fresh_def)
      next
        case 2
        then show ?thesis using t(3) u(4) apart fresh_same by blast
      qed (use u(3) in blast)
    qed
    moreover have "procs u p = procs s p" if "p \<notin> set (sub r)" for p
    proof -
      have "p \<noteq> ?b" "p \<notin> set (sub ?c)" "p \<notin> set (sub ?d)" using that by (simp_all add: Battle parts)
      moreover have "p \<noteq> ?c" "p \<noteq> ?d" using calculation self by blast+
      ultimately show ?thesis using s1(6) s2(6) t(4) u(4) by simp
    qed
    moreover have "reaches w lost s u"
      using reaches_trans [OF s1(1) reaches_trans [OF s2(1) reaches_trans [OF t(1) u(1)]]] .
    ultimately show ?thesis using s1(2) s2(2) t(2) u(2) by auto
  qed
qed


text \<open>The root is started by hand, and everything below it.\<close>

lemma root_fresh: "fresh w (B_fork 0) (Battle CHR ''A'') (net_start w)"
  by (simp add: fresh_def net_start_def battle_start_def fresh_battle_def)

lemma all_start:
  "\<exists>t. reaches w lost (net_start w) t \<and> chans t = (\<lambda>_. []) \<and> (\<forall>p\<in>set all_procs. fresh w (B_read 0) p t)
    \<and> (\<forall>p. p \<notin> set all_procs \<longrightarrow> procs t p = None)"
proof -
  have b: "Battle CHR ''A'' = Battle b \<Longrightarrow> b \<in> set battles" for b by (simp add: battles_def)
  have self: "Battle CHR ''A'' \<in> set all_procs" by (simp add: all_procs_def sub_table)
  have n: "\<forall>p\<in>set (sub (Battle CHR ''A'')) - {Battle CHR ''A''}. procs (net_start w) p = None" by (simp add: net_start_def)
  have c: "chans (net_start w) = (\<lambda>_. [])" by (simp add: net_start_def)
  obtain t where t: "reaches w lost (net_start w) t" "chans t = chans (net_start w)" "\<forall>p\<in>set all_procs. fresh w (B_read 0) p t"
    "\<forall>p. p \<notin> set all_procs \<longrightarrow> procs t p = procs (net_start w) p"
    using subtree_starts [OF root_fresh b n, of lost] unfolding all_procs_def by blast
  moreover have "procs (net_start w) p = None" if "p \<notin> set all_procs" for p
    using that self by (auto simp: net_start_def)
  ultimately show ?thesis using c by auto
qed

text \<open>The real players send their first messages, one after the other.\<close>

lemma players_enter:
  assumes "\<And>i. i \<le> 7 \<Longrightarrow> entering s i (st i)" and "n \<le> 8"
  shows "\<exists>t. reaches w lost s t \<and> alike (Player ` {..<n}) {} s t \<and> (\<forall>i<n. present t (Player i) (agent i (st i)))"
  using assms(2)
proof (induction n)
  case (Suc n)
  then obtain t where t: "reaches w lost s t" "alike (Player ` {..<n}) {} s t" "\<forall>i<n. present t (Player i) (agent i (st i))" by auto
  have "entering t n (st n)" by (rule entering_alike [OF assms(1) t(2)]) (use Suc.prems in auto)
  then obtain u where u: "reaches w lost t u" "alike {Player n} {} t u" "present u (Player n) (agent n (st n))"
    using player_enters by blast
  have "present u (Player i) (agent i (st i))" if "i < Suc n" for i
    using that u(3) present_alike [OF _ u(2)] t(3) by (cases "i = n") simp_all
  moreover have "alike (Player ` {..<Suc n}) {} s u"
    using alike_trans [OF t(2) u(2)] by (simp add: lessThan_Suc Un_commute)
  ultimately show ?case using reaches_trans [OF t(1) u(1)] by blast
qed (use reaches_refl in \<open>auto intro!: exI [of _ s]\<close>)

lemma reaches_stage: "\<exists>t. reaches w lost (net_start w) t \<and> stage (loaded w) [] t \<and> (\<forall>p. p \<notin> set all_procs \<longrightarrow> procs t p = None)
    \<and> (\<forall>p. p \<notin> set all_procs \<longrightarrow> chans t (To_parent p) = [] \<and> chans t (To_child p) = [])"
proof -
  obtain s where s: "reaches w lost (net_start w) s" "chans s = (\<lambda>_. [])" "\<forall>p\<in>set all_procs. fresh w (B_read 0) p s"
    "\<forall>p. p \<notin> set all_procs \<longrightarrow> procs s p = None"
    using all_start by blast
  have inA: "list_all (\<lambda>b. Battle b \<in> set all_procs) battles" "list_all (\<lambda>i. Player i \<in> set all_procs) [0, 1, 2, 3, 4, 5, 6, 7]"
    by (simp_all add: all_procs_def sub_table battles_def)
  have "Player i \<in> set all_procs" if "i \<le> 7" for i
    using inA(2) that by (auto simp: list_all_iff le_Suc_eq numeral_eq_Suc)
  then have "entering s i (loaded w i)" if "i \<le> 7" for i
    using s(2,3) that by (fastforce simp: entering_def fresh_def)
  then obtain t where t: "reaches w lost s t" "alike (Player ` {..<8}) {} s t" "\<forall>i<8. present t (Player i) (agent i (loaded w i))"
    using players_enter [of s "loaded w" 8 w lost] by blast
  have idle: "idle t b" if "b \<in> set battles" for b
  proof (rule idle_alike [OF _ t(2)])
    show "idle s b" using inA(1) that s(2,3) by (fastforce simp: list_all_iff idle_def fresh_def fresh_battle_def)
  qed auto
  have small: "source k = None \<Longrightarrow> Player k \<in> set all_procs \<Longrightarrow> k < 8" for k
  proof -
    have "list_all (\<lambda>r. case r of Battle _ \<Rightarrow> True | Player k \<Rightarrow> source k = None \<longleftrightarrow> k < 8) all_procs"
      by (simp add: all_procs_def sub_table source_table)
    then show "source k = None \<Longrightarrow> Player k \<in> set all_procs \<Longrightarrow> k < 8" by (auto simp: list_all_iff)
  qed
  have "present t r (seat (loaded w) r)" if "r \<in> set all_procs" "in_play [] r" for r
  proof (cases r)
    case (Player k)
    then have "source k = None" using that(2) by (simp add: in_play_def entered_def split: option.splits)
    then show ?thesis using t(3) small that(1) Player by (simp add: seat.simps(2))
  qed (use that(2) in \<open>simp add: in_play_def entered_def\<close>)
  moreover have "asleep t k" if k: "Player k \<in> set all_procs" "\<not> entered [] (Player k)" for k
  proof -
    have "source k \<noteq> None" using k(2) by (auto simp: entered_def split: option.splits)
    moreover have "list_all (\<lambda>r. case r of Battle _ \<Rightarrow> True | Player k \<Rightarrow> source k = None \<or> \<not> k < 8) all_procs"
      by (simp add: all_procs_def sub_table source_table)
    ultimately have big: "\<not> k < 8" using k(1) by (auto simp: list_all_iff)
    then have "asleep s k" using s(2,3) k(1) by (fastforce simp: asleep_def fresh_def)
    then show ?thesis by (rule asleep_alike [OF _ t(2)]) (use big in auto)
  qed
  moreover have "calm t" using t(2) s(2) by (simp add: calm_def alike_def)
  ultimately have "stage (loaded w) [] t" using idle by (simp add: stage_def)
  moreover have "procs t p = None \<and> chans t (To_parent p) = [] \<and> chans t (To_child p) = []" if "p \<notin> set all_procs" for p
  proof -
    have "p \<notin> Player ` {..<8}" using that inA(2) by (auto simp: list_all_iff less_Suc_eq numeral_eq_Suc)
    then show ?thesis using t(2) s(2,4) that by (simp add: alike_def)
  qed
  ultimately show ?thesis using reaches_trans [OF s(1) t(1)] by blast
qed


section \<open>Every schedule\<close>

text \<open>The end: all processes have ended, all pipes and fifos are empty.\<close>

definition all_over :: "net \<Rightarrow> bool" where
  "all_over t \<longleftrightarrow> (\<forall>p. procs t p \<noteq> None \<longrightarrow> ended t p) \<and> (\<forall>c. chans t c = [])"

lemma all_over_final:
  assumes "all_over t" shows "championship.final w t"
proof -
  have "quiet_step w p t = None \<and> claims w p t = None" for p
  proof (cases "procs t p")
    case (Some g)
    then have "program_do w g = Done" using assms program_done by (auto simp: all_over_def ended_def)
    then show ?thesis using Some by (simp add: quiet_step_def step_def claims_def)
  qed (simp add: quiet_step_def step_def claims_def)
  then show ?thesis by (simp add: championship.final_def)
qed

text \<open>Along an owned run a pipe keeps its message when its reader has ended, and stays empty when its writer has.\<close>

lemma owned_Cons:
  assumes "run (quiet_step w) (p # ps) s = Some t" and "championship.owned w (owner lost) (p # ps) s"
  obtains s' where "quiet_step w p s = Some s'" and "run (quiet_step w) ps s' = Some t" and "championship.owned w (owner lost) ps s'"
    and "\<And>r. claims w p s = Some r \<Longrightarrow> owner lost r = p"
  using assms by (auto split: option.splits)

lemma no_reader:
  assumes "run (quiet_step w) ps s = Some t" and "championship.owned w (owner lost) ps s"
    and "ended s (owner lost (Reads c))" and "chans s c \<noteq> []"
  shows "chans t c \<noteq> []"
  using assms
proof (induction ps arbitrary: s)
  case (Cons p ps)
  obtain s' where s': "quiet_step w p s = Some s'" "run (quiet_step w) ps s' = Some t" "championship.owned w (owner lost) ps s'"
    "\<And>r. claims w p s = Some r \<Longrightarrow> owner lost r = p"
    using owned_Cons [OF Cons.prems(1,2)] by blast
  have "p \<noteq> owner lost (Reads c)" using step_not_over [OF s'(1)] Cons.prems(3) by (auto simp: ended_def)
  then have claim: "claims w p s \<noteq> Some (Reads c)" using s'(4) by blast
  have "chans s' c \<noteq> []"
    using s'(1) by (cases rule: quiet_step_cases) (use claim Cons.prems(4) in \<open>auto simp: claims_def\<close>)
  then show ?case using Cons.IH [OF s'(2,3) quiet_step_frame(3) [OF s'(1) Cons.prems(3)]] by blast
qed simp

lemma no_writer:
  assumes "run (quiet_step w) ps s = Some t" and "championship.owned w (owner lost) ps s"
    and "ended s (owner lost (Writes c))" and "chans s c = []" and "procs s q = Some g" and "program_do w g = Receive c k"
  shows "procs t q = Some g"
  using assms
proof (induction ps arbitrary: s)
  case (Cons p ps)
  obtain s' where s': "quiet_step w p s = Some s'" "run (quiet_step w) ps s' = Some t" "championship.owned w (owner lost) ps s'"
    "\<And>r. claims w p s = Some r \<Longrightarrow> owner lost r = p"
    using owned_Cons [OF Cons.prems(1,2)] by blast
  have "p \<noteq> owner lost (Writes c)" using step_not_over [OF s'(1)] Cons.prems(3) by (auto simp: ended_def)
  then have claim: "claims w p s \<noteq> Some (Writes c)" using s'(4) by blast
  have "chans s' c = []"
    using s'(1) by (cases rule: quiet_step_cases) (use claim Cons.prems(4) in \<open>auto simp: claims_def\<close>)
  moreover have "q \<noteq> p" using s'(1) Cons.prems(4-6) by (auto simp: quiet_step_def step_def)
  then have "procs s' q = Some g" by (rule quiet_step_frame(1) [OF s'(1) _ Cons.prems(5)])
  ultimately show ?case using Cons.IH [OF s'(2,3) quiet_step_frame(3) [OF s'(1) Cons.prems(3)]] Cons.prems(6) by blast
qed simp

text \<open>On the way to the end nothing is read at the end of a pipe, nothing written without a reader.\<close>

lemma owner_writer: "writer_ended s c \<Longrightarrow> ended s (owner lost (Writes c))"
  by (cases c) (auto simp: writer_ended_def parent_proc_def split: option.splits)

lemma owner_reader: "reader_ended s c \<Longrightarrow> ended s (owner lost (Reads c))"
  by (cases c) (auto simp: reader_ended_def parent_proc_def split: option.splits)

lemma strict_quiet:
  assumes "run (quiet_step w) ps s = Some t" and "championship.owned w (owner lost) ps s" and "all_over t"
  shows "net_step w p s = quiet_step w p s"
proof (cases "procs s p")
  case (Some g)
  show ?thesis
  proof (cases "program_do w g")
    case (Receive c k)
    have "\<not> writer_ended s c" if "chans s c = []"
    proof
      assume "writer_ended s c"
      then have "procs t p = Some g" using no_writer [OF assms(1,2) owner_writer that Some Receive] by blast
      then show False using assms(3) program_done [of w g] Receive by (auto simp: all_over_def ended_def)
    qed
    then show ?thesis by (simp add: net_step_def quiet_step_def step_def Some Receive split: list.split)
  next
    case (Put c x g')
    have "\<not> reader_ended s c" if put: "can_put s c"
    proof
      assume r: "reader_ended s c"
      define u where "u = goes_on p g' (s\<lparr>chans := (chans s)(c := chans s c @ [x])\<rparr>)"
      have u: "quiet_step w p s = Some u" unfolding u_def by (rule quiet_step_Put [OF Some Put put])
      obtain ps' where ps': "run (quiet_step w) ps' u = Some t" "championship.owned w (owner lost) ps' u"
        using championship.pull_front [OF assms(1,2) all_over_final [OF assms(3)] u] by blast
      have "ended u (owner lost (Reads c))" by (rule quiet_step_frame(3) [OF u owner_reader [OF r]])
      moreover have "chans u c \<noteq> []" by (simp add: u_def)
      ultimately have "chans t c \<noteq> []" by (rule no_reader [OF ps'])
      then show False using assms(3) by (simp add: all_over_def)
    qed
    then show ?thesis by (auto simp: net_step_def quiet_step_def step_def Some Put)
  qed (simp_all add: net_step_def quiet_step_def step_def Some)
qed (simp add: net_step_def quiet_step_def step_def)

lemma quiet_to_strict:
  "run (quiet_step w) ps s = Some t \<Longrightarrow> championship.owned w (owner lost) ps s \<Longrightarrow> all_over t \<Longrightarrow> run (net_step w) ps s = Some t"
proof (induction ps arbitrary: s)
  case (Cons p ps)
  then show ?case using strict_quiet [OF Cons.prems] by (auto split: option.splits)
qed simp

lemma strict_to_quiet:
  assumes "run (quiet_step w) ps s = Some t" and "championship.owned w (owner lost) ps s" and "all_over t"
    and "run (net_step w) qs s = Some u"
  shows "run (quiet_step w) qs s = Some u"
  using assms
proof (induction qs arbitrary: s ps)
  case (Cons q qs)
  then obtain s1 where s1: "net_step w q s = Some s1" "run (net_step w) qs s1 = Some u" by (auto split: option.splits)
  then have q: "quiet_step w q s = Some s1" using strict_quiet [OF Cons.prems(1-3)] by simp
  obtain ps' where "run (quiet_step w) ps' s1 = Some t" "championship.owned w (owner lost) ps' s1"
    using championship.pull_front [OF Cons.prems(1,2) all_over_final [OF Cons.prems(3)] q] by blast
  then show ?case using Cons.IH [OF _ _ Cons.prems(3) s1(2)] q by simp
qed simp

text \<open>Every run can go on to the same end, in as many steps as are left.\<close>

lemma every_schedule:
  assumes "reaches w lost s t" and "all_over t"
  shows "\<exists>n. \<forall>qs u. run (net_step w) qs s = Some u \<longrightarrow> (\<exists>ps. run (net_step w) ps u = Some t \<and> length qs + length ps = n)"
proof -
  obtain ps where ps: "run (quiet_step w) ps s = Some t" "championship.owned w (owner lost) ps s"
    using assms(1) by (auto simp: reaches_def)
  have "\<exists>ps'. run (net_step w) ps' u = Some t \<and> length qs + length ps' = length ps" if "run (net_step w) qs s = Some u" for qs u
  proof -
    have q: "run (quiet_step w) qs s = Some u" by (rule strict_to_quiet [OF ps assms(2) that])
    obtain ps' where "run (quiet_step w) ps' u = Some t" "championship.owned w (owner lost) ps' u" "length ps = length qs + length ps'"
      using championship.every_run_reaches [OF ps all_over_final [OF assms(2)] q] by blast
    then show ?thesis using quiet_to_strict [OF _ _ assms(2)] by metis
  qed
  then show ?thesis by blast
qed

text \<open>The end of the championship.\<close>

lemma championship_final:
  assumes fits: "\<And>i. i \<le> 7 \<Longrightarrow> fit (loaded w i)"
  shows "\<exists>t bt. reaches w (demoter (loaded w)) (net_start w) t \<and> all_over t
    \<and> procs t (Battle CHR ''A'') = Some (RunB bt) \<and> b_out bt = champion_line (champion (loaded w))"
proof -
  obtain s where s: "reaches w (demoter (loaded w)) (net_start w) s" "stage (loaded w) [] s" "\<forall>p. p \<notin> set all_procs \<longrightarrow> procs s p = None"
    "\<forall>p. p \<notin> set all_procs \<longrightarrow> chans s (To_parent p) = [] \<and> chans s (To_child p) = []"
    using reaches_stage by blast
  obtain t bt where t: "reaches w (demoter (loaded w)) s t" "alike (set all_procs) UNIV s t" "gone t (Battle CHR ''A'')" "calm t"
    "procs t (Battle CHR ''A'') = Some (RunB bt)" "b_out bt = champion_line (champion (loaded w))"
    using championship_ends [OF s(2) fits] by blast
  have inside: "ended t p \<and> chans t (To_parent p) = [] \<and> chans t (To_child p) = []" if "p \<in> set all_procs" for p
    using t(3) that by (simp add: gone_def all_procs_def)
  have outside: "procs t p = None \<and> chans t (To_parent p) = [] \<and> chans t (To_child p) = []" if "p \<notin> set all_procs" for p
    using t(2) s(3,4) that by (simp add: alike_def)
  have "ended t p" if "procs t p \<noteq> None" for p
    using inside [of p] outside [of p] that by (cases "p \<in> set all_procs") simp_all
  moreover have links: "chans t (To_parent p) = [] \<and> chans t (To_child p) = []" for p
    using inside [of p] outside [of p] by (cases "p \<in> set all_procs") simp_all
  have "chans t c = []" for c using links t(4) by (cases c) (simp_all add: calm_def)
  ultimately have "all_over t" by (simp add: all_over_def)
  then show ?thesis using reaches_trans [OF s(1) t(1)] t(5,6) by blast
qed

end
