(* ===== verification/Pvp_Props.thy ===== *)
theory Pvp_Props
  imports Pvp_Champion
begin

text \<open>
  The properties of the championship: it always ends with the champion of
  \<open>champion\<close> whatever the schedule, a battle of processes implements \<open>advance\<close>,
  a fight has the closed form \<open>winner\<close>, no process is killed or stuck on the
  way, the status file is read as written, health stays in its bounds, the
  tables form the tree of a double elimination, and a fight without attack
  power never ends.
\<close>

section \<open>Reading the status file\<close>

definition attr_word :: "cuint \<Rightarrow> string" where
  "attr_word a = (if a = GRASS then ''GRASS'' else if a = WATER then ''WATER'' else ''FIRE'')"

definition status_line :: "Status \<Rightarrow> string" where
  "status_line p = fmt_d (HP p) @ '' '' @ fmt_d (ATK p) @ '' '' @ attr_word (attr p) @ '' '' @ [current_battle_id p] @ '' ''
     @ fmt_d (battle_ended_flag p)"

definition writable :: "Status \<Rightarrow> bool" where
  "writable p \<longleftrightarrow> attr p \<in> {FIRE, GRASS, WATER} \<and> \<not> isspace (current_battle_id p) \<and> current_battle_id p \<noteq> NUL"

lemma dec_nat_length: "n < 10 ^ Suc k \<Longrightarrow> length (dec_nat n) \<le> Suc k"
proof (induction k arbitrary: n)
  case (Suc k)
  have "n div 10 < 10 ^ Suc k" using Suc.prems by (simp add: less_mult_imp_div_less)
  then show ?case using Suc.IH [of "n div 10"] by (subst dec_nat.simps) simp
qed (simp add: dec_nat.simps)

lemma fmt_d_length: "length (fmt_d w) \<le> 11"
proof -
  have s: "int_fits (sint w)" by simp
  then have "nat (- sint w) < 10 ^ Suc 9" "nat (sint w) < 10 ^ Suc 9" by (auto simp: int_fits_def)
  then show ?thesis using dec_nat_length [of "nat (- sint w)" 9] dec_nat_length [of "nat (sint w)" 9] by (auto simp: fmt_d_def)
qed

lemma attr_word_facts: "attr_word a \<noteq> []" "c \<in> set (attr_word a) \<Longrightarrow> \<not> isspace c \<and> c \<noteq> NUL \<and> c \<noteq> LF" "length (attr_word a) \<le> 5"
  by (auto simp: attr_word_def isspace_def char_code_def split: if_splits)

lemma status_line_clean: "writable p \<Longrightarrow> c \<in> set (status_line p) \<Longrightarrow> c \<noteq> LF \<and> c \<noteq> NUL"
  using fmt_d_clean [of c] attr_word_facts(2) [of c "attr p"] by (auto simp: status_line_def writable_def)

lemma status_line_length: "length (status_line p) < 99"
  using fmt_d_length [of "HP p"] fmt_d_length [of "ATK p"] fmt_d_length [of "battle_ended_flag p"] attr_word_facts(3) [of "attr p"]
  by (simp add: status_line_def)

lemma scan_d_after_blank: "scan_d (CHR '' '' # s) = scan_d s"
  by (simp add: scan_d_def)

definition put_line :: "Status \<Rightarrow> Status \<Rightarrow> Status" where
  "put_line p q = q\<lparr>HP := HP p, ATK := ATK p, current_battle_id := current_battle_id p, battle_ended_flag := battle_ended_flag p\<rparr>"

lemma scan_status_line:
  assumes "writable p"
  shows "scan_status (status_line p @ [LF]) (q, w) = (put_line p q, attr_word (attr p))"
proof -
  have s: "scan_s k (CHR '' '' # attr_word (attr p) @ CHR '' '' # t) = Some (attr_word (attr p), CHR '' '' # t)" if "5 \<le> k" for k t
    by (rule scan_s_word) (use that attr_word_facts [where a = "attr p"] in auto)
  have c: "scan_c (CHR '' '' # current_battle_id p # t) = Some (current_battle_id p, t)" for t
    using assms by (simp add: scan_c_def writable_def)
  have f: "scan_d (fmt_d (battle_ended_flag p) @ [LF]) = Some (battle_ended_flag p, [LF])" by (rule scan_d_fmt_d) simp
  have l: "5 \<le> length (CHR '' '' # attr_word (attr p) @ CHR '' '' # current_battle_id p # CHR '' '' # fmt_d (battle_ended_flag p) @ [LF])"
    by (simp add: attr_word_def)
  show ?thesis
    unfolding scan_status_def status_line_def
    by (simp add: scan_d_fmt_d_space scan_d_after_blank s [OF l, simplified] c f Let_def put_line_def)
qed


definition status_lines :: "Status list \<Rightarrow> string" where
  "status_lines ps = concat (map (\<lambda>p. status_line p @ [LF]) ps)"

lemma read_first_line:
  assumes "writable p"
  shows "read_lines (Suc n) (status_lines (p # ps)) buf (q, w)
    = read_lines n (status_lines ps) (status_line p @ [LF]) (put_line p q, attr_word (attr p))"
proof -
  have f: "fgets 99 (status_line p @ LF # status_lines ps) = Some (status_line p @ [LF], status_lines ps)"
    by (rule fgets_line) (use status_line_clean [OF assms] status_line_length in auto)
  have c: "cstr (status_line p @ [LF]) = status_line p @ [LF]"
    unfolding cstr_def takeWhile_eq_all_conv using status_line_clean [OF assms] by auto
  have l: "status_lines (p # ps) = status_line p @ LF # status_lines ps" by (simp add: status_lines_def)
  show ?thesis unfolding l by (simp add: f c scan_status_line [OF assms])
qed

lemma read_lines_nth:
  "list_all writable ps \<Longrightarrow> n < length ps \<Longrightarrow>
    read_lines (Suc n) (status_lines ps) buf (q, w) = (put_line (ps ! n) q, attr_word (attr (ps ! n)))"
proof (induction n arbitrary: ps buf q w)
  case (0 ps)
  then obtain p ps' where ps: "ps = p # ps'" "writable p" by (cases ps) auto
  show ?case by (simp only: ps(1) read_first_line [OF ps(2)]) simp
next
  case (Suc n ps)
  then obtain p ps' where ps: "ps = p # ps'" "writable p" "list_all writable ps'" "n < length ps'" by (cases ps) auto
  have "put_line (ps' ! n) (put_line p q) = put_line (ps' ! n) q" by (simp add: put_line_def)
  then show ?case unfolding ps(1) read_first_line [OF ps(2)] using Suc.IH [OF ps(3,4)] by simp
qed

lemma load_line:
  assumes "list_all writable ps" and "i < length ps"
  shows "load_status raw buf w (status_lines ps) i = (ps ! i)\<lparr>real_player_id := word_of_nat i\<rparr>"
proof -
  have "writable (ps ! i)" using assms by (simp add: list_all_length)
  then have a: "attr (ps ! i) = FIRE \<or> attr (ps ! i) = GRASS \<or> attr (ps ! i) = WATER" by (simp add: writable_def)
  have r: "read_lines (i + 1) (status_lines ps) buf (raw\<lparr>real_player_id := word_of_nat i\<rparr>, w)
      = (put_line (ps ! i) (raw\<lparr>real_player_id := word_of_nat i\<rparr>), attr_word (attr (ps ! i)))"
    using read_lines_nth [OF assms] by simp
  show ?thesis
    unfolding load_status_def r using a
    by (cases "ps ! i") (auto simp: set_attr_def attr_word_def put_line_def FIRE_def GRASS_def WATER_def)
qed

section \<open>Concrete values\<close>

definition raw_a :: Status where
  "raw_a = \<lparr>real_player_id = 77, HP = -1, ATK = 0, attr = 9, current_battle_id = CHR ''?'', battle_ended_flag = 3\<rparr>"

definition line_a :: "cint \<Rightarrow> cint \<Rightarrow> cuint \<Rightarrow> char \<Rightarrow> Status" where
  "line_a h a t b = \<lparr>real_player_id = 0, HP = h, ATK = a, attr = t, current_battle_id = b, battle_ended_flag = 0\<rparr>"

definition players_a :: "Status list" where
  "players_a = [line_a 7 2 FIRE CHR ''G'', line_a 8 3 GRASS CHR ''G'', line_a 4 4 FIRE CHR ''H'', line_a 1 4 GRASS CHR ''H'',
     line_a 12 2 WATER CHR ''I'', line_a 3 4 GRASS CHR ''I'', line_a 7 3 WATER CHR ''J'', line_a 10 2 WATER CHR ''J'']"

definition world_a :: world where
  "world_a = \<lparr>pids = (\<lambda>p. case p of Battle b \<Rightarrow> 100 | Player i \<Rightarrow> 200 + word_of_nat i), raw_status = (\<lambda>_. raw_a), raw_first = (\<lambda>_. 0),
     raw_buf = ''junk'', raw_word = ''x'', status_file = status_lines players_a\<rparr>"

lemma players_a_writable: "list_all writable players_a"
  by (simp add: players_a_def writable_def line_a_def isspace_def char_code_def FIRE_def GRASS_def WATER_def)

lemma loaded_a: "i \<le> 7 \<Longrightarrow> fit (loaded world_a i)"
proof -
  assume i: "i \<le> 7"
  then have l: "i < length players_a" by (simp add: players_a_def)
  have "list_all fit players_a" by code_simp
  then have "fit (players_a ! i)" using l by (simp add: list_all_length)
  then show "fit (loaded world_a i)"
    unfolding loaded_def world_a_def by (simp add: load_line [OF players_a_writable l]) (simp add: fit_def)
qed

section \<open>The sample tournament\<close>

text \<open>The status file of the repository, played by hand: P0 loses battle B to P4 and comes back through C.\<close>

definition who_a :: "cint \<Rightarrow> cint \<Rightarrow> cint \<Rightarrow> cuint \<Rightarrow> char \<Rightarrow> cint \<Rightarrow> nat \<Rightarrow> contestant" where
  "who_a i h a t b orig k =
     \<lparr>c_status = \<lparr>real_player_id = i, HP = h, ATK = a, attr = t, current_battle_id = b, battle_ended_flag = 0\<rparr>, c_orig = orig, c_player = k\<rparr>"

lemma battles_a:
  "advance CHR ''G'' (who_a 0 7 2 0 CHR ''G'' 7 0) (who_a 1 8 3 1 CHR ''G'' 8 (Suc 0))
    = who_a 0 5 2 0 CHR ''G'' 7 0"
  "advance CHR ''H'' (who_a 2 4 4 0 CHR ''H'' 4 2) (who_a 3 1 4 1 CHR ''H'' 1 3)
    = who_a 3 1 4 1 CHR ''H'' 1 3"
  "advance CHR ''I'' (who_a 4 12 2 2 CHR ''I'' 12 4) (who_a 5 3 4 1 CHR ''I'' 3 5)
    = who_a 4 10 2 2 CHR ''I'' 12 4"
  "advance CHR ''J'' (who_a 6 7 3 2 CHR ''J'' 7 6) (who_a 7 10 2 2 CHR ''J'' 10 7)
    = who_a 6 4 3 2 CHR ''J'' 7 6"
  "advance CHR ''D'' (who_a 0 5 2 0 CHR ''G'' 7 0) (who_a 3 1 4 1 CHR ''H'' 1 3)
    = who_a 0 4 2 0 CHR ''D'' 7 0"
  "advance CHR ''E'' (who_a 4 10 2 2 CHR ''I'' 12 4) (who_a 6 4 3 2 CHR ''J'' 7 6)
    = who_a 4 8 2 2 CHR ''E'' 12 4"
  "advance CHR ''B'' (who_a 0 4 2 0 CHR ''D'' 7 0) (who_a 4 8 2 2 CHR ''E'' 12 4)
    = who_a 4 8 2 2 CHR ''B'' 12 4"
  "advance CHR ''M'' (who_a 1 8 3 1 CHR ''G'' 8 8) (who_a 5 3 4 1 CHR ''I'' 3 9)
    = who_a 1 6 3 1 CHR ''M'' 8 8"
  "advance CHR ''N'' (who_a 2 4 4 0 CHR ''H'' 4 11) (who_a 7 10 2 2 CHR ''J'' 10 12)
    = who_a 7 8 2 2 CHR ''N'' 10 12"
  "advance CHR ''K'' (who_a 1 6 3 1 CHR ''M'' 8 8) (who_a 3 1 4 1 CHR ''D'' 1 10)
    = who_a 3 1 4 1 CHR ''K'' 1 10"
  "advance CHR ''L'' (who_a 7 8 2 2 CHR ''N'' 10 12) (who_a 6 7 3 2 CHR ''E'' 7 13)
    = who_a 6 4 3 2 CHR ''L'' 7 13"
  "advance CHR ''F'' (who_a 3 1 4 1 CHR ''K'' 1 10) (who_a 6 4 3 2 CHR ''L'' 7 13)
    = who_a 3 1 4 1 CHR ''F'' 1 10"
  "advance CHR ''C'' (who_a 3 1 4 1 CHR ''F'' 1 10) (who_a 0 7 2 0 CHR ''B'' 7 14)
    = who_a 0 5 2 0 CHR ''C'' 7 14"
  by code_simp+

lemma losers_a:
  "agent 8 (demoted CHR ''G'' (who_a 0 7 2 0 CHR ''G'' 7 0) (who_a 1 8 3 1 CHR ''G'' 8 (Suc 0)))
    = who_a 1 8 3 1 CHR ''G'' 8 8"
  "agent 11 (demoted CHR ''H'' (who_a 2 4 4 0 CHR ''H'' 4 2) (who_a 3 1 4 1 CHR ''H'' 1 3))
    = who_a 2 4 4 0 CHR ''H'' 4 11"
  "agent 9 (demoted CHR ''I'' (who_a 4 12 2 2 CHR ''I'' 12 4) (who_a 5 3 4 1 CHR ''I'' 3 5))
    = who_a 5 3 4 1 CHR ''I'' 3 9"
  "agent 12 (demoted CHR ''J'' (who_a 6 7 3 2 CHR ''J'' 7 6) (who_a 7 10 2 2 CHR ''J'' 10 7))
    = who_a 7 10 2 2 CHR ''J'' 10 12"
  "agent 10 (demoted CHR ''D'' (who_a 0 5 2 0 CHR ''G'' 7 0) (who_a 3 1 4 1 CHR ''H'' 1 3))
    = who_a 3 1 4 1 CHR ''D'' 1 10"
  "agent 13 (demoted CHR ''E'' (who_a 4 10 2 2 CHR ''I'' 12 4) (who_a 6 4 3 2 CHR ''J'' 7 6))
    = who_a 6 7 3 2 CHR ''E'' 7 13"
  "agent 14 (demoted CHR ''B'' (who_a 0 4 2 0 CHR ''D'' 7 0) (who_a 4 8 2 2 CHR ''E'' 12 4))
    = who_a 0 7 2 0 CHR ''B'' 7 14"
  by code_simp+

lemma loaded_world_a: "i < 8 \<Longrightarrow> loaded world_a i = (players_a ! i)\<lparr>real_player_id := word_of_nat i\<rparr>"
  unfolding loaded_def world_a_def using load_line [OF players_a_writable, of i] by (simp add: players_a_def)

lemma players_seats_a:
  "seat (loaded world_a) (Player 0) = who_a 0 7 2 0 CHR ''G'' 7 0"
  "seat (loaded world_a) (Player (Suc 0)) = who_a 1 8 3 1 CHR ''G'' 8 (Suc 0)"
  "seat (loaded world_a) (Player 2) = who_a 2 4 4 0 CHR ''H'' 4 2"
  "seat (loaded world_a) (Player 3) = who_a 3 1 4 1 CHR ''H'' 1 3"
  "seat (loaded world_a) (Player 4) = who_a 4 12 2 2 CHR ''I'' 12 4"
  "seat (loaded world_a) (Player 5) = who_a 5 3 4 1 CHR ''I'' 3 5"
  "seat (loaded world_a) (Player 6) = who_a 6 7 3 2 CHR ''J'' 7 6"
  "seat (loaded world_a) (Player 7) = who_a 7 10 2 2 CHR ''J'' 10 7"
  by (simp_all add: seat.simps(2) source_table loaded_world_a players_a_def line_a_def agent_def who_a_def FIRE_def GRASS_def WATER_def)

lemma seat_agent: "source k = Some b \<Longrightarrow> seat st (Player k) = agent k (demoted b (seat st (child b 0)) (seat st (child b 1)))"
  by (simp add: seat.simps(2))

lemma seats_a: "seat (loaded world_a) (Battle CHR ''B'') = who_a 4 8 2 2 CHR ''B'' 12 4"
  "seat (loaded world_a) (Battle CHR ''C'') = who_a 0 5 2 0 CHR ''C'' 7 14"
  by (simp_all add: seat.simps(1) seat_agent players_seats_a battles_a losers_a source_table battles_def)

lemma champion_a: "champion (loaded world_a) = 0"
proof -
  have "fst (outcome CHR ''A'' (who_a 4 8 2 2 CHR ''B'' 12 4) (who_a 0 5 2 0 CHR ''C'' 7 14)) = 1" by code_simp
  then show ?thesis by (simp add: champion_def seats_a) (simp add: who_a_def)
qed

section \<open>Properties\<close>

text \<open>
  C33: the championship always ends, whatever the schedule of the processes:
  with eight fit players there is one end, at which every process has left,
  every pipe and fifo is empty and battle A has printed the champion that the
  double elimination \<open>champion\<close> computes; every sequence of steps of the kernel
  can be continued to it, and all complete ones take the same number of steps.
\<close>

theorem tournament_ends:
  assumes "\<And>i. i \<le> 7 \<Longrightarrow> fit (loaded w i)"
  shows "\<exists>t bt n. all_over t \<and> procs t (Battle CHR ''A'') = Some (RunB bt) \<and> b_out bt = champion_line (champion (loaded w))
    \<and> (\<forall>qs u. run (net_step w) qs (net_start w) = Some u \<longrightarrow> (\<exists>ps. run (net_step w) ps u = Some t \<and> length qs + length ps = n))"
  using championship_final [OF assms] every_schedule by blast

theorem tournament_ends_witness:
  "\<exists>t bt. all_over t \<and> procs t (Battle CHR ''A'') = Some (RunB bt) \<and> b_out bt = ''Champion is P0'' @ [LF]
    \<and> (\<exists>ps. run (net_step world_a) ps (net_start world_a) = Some t)"
proof -
  obtain t bt n where t: "all_over t" "procs t (Battle CHR ''A'') = Some (RunB bt)" "b_out bt = champion_line (champion (loaded world_a))"
    "\<And>qs u. run (net_step world_a) qs (net_start world_a) = Some u \<Longrightarrow> \<exists>ps. run (net_step world_a) ps u = Some t \<and> length qs + length ps = n"
    using tournament_ends [OF loaded_a] by blast
  have "\<exists>ps. run (net_step world_a) ps (net_start world_a) = Some t" using t(4) [of "[]"] by fastforce
  moreover have "champion_line 0 = ''Champion is P0'' @ [LF]" by code_simp
  ultimately show ?thesis using t(1-3) unfolding champion_a by metis
qed

text \<open>
  C34: the processes of a battle below A implement \<open>advance\<close>: when both its
  subtrees are present with their messages sent, it plays, and afterwards it
  is itself present, in passing mode, with the winner, who has recovered; the
  loser's subtree has ended, and a real player that lost has put its restored
  status into the fifo of the battle's agent, and nothing else has changed.
\<close>

theorem battle_implements_advance:
  assumes "b \<in> set battles" and "b \<noteq> CHR ''A''" and "idle s b"
    and "present s (child b 0) x" and "present s (child b 1) y" and "sound x" and "sound y" and "may_demote lost b x y s"
  shows "\<exists>t. reaches w lost s t \<and> alike (set (sub (Battle b))) UNIV s t \<and> present t (Battle b) (advance b x y) \<and> fifo_news b x y s t"
  by (rule battle_plays [OF assms])

definition player_a :: "nat \<Rightarrow> Status \<Rightarrow> player" where
  "player_a i p = \<lparr>player_id = i, battle_pid = 100, original_HP = HP p, status = p, ppc = P_read, p_log = []\<rparr>"

text \<open>Battle G before its fight, with the agent 8 that waits for its loser.\<close>

definition net_a :: net where
  "net_a = \<lparr>procs = [Battle CHR ''G'' \<mapsto> RunB (battle_start [raw_a, raw_a] 0 ''G'' ''1'' \<lparr>bpc := B_read 0\<rparr>),
       Player 0 \<mapsto> RunP (player_a 0 (players_a ! 0)), Player 1 \<mapsto> RunP (player_a 1 (players_a ! 1)),
       Player 8 \<mapsto> RunP (player_a 8 raw_a)],
     chans = (\<lambda>_. [])(To_parent (Player 0) := [players_a ! 0], To_parent (Player 1) := [players_a ! 1])\<rparr>"

lemma net_a_facts:
  "idle net_a CHR ''G''" "present net_a (Player 0) (agent 0 (players_a ! 0))" "present net_a (Player 1) (agent 1 (players_a ! 1))"
  "can_put net_a (Fifo 8)"
  by (simp_all add: net_a_def idle_def battle_start_def present_def ready_def agent_def can_put_def standing.Standing_player player_a_def)

theorem battle_implements_advance_witness:
  "\<exists>t. present t (Battle CHR ''G'') (advance CHR ''G'' (agent 0 (players_a ! 0)) (agent 1 (players_a ! 1)))"
proof -
  have "list_all fit players_a" by code_simp
  then have s: "sound (agent 0 (players_a ! 0))" "sound (agent 1 (players_a ! 1))"
    by (simp_all add: sound_agent players_a_def)
  have may: "may_demote (\<lambda>_. Player (c_player (loser CHR ''G'' (agent 0 (players_a ! 0)) (agent 1 (players_a ! 1))))) CHR ''G''
      (agent 0 (players_a ! 0)) (agent 1 (players_a ! 1)) net_a"
    unfolding may_demote_def using net_a_facts(4) agents_table [of "CHR ''G''" 8] agents by (simp add: battles_def)
  show ?thesis
    using battle_implements_advance [OF _ _ net_a_facts(1) _ _ s may, of world_a] net_a_facts(2,3) by (auto simp: battles_def)
qed

text \<open>
  C35: a fight of two fit players ends within as many rounds as the first has
  health, and its winner has a closed form: who needs fewer hits to beat the
  other; if both need as many, who has less health before the last round, and
  if that is the same too, who has the smaller id.
\<close>

theorem fight_closed_form:
  assumes "fit x" and "fit y" and "nat (sint (HP x)) \<le> n"
  shows "\<exists>x' y'. fight n b [x, y] = Some (winner b x y, [x', y']) \<and> battle_ended_flag x' = 1 \<and> battle_ended_flag y' = 1
    \<and> keeps_player b x x' \<and> keeps_player b y y'
    \<and> 0 < sint (HP ([x', y'] ! winner b x y)) \<and> sint (HP ([x', y'] ! winner b x y)) \<le> sint (HP ([x, y] ! winner b x y))
    \<and> sint (HP ([x', y'] ! (1 - winner b x y))) \<le> 0"
  by (rule fight_outcome [OF assms])

theorem fight_closed_form_witness:
  "map_option fst (fight 7 CHR ''G'' [players_a ! 0, players_a ! 1]) = Some 0"
proof -
  have f: "fit (players_a ! 0)" "fit (players_a ! 1)" "nat (sint (HP (players_a ! 0))) \<le> 7" by code_simp+
  have "winner CHR ''G'' (players_a ! 0) (players_a ! 1) = 0" by code_simp
  then show ?thesis using fight_closed_form [OF f, of "CHR ''G''"] by auto
qed


text \<open>A step as the kernel makes it never kills when it is a quiet one.\<close>

lemma program_alive:
  "program_do w g = Spawn q name g' \<Longrightarrow> g' \<noteq> Killed" "program_do w g = Receive c k \<Longrightarrow> k x \<noteq> Killed"
  "program_do w g = Put c y g' \<Longrightarrow> g' \<noteq> Killed" "program_do w g = Wait g' \<Longrightarrow> g' \<noteq> Killed"
proof -
  have m: "(map_action f a = Spawn q name g' \<longrightarrow> g' \<in> range f) \<and> (map_action f a = Receive c k \<longrightarrow> k x \<in> range f)
    \<and> (map_action f a = Put c y g' \<longrightarrow> g' \<in> range f) \<and> (map_action f a = Wait g' \<longrightarrow> g' \<in> range f)" for f :: "'a \<Rightarrow> program" and a
    by (cases a) auto
  have "Killed \<notin> range RunB" "Killed \<notin> range RunP" by auto
  then show "program_do w g = Spawn q name g' \<Longrightarrow> g' \<noteq> Killed" "program_do w g = Receive c k \<Longrightarrow> k x \<noteq> Killed"
    "program_do w g = Put c y g' \<Longrightarrow> g' \<noteq> Killed" "program_do w g = Wait g' \<Longrightarrow> g' \<noteq> Killed"
    using m [of RunB "case g of RunB b \<Rightarrow> battle_do (pids w) b"] m [of RunP "case g of RunP q \<Rightarrow> player_do (pids w) q"]
    by (auto simp: program_do_def split: program.splits)
qed

lemma quiet_alive:
  assumes "quiet_step w p s = Some t" and "\<And>q. procs s q \<noteq> Some Killed" shows "procs t q \<noteq> Some Killed"
  using assms(1)
proof (cases rule: quiet_step_cases)
  case (Spawn g r name g')
  then show ?thesis using assms(2) program_alive(1) [OF Spawn(2)] by (auto simp: exec_def split: proc.splits)
qed (use assms(2) in \<open>auto dest: program_alive\<close>)

lemma quiet_run_alive: "run (quiet_step w) qs s = Some t \<Longrightarrow> (\<And>q. procs s q \<noteq> Some Killed) \<Longrightarrow> procs t q \<noteq> Some Killed"
proof (induction qs arbitrary: s)
  case (Cons p qs)
  then obtain s' where "quiet_step w p s = Some s'" "run (quiet_step w) qs s' = Some t" by (auto split: option.splits)
  then show ?case using Cons.IH quiet_alive [of w p s s'] Cons.prems(2) by blast
qed simp

text \<open>
  C36: on the way nothing goes wrong: in every state that is reached from the
  start no process has been killed by \<open>SIGPIPE\<close>, no process can read at the end
  of a pipe or write without a reader, and there is no deadlock: everything is
  over or some process can go on.
\<close>

theorem no_deadlock_no_sigpipe:
  assumes "\<And>i. i \<le> 7 \<Longrightarrow> fit (loaded w i)" and "run (net_step w) qs (net_start w) = Some u"
  shows "procs u p \<noteq> Some Killed \<and> net_step w p u = quiet_step w p u \<and> (all_over u \<or> (\<exists>q. net_step w q u \<noteq> None))"
proof (intro conjI)
  obtain t where t: "reaches w (demoter (loaded w)) (net_start w) t" "all_over t" using championship_final [OF assms(1)] by blast
  obtain ps where ps: "run (quiet_step w) ps (net_start w) = Some t" "championship.owned w (owner (demoter (loaded w))) ps (net_start w)"
    using t(1) by (auto simp: reaches_def)
  have q: "run (quiet_step w) qs (net_start w) = Some u" by (rule strict_to_quiet [OF ps t(2) assms(2)])
  obtain rs where rs: "run (quiet_step w) rs u = Some t" "championship.owned w (owner (demoter (loaded w))) rs u"
    using championship.every_run_reaches [OF ps all_over_final [OF t(2)] q] by blast
  show "procs u p \<noteq> Some Killed" by (rule quiet_run_alive [OF q]) (simp add: net_start_def)
  show same: "net_step w p u = quiet_step w p u" for p by (rule strict_quiet [OF rs t(2)])
  show "all_over u \<or> (\<exists>q. net_step w q u \<noteq> None)"
    using rs(1) t(2) same by (cases rs) (auto split: option.splits)
qed

theorem no_deadlock_no_sigpipe_witness: "all_over (net_start world_a) \<or> (\<exists>q. net_step world_a q (net_start world_a) \<noteq> None)"
proof -
  have r: "run (net_step world_a) [] (net_start world_a) = Some (net_start world_a)" by simp
  show ?thesis using no_deadlock_no_sigpipe [OF loaded_a r] by blast
qed

text \<open>
  C37: the status file is read as it was written: player \<open>i\<close> gets the status of
  line \<open>i\<close>, whatever the variables held before.
\<close>

theorem status_file_read_back:
  assumes "list_all writable ps" and "i < length ps"
  shows "load_status raw buf w (status_lines ps) i = (ps ! i)\<lparr>real_player_id := word_of_nat i\<rparr>"
  by (rule load_line [OF assms])

theorem status_file_read_back_witness:
  "load_status raw_a ''junk'' ''x'' (status_lines players_a) 3 = (line_a 1 4 GRASS CHR ''H'')\<lparr>real_player_id := 3\<rparr>"
proof -
  have "3 < length players_a" by (simp add: players_a_def)
  from status_file_read_back [OF players_a_writable this] show ?thesis by (simp add: players_a_def)
qed

text \<open>
  C38: health stays in its bounds, so no sum overflows. The fight of a battle
  ends, its winner \<open>f\<close> keeps a positive health \<open>h\<close>, at most what it came with,
  and goes on with half of what it misses recovered, the half of its health at
  the start and \<open>h\<close> together, never above that health; who loses a battle of
  real players comes back with all of it.
\<close>

theorem health_bounds:
  assumes "sound x" and "sound y"
  shows "\<exists>f qs. fight (nat (sint (HP (c_status x)))) b [c_status x, c_status y] = Some (f, qs) \<and> (f = 0 \<or> f = 1)
    \<and> (let c = [x, y] ! f; h = sint (HP (qs ! f)) in
        c_player (advance b x y) = c_player c \<and> 0 < h \<and> h \<le> sint (HP (c_status c))
        \<and> sint (HP (c_status (advance b x y))) = (sint (c_orig c) + h) div 2
        \<and> sint (HP (c_status (advance b x y))) \<le> sint (c_orig c)) \<and> sound (advance b x y)
    \<and> HP (demoted b x y) = c_orig ([x, y] ! (1 - f)) \<and> fit (demoted b x y)"
proof -
  obtain f qs where fo: "fight (nat (sint (HP (c_status x)))) b [c_status x, c_status y] = Some (f, qs)"
    and o: "outcome b x y = (f, qs)" "f = 0 \<or> f = 1" "0 < sint (HP (qs ! f))"
    "sint (HP (qs ! f)) \<le> sint (HP (c_status ([x, y] ! f)))"
    using outcome_facts [OF assms, of b] by metis
  let ?c = "[x, y] ! f"
  have c: "sound ?c" using o(2) assms by auto
  then have le: "sint (HP (qs ! f)) \<le> sint (c_orig ?c)" "sint (c_orig ?c) < 2 ^ 30"
    using o(4) by (simp_all add: sound_def)
  have a: "advance b x y = ?c\<lparr>c_status := recover (c_orig ?c) (qs ! f)\<rparr>" by (simp add: advance_def o(1) Let_def)
  have l: "loser b x y = [x, y] ! (1 - f)" by (simp add: loser_def o(1))
  have won: "c_player (advance b x y) = c_player ?c"
    "sint (HP (c_status (advance b x y))) = (sint (c_orig ?c) + sint (HP (qs ! f))) div 2"
    "sint (HP (c_status (advance b x y))) \<le> sint (c_orig ?c)"
    using recover_facts(1,3) [OF o(3) le] unfolding a by simp_all
  show ?thesis
    using fo o(2-4) won sound_advance [OF assms, of b] demoted_fit(1,2) [OF assms, of b] unfolding l Let_def
    by (intro exI [of _ f] exI [of _ qs] conjI)
qed

theorem health_bounds_witness:
  "\<exists>f qs. fight 7 CHR ''G'' (map (\<lambda>i. c_status (agent i (players_a ! i))) [0, 1]) = Some (f, qs) \<and> 0 < sint (HP (qs ! f))
    \<and> 2 * sint (HP (c_status (advance CHR ''G'' (agent 0 (players_a ! 0)) (agent 1 (players_a ! 1)))))
      \<le> sint (c_orig (agent f (players_a ! f))) + sint (HP (qs ! f))"
proof -
  have "list_all fit players_a" by code_simp
  then have s: "sound (agent 0 (players_a ! 0))" "sound (agent 1 (players_a ! 1))"
    by (simp_all add: sound_agent players_a_def)
  have hp: "nat (sint (HP (c_status (agent 0 (players_a ! 0))))) = 7" by code_simp
  from health_bounds [OF s, of "CHR ''G''"] show ?thesis unfolding hp Let_def by auto
qed


text \<open>
  C39: the tables of battle.c and player.c agree and form one tree: every
  battle and every player is started exactly once, below battle A; the parent
  a battle names and the battle a player names are the ones that started them;
  and exactly the battles of real players have an agent that gets their loser,
  each another one of the seven.
\<close>

theorem tournament_tree:
  "distinct all_procs \<and> set all_procs = Battle ` set battles \<union> Player ` set [0..<15]
    \<and> list_all (\<lambda>b. list_all (\<lambda>i. case child b i of Battle c \<Rightarrow> battle_parent ! battle_index c = [b] | Player k \<Rightarrow> target_char k = b) [0, 1]) battles
    \<and> list_all (\<lambda>b. (agent_of b \<noteq> None) = list_all is_real (sub (Battle b))) battles
    \<and> map source [0..<15] = replicate 8 None @ map Some ''GIDHJEB''"
proof (intro conjI)
  have players: "[0..<15] = [0, 1, 2, 3, 4, 5, 6, 7, 8, 9, 10, 11, 12, 13, 14]" by code_simp
  show "distinct all_procs" unfolding all_procs_def by (rule sub_distinct) (simp add: battles_def)
  show "set all_procs = Battle ` set battles \<union> Player ` set [0..<15]"
  proof -
    have "list_all (\<lambda>p. p \<in> set (map Battle battles @ map Player [0..<15])) all_procs"
      "list_all (\<lambda>p. p \<in> set all_procs) (map Battle battles @ map Player [0..<15])"
      unfolding players by (simp_all add: all_procs_def sub_table battles_list)
    then have "set all_procs = set (map Battle battles @ map Player [0..<15])" by (auto simp only: list_all_iff)
    then show ?thesis by simp
  qed
  show "list_all (\<lambda>b. list_all (\<lambda>i. case child b i of Battle c \<Rightarrow> battle_parent ! battle_index c = [b] | Player k \<Rightarrow> target_char k = b) [0, 1]) battles"
  proof -
    have "map target_char [0..<15] = ''GGHHIIJJMMKNNLC''" by code_simp
    then show ?thesis
      unfolding players by (simp add: battles_list battle_parent_def battle_index_def char_code_def)
  qed
  show "list_all (\<lambda>b. (agent_of b \<noteq> None) = list_all is_real (sub (Battle b))) battles"
    by (simp add: battles_list agents sub_table is_real_def)
  show "map source [0..<15] = replicate 8 None @ map Some ''GIDHJEB''"
  proof -
    have "replicate 8 x = [x, x, x, x, x, x, x, x]" for x :: "char option" by (simp add: numeral_eq_Suc)
    then show ?thesis unfolding players by (simp add: source_table)
  qed
qed

text \<open>Without attack power a round leaves the health as it is.\<close>

lemma powerless_round:
  assumes "ATK x = 0" and "ATK y = 0" and "0 < sint (HP x)" and "0 < sint (HP y)"
  shows "\<exists>f. battle_round b [x, y] = (f, [at b x, at b y])"
proof -
  define f where "f = attacks_first (at b x) (at b y)"
  define p where "p = [x, y] ! f"
  define q where "q = [x, y] ! (1 - f)"
  have f: "f = 0 \<or> f = 1" by (auto simp: f_def attacks_first_def)
  have z: "ATK p = 0" "ATK q = 0" "0 < sint (HP p)" "0 < sint (HP q)" using f assms by (auto simp: p_def q_def)
  have h: "hit b u v = v" if "ATK u = 0" for u v using that by (simp add: hit_def)
  have r: "battle_round b [x, y] = (1 - f, pair f (at b p) (at b q))"
    unfolding battle_round_pair [OF f_def [symmetric] p_def q_def] using z by (simp add: h c_le_0)
  have "pair f (at b p) (at b q) = [at b x, at b y]" using f by (auto simp: pair_def p_def q_def)
  then show ?thesis using r by simp
qed

text \<open>
  C40: a fight in which neither player has attack power never ends, whatever
  the number of rounds.
\<close>

theorem powerless_fight_never_ends:
  assumes "ATK x = 0" and "ATK y = 0" and "0 < sint (HP x)" and "0 < sint (HP y)" and "battle_ended_flag x = 0"
  shows "fight n b [x, y] = None"
  using assms
proof (induction n arbitrary: x y)
  case (Suc n)
  obtain f where r: "battle_round b [x, y] = (f, [at b x, at b y])" using powerless_round [OF Suc.prems(1-4)] by blast
  have "fight n b [at b x, at b y] = None" by (rule Suc.IH) (use Suc.prems in simp_all)
  then show ?case using r Suc.prems(5) by simp
qed simp

theorem powerless_fight_never_ends_witness: "fight 1000 CHR ''G'' [line_a 7 0 FIRE CHR ''G'', line_a 8 0 GRASS CHR ''G''] = None"
  by (rule powerless_fight_never_ends) (simp_all add: line_a_def)

end
