(* ===== verification/Spec2Isabelle.thy ===== *)
theory Spec2Isabelle
  imports Booking_Props Thread_Props Movies_Props Pvp_Props
begin

text \<open>
  Four independent system programs in C, under src/: csiebooking (booking
  servers that share a record file), thread-library (user-level threads on
  setjmp and longjmp), simple-movies-recommendation-system (filter and merge
  sort with threads or processes) and pvp-championship (a tournament of
  processes over pipes and fifos). The four share no code; the development has
  one group of theories for each, on a common prelude.

  \<^bold>\<open>Prelude\<close>. C_Prelude: \<open>int\<close> and \<open>unsigned int\<close> as \<open>32 word\<close>, signed
  comparison, division and remainder of C, arrays as lists. C_Strings: strlen,
  strcmp, strstr, atoi, the \<open>%d\<close> and \<open>%s\<close> of printf and scanf, fgets. C_Double:
  IEEE binary64 with rounding to nearest (add, multiply, divide, sqrt, strtod),
  NaN and infinities included. Stops of a program (failed assertions, exits,
  accesses outside memory) are values: \<open>'a res\<close> or \<open>option\<close>.

  \<^bold>\<open>csiebooking/server.c\<close>.
  Booking_Store: the 16-byte bookingRecord and the file as bytes; the kernel's
  table of POSIX record locks behind \<open>fcntl\<close> with carving of ranges and release
  on close. The locale \<open>record_locks\<close> states what a client may rely on and is
  interpreted on the table.
  Booking_Server: one process of either build: \<open>server\<close> holds \<open>requestP\<close>, the
  two lock arrays and the descriptor sets, \<open>kernel\<close> the file, the locks and
  the sockets; one definition per step of \<open>main\<close>'s select loop (accept,
  \<open>handle_read\<close>, id check, \<open>apply_booking\<close>, replies, \<open>endConnection\<close>).
  Booking_Inv: sessions, lock arrays and kernel locks agree, kept by every
  handler. Booking_System: any number of servers on one file as a step relation.
  Booking_Props, C1 to C10: exclusion of writers across processes, the booking
  limits against an unbounded specification, replies, errors, overflow.

  \<^bold>\<open>thread-library\<close> (threads.c, threadtools.h, scheduler.c, main.c).
  Thread_Funcs: the thread control block and the loop bodies (Fibonacci,
  Collatz, largest subarray) on words. Thread_Queues: the fixed arrays as
  queues, through the locale \<open>array_queue\<close>. Thread_Sched: the process with its
  queues, signal mask, pending signals, alarm and fifos; \<open>scheduler\<close> by the
  value of longjmp, \<open>thread_yield\<close>, \<open>async_read\<close>, \<open>thread_exit\<close>, the handler,
  \<open>main\<close>. Thread_Inv: what every reachable state satisfies. Thread_Props, C11
  to C20: queue refinement, round robin, signals, results of the functions,
  termination of the schedule, and reading, with \<open>run_opened\<close> for the runs in
  which writers open a FIFO again.

  \<^bold>\<open>simple-movies-recommendation-system\<close> (lib.c, server.c, header.h).
  Movies_Lib: the selection sort of lib.c with its secret, on arrays of
  pointers; the locale \<open>title_sorter\<close> is its contract, interpreted on the
  library and on both merge sorts. Movies_Server: \<open>filter\<close>, \<open>merge\<close>, the thread
  and process merge sorts with the schedule as a parameter, the requests.
  Movies_Init: initialize and read_request on the text of the files.
  Movies_Sort: the refinement of \<open>merge\<close> and of the sorts to lists. Movies_Props,
  C21 to C32: selection, order, equivalence of the two builds, the round trip
  of the data set, types of what is loaded, the request without a match. The
  block that \<open>malloc\<close> returns to the thread server is an argument, \<open>raw\<close>, with
  any contents; \<open>startable\<close> asks that they make no score negative or NaN.

  \<^bold>\<open>pvp-championship\<close> (battle.c, player.c, status.h).
  Pvp_Battle: the message \<open>Status\<close>, the tables, \<open>play_an_attack\<close>, one round,
  and battle.c as a state machine: \<open>bpc\<close> is the next system call and
  \<open>battle_do\<close> makes it, with what follows up to the next. Pvp_Player: the same
  for player.c, with the status file. Pvp_Net: all processes, pipes and fifos;
  \<open>net_step\<close> is one system call as the kernel makes it, with blocking, end of
  file and SIGPIPE; \<open>quiet_step\<close> leaves the last two out. The locale
  \<open>message_system\<close>, interpreted on the championship, shows that a run with one
  owner for each end of a pipe stands for all. Pvp_Tree: the tables as rewrite
  rules. Pvp_Fight: the playing loop on the messages and who wins it. Pvp_Runs:
  a battle of processes implements \<open>advance\<close>. Pvp_Tournament: the double
  elimination as the function \<open>seat\<close> over the tables, and the battles in an order.
  Pvp_Champion: start, run and end, for every schedule. Pvp_Props, C33 to C40:
  the championship ends with its champion, no deadlock and no SIGPIPE, closed
  form of a fight, bounds of health, the status file, the tables.

  \<^bold>\<open>Bounds and fuel\<close>. \<open>fight\<close> takes the number of rounds; as many as the first
  player has health are enough (C35), and without attack power none is (C40).
  \<open>fit\<close> asks for health below \<open>2 ^ 30\<close> and attack power below \<open>2 ^ 29\<close>, so that
  no sum of a fight overflows. \<open>tree_of\<close> has fuel 6, the tree has six levels.
  \<open>thread_merge_sort\<close> and \<open>process_merge_sort\<close> end by the depth, the scanners
  by the length of the text, \<open>seat\<close> by the place in the order of the battles.

  \<^bold>\<open>Not modelled\<close>. Creating the listening socket, stderr logging, setreadlock
  and setwritelock, which nothing calls, a failing open of the record file
  (the code goes on with -1 as descriptor), and other servers in the
  middle of one turn of the select loop, which is one step here (csiebooking);
  unbuffered_io, the time sleep takes, and the stacks: \<open>longjmp\<close> resumes a
  thread function after \<open>setjmp\<close> although ISO C leaves a jump into a function
  that has returned undefined (thread-library); freeing of memory and failures
  of malloc, mmap and fopen, reads past the end of a block by memcpy, and the
  finer interleaving of the two halves of a sort, which touch disjoint places:
  one runs after the other, in either order (movies); failures of fork, execl, fopen
  and pipe, the end of an execl argument list, and descriptors that a child
  inherits without using them (championship): there the end of a pipe is
  reached when the process that writes to it has ended. Log lines of the
  championship are kept per process, not merged into files. The judge script,
  the build files and the sample data are not part of the programs.
\<close>

end
